(* ===== verification/Prelude.thy ===== *)
theory Prelude
  imports Main "HOL-Library.Word" "HOL-Library.Monad_Syntax"
begin

text \<open>
  Shared vocabulary of the development.

  \<^item> Go's \<open>byte\<close> and \<open>uint32\<close> are words of their width. A Go \<open>string\<close> is a sequence of bytes;
    it is modelled by HOL's \<open>string\<close> (a list of 8-bit characters), and the conversions
    \<open>[]byte(s)\<close> and \<open>string(b)\<close> are \<open>bytes_of\<close> and \<open>string_of\<close>.
  \<^item> A slice expression \<open>b[lo:hi]\<close> panics when it leaves the slice; \<open>go_slice\<close> returns \<open>None\<close>
    there, so a model that computes with slices shows where the code could panic.
  \<^item> \<open>copy_at\<close> is \<open>copy(buf[off:], src)\<close>: it overwrites the bytes from \<open>off\<close> on and stops at the
    end of the buffer.
  \<^item> \<open>encoding/binary\<close>: little endian (the pcscd wire) and big endian (the SSH wire) 32-bit
    fields with their round trips.
\<close>

unbundle bit_operations_syntax

type_synonym byte = "8 word"
type_synonym u32 = "32 word"

named_theorems wire_simps "layout facts of the fixed size wire structs"
named_theorems str_simps "string and byte conversions"

section \<open>Strings and bytes\<close>

definition byte_of_char :: "char \<Rightarrow> byte" where
  "byte_of_char c = word_of_nat (of_char c)"

definition char_of_byte :: "byte \<Rightarrow> char" where
  "char_of_byte b = char_of (unat b)"

definition bytes_of :: "string \<Rightarrow> byte list" where
  "bytes_of s = map byte_of_char s"

definition string_of :: "byte list \<Rightarrow> string" where
  "string_of bs = map char_of_byte bs"

lemma of_char_nat_less: "(of_char c :: nat) < 256"
  by (metis char_of_char of_char_of of_nat_of_char nat_of_char_less_256)

lemma char_of_byte_of_char [simp, str_simps]: "char_of_byte (byte_of_char c) = c"
  using of_char_nat_less [of c]
  by (simp add: char_of_byte_def byte_of_char_def unat_of_nat take_bit_nat_eq_self)

lemma byte_of_char_of_byte [simp, str_simps]: "byte_of_char (char_of_byte b) = b"
proof -
  have "unat b < 2 ^ LENGTH(8)" by (rule unsigned_less)
  then have "unat b < 256" by simp
  then show ?thesis by (simp add: char_of_byte_def byte_of_char_def)
qed

lemma string_of_bytes_of [simp, str_simps]: "string_of (bytes_of s) = s"
  by (simp add: string_of_def bytes_of_def comp_def)

lemma bytes_of_string_of [simp, str_simps]: "bytes_of (string_of b) = b"
  by (simp add: string_of_def bytes_of_def comp_def)

lemma length_bytes_of [simp]: "length (bytes_of s) = length s"
  by (simp add: bytes_of_def)

lemma length_string_of [simp]: "length (string_of b) = length b"
  by (simp add: string_of_def)

lemma bytes_of_append [simp]: "bytes_of (s @ t) = bytes_of s @ bytes_of t"
  by (simp add: bytes_of_def)

lemma bytes_of_inject [simp]: "bytes_of s = bytes_of t \<longleftrightarrow> s = t"
  by (metis string_of_bytes_of)

lemma zero_byte_char: "0 = byte_of_char c \<longleftrightarrow> c = CHR 0x00"
proof -
  have "byte_of_char (CHR 0x00) = 0" by (simp add: byte_of_char_def)
  then show ?thesis by (metis char_of_byte_of_char)
qed

section \<open>Slices and in-place copies\<close>

definition go_slice :: "nat \<Rightarrow> nat \<Rightarrow> 'a list \<Rightarrow> 'a list option" where
  "go_slice lo hi xs = (if lo \<le> hi \<and> hi \<le> length xs then Some (take (hi - lo) (drop lo xs)) else None)"

definition copy_at :: "nat \<Rightarrow> 'a list \<Rightarrow> 'a list \<Rightarrow> 'a list" where
  "copy_at off src buf = take (length buf) (take off buf @ src @ drop (off + length src) buf)"

lemma length_slice: "go_slice lo hi xs = Some ys \<Longrightarrow> length ys = hi - lo"
  by (auto simp: go_slice_def split: if_splits)

lemma slice_eq_Some_iff:
  "go_slice lo hi xs = Some ys \<longleftrightarrow> lo \<le> hi \<and> hi \<le> length xs \<and> ys = take (hi - lo) (drop lo xs)"
  by (auto simp: go_slice_def)

lemma length_copy_at [simp]:
  "off + length src \<le> length buf \<Longrightarrow> length (copy_at off src buf) = length buf"
  by (simp add: copy_at_def)

lemma copy_at_fits:
  "off + length src \<le> length buf \<Longrightarrow>
   copy_at off src buf = take off buf @ src @ drop (off + length src) buf"
  by (simp add: copy_at_def)

section \<open>Little and big endian 32-bit fields\<close>

definition put_le32 :: "u32 \<Rightarrow> byte list" where
  "put_le32 w = [ucast w, ucast (drop_bit 8 w), ucast (drop_bit 16 w), ucast (drop_bit 24 w)]"

fun get_le32 :: "byte list \<Rightarrow> u32 option" where
  "get_le32 (a # b # c # d # _) =
     Some (ucast a OR push_bit 8 (ucast b) OR push_bit 16 (ucast c) OR push_bit 24 (ucast d))"
| "get_le32 _ = None"

definition put_be32 :: "u32 \<Rightarrow> byte list" where
  "put_be32 w = rev (put_le32 w)"

definition get_be32 :: "byte list \<Rightarrow> u32 option" where
  "get_be32 bs = get_le32 (rev (take 4 bs))"

definition le32_at :: "nat \<Rightarrow> byte list \<Rightarrow> u32 option" where
  "le32_at off b = Option.bind (go_slice off (off + 4) b) get_le32"

lemma length_put_le32 [simp, wire_simps]: "length (put_le32 w) = 4"
  by (simp add: put_le32_def)

lemma length_put_be32 [simp, wire_simps]: "length (put_be32 w) = 4"
  by (simp add: put_be32_def)

lemma word_of_four_bytes:
  "ucast (ucast (w :: u32) :: byte) OR push_bit 8 (ucast (ucast (drop_bit 8 w) :: byte))
     OR push_bit 16 (ucast (ucast (drop_bit 16 w) :: byte))
     OR push_bit 24 (ucast (ucast (drop_bit 24 w) :: byte)) = w"
proof (rule bit_word_eqI)
  fix n
  assume "n < LENGTH(32)"
  then consider "n < 8" | k where "n = k + 8" "k < 8" | k where "n = k + 16" "k < 8"
    | k where "n = k + 24" "k < 8"
  proof -
    have "n < 8 \<or> (n = (n - 8) + 8 \<and> n - 8 < 8) \<or> (n = (n - 16) + 16 \<and> n - 16 < 8)
      \<or> (n = (n - 24) + 24 \<and> n - 24 < 8)"
      using \<open>n < LENGTH(32)\<close> by simp arith
    then show thesis using that by blast
  qed
  then show "bit (ucast (ucast (w :: u32) :: byte) OR push_bit 8 (ucast (ucast (drop_bit 8 w) :: byte))
     OR push_bit 16 (ucast (ucast (drop_bit 16 w) :: byte))
     OR push_bit 24 (ucast (ucast (drop_bit 24 w) :: byte)) :: u32) n = bit w n"
    by cases (auto simp: bit_simps ac_simps)
qed

lemma get_put_le32 [simp, wire_simps]: "get_le32 (put_le32 w @ rest) = Some w"
  using word_of_four_bytes [of w] by (simp add: put_le32_def)

lemma get_put_be32 [simp, wire_simps]: "get_be32 (put_be32 w @ rest) = Some w"
  using word_of_four_bytes [of w] by (simp add: put_be32_def get_be32_def put_le32_def)

lemma get_le32_None_iff: "get_le32 b = None \<longleftrightarrow> length b < 4"
  by (induction b rule: get_le32.induct) auto

lemma le32_at_in_range: "off + 4 \<le> length b \<Longrightarrow> \<exists>w. le32_at off b = Some w"
  by (cases "get_le32 (take 4 (drop off b))")
    (auto simp: le32_at_def go_slice_def get_le32_None_iff)

lemma le32_at_out_of_range: "length b < off + 4 \<Longrightarrow> le32_at off b = None"
  by (simp add: le32_at_def go_slice_def)

text \<open>A field sits where the fields before it end.\<close>

lemma le32_at_append [wire_simps]:
  "length pre = off \<Longrightarrow> le32_at off (pre @ put_le32 w @ rest) = Some w"
proof -
  assume "length pre = off"
  then have "go_slice off (off + 4) (pre @ put_le32 w @ rest) = Some (put_le32 w)"
    by (simp add: go_slice_def)
  then show ?thesis using get_put_le32 [of w "[]"] by (simp add: le32_at_def)
qed

lemma le32_at_skip [wire_simps]:
  "length pre \<le> off \<Longrightarrow> le32_at off (pre @ xs) = le32_at (off - length pre) xs"
  by (auto simp: le32_at_def go_slice_def)

lemma le32_at_0 [wire_simps]:
  "le32_at 0 (put_le32 w @ rest) = Some w"
  "le32_at 0 (put_le32 w) = Some w"
  using le32_at_append [of "[]" 0 w rest] le32_at_append [of "[]" 0 w "[]"] by simp_all

lemma slice_skip [wire_simps]:
  "length pre \<le> lo \<Longrightarrow> go_slice lo hi (pre @ xs) =
     (if lo \<le> hi then go_slice (lo - length pre) (hi - length pre) xs else None)"
  by (auto simp: go_slice_def)

lemma slice_within [wire_simps]:
  "hi \<le> length pre \<Longrightarrow> go_slice lo hi (pre @ xs) = go_slice lo hi pre"
  by (auto simp: go_slice_def)

lemma slice_all [wire_simps]: "n = length xs \<Longrightarrow> go_slice 0 n xs = Some xs"
  by (simp add: go_slice_def)

text \<open>Writing consecutive fields into a zeroed buffer lays them out one after the other.\<close>

lemma slice_0_append [wire_simps]:
  "length pre \<le> hi \<Longrightarrow> go_slice 0 hi (pre @ xs) = map_option ((@) pre) (go_slice 0 (hi - length pre) xs)"
  by (auto simp: go_slice_def)

lemma slice_0_0 [simp, wire_simps]: "go_slice 0 0 xs = Some []"
  by (simp add: go_slice_def)

lemma copy_at_skip [wire_simps]:
  "length pre \<le> off \<Longrightarrow> copy_at off src (pre @ xs) = pre @ copy_at (off - length pre) src xs"
  by (simp add: copy_at_def)

lemma copy_at_zeros [wire_simps]:
  "length src \<le> n \<Longrightarrow> copy_at 0 src (replicate n z) = src @ replicate (n - length src) z"
  by (simp add: copy_at_def)

lemma length_4_cases: "length xs = 4 \<Longrightarrow> \<exists>a b c d. xs = [a, b, c, d]"
  by (simp add: numeral_eq_Suc length_Suc_conv) blast

text \<open>Conversely, four bytes are the encoding of the word they decode to.\<close>

lemma put_get_le32: "get_le32 [a, b, c, d] = Some w \<Longrightarrow> put_le32 w = [a, b, c, d]"
proof -
  assume "get_le32 [a, b, c, d] = Some w"
  then have w: "w = ucast a OR push_bit 8 (ucast b) OR push_bit 16 (ucast c) OR push_bit 24 (ucast d)"
    by simp
  have bits: "\<not> bit x n" if "8 \<le> n" for x :: byte and n
    using that by (simp add: bit_word_half_eq impossible_bit)
  show ?thesis
    unfolding put_le32_def w
    by (auto intro!: bit_word_eqI simp: bit_simps bits)
qed

lemma le32_at_Some_put:
  "le32_at off b = Some w \<Longrightarrow> put_le32 w = take 4 (drop off b) \<and> off + 4 \<le> length b"
proof -
  assume "le32_at off b = Some w"
  then have sl: "off + 4 \<le> length b" "get_le32 (take 4 (drop off b)) = Some w"
    by (auto simp: le32_at_def go_slice_def split: if_splits)
  then have "length (take 4 (drop off b)) = 4" by simp
  then obtain x y z v where "take 4 (drop off b) = [x, y, z, v]"
    using length_4_cases by blast
  with sl put_get_le32 [of x y z v w] show ?thesis by simp
qed

lemma option_eqI: "(\<And>x. a = Some x \<longleftrightarrow> b = Some x) \<Longrightarrow> a = b"
  by (cases a; cases b) auto

section \<open>Invariants of state passing operations\<close>

text \<open>
  The components with state (the unit registry, the bridge hub, the dedup filter, the watch loop)
  share one contract: an initial state satisfies an invariant and every operation keeps it. Then
  every state reached by any sequence of operations satisfies it.
\<close>

locale invariant_machine =
  fixes init :: 's
    and step :: "'s \<Rightarrow> 'e \<Rightarrow> 's"
    and inv :: "'s \<Rightarrow> bool"
  assumes init_inv: "inv init"
    and step_inv: "inv s \<Longrightarrow> inv (step s e)"
begin

lemma run_inv: "inv s \<Longrightarrow> inv (foldl step s es)"
  by (induction es arbitrary: s) (simp_all add: step_inv)

lemma reachable_inv: "inv (foldl step init es)"
  by (rule run_inv [OF init_inv])

text \<open>A fact every operation keeps under the invariant survives any run.\<close>

lemma run_stable:
  assumes "\<And>s e. inv s \<Longrightarrow> P s \<Longrightarrow> e \<in> set es \<Longrightarrow> P (step s e)" and "inv s" and "P s"
  shows "P (foldl step s es)"
  using assms by (induction es arbitrary: s) (simp_all add: step_inv)

end

end
