(* ===== verification/GoText.thy ===== *)
theory GoText
  imports Prelude
begin

text \<open>
  What the program uses of Go's text packages: \<open>strings\<close> (\<open>TrimSpace\<close>, \<open>Fields\<close>, \<open>Split\<close>, \<open>Join\<close>,
  \<open>Trim\<close>, \<open>Contains\<close>, \<open>IndexByte\<close>), \<open>strconv\<close> (\<open>ParseUint\<close>, \<open>ParseInt\<close>) and
  \<open>encoding/base64\<close> (\<open>StdEncoding\<close>). A string is its bytes, so Unicode white space is the list
  of the byte sequences that encode it: none of them begins inside another rune, so scanning bytes
  finds the same white space as scanning runes.
\<close>

section \<open>White space\<close>

definition ascii_space :: "nat \<Rightarrow> bool" where
  "ascii_space n \<longleftrightarrow> n \<in> set [9, 10, 11, 12, 13, 32]"

text \<open>The UTF-8 encodings of U+0085, U+00A0, U+1680, U+2000 to U+200A, U+2028, U+2029, U+202F,
  U+205F and U+3000.\<close>

definition wide_space :: "nat list \<Rightarrow> bool" where
  "wide_space ns \<longleftrightarrow> ns \<in> set
     ([[0xC2, 0x85], [0xC2, 0xA0], [0xE1, 0x9A, 0x80], [0xE2, 0x80, 0xA8], [0xE2, 0x80, 0xA9],
       [0xE2, 0x80, 0xAF], [0xE2, 0x81, 0x9F], [0xE3, 0x80, 0x80]]
      @ map (\<lambda>i. [0xE2, 0x80, 0x80 + i]) [0, 1, 2, 3, 4, 5, 6, 7, 8, 9, 10])"

definition codes :: "string \<Rightarrow> nat list" where
  "codes s = map of_char s"

text \<open>The length of the white space rune a string starts with, zero when it does not.\<close>

definition space_prefix :: "string \<Rightarrow> nat" where
  "space_prefix s =
     (if s \<noteq> [] \<and> ascii_space (of_char (hd s)) then 1
      else if wide_space (codes (take 2 s)) then 2
      else if wide_space (codes (take 3 s)) then 3 else 0)"

definition space_suffix :: "string \<Rightarrow> nat" where
  "space_suffix s =
     (if s \<noteq> [] \<and> ascii_space (of_char (last s)) then 1
      else if wide_space (codes (drop (length s - 2) s)) then 2
      else if wide_space (codes (drop (length s - 3) s)) then 3 else 0)"

lemma wide_space_nil [simp]: "\<not> wide_space []"
  by (simp add: wide_space_def)

lemma space_prefix_nil [simp]: "space_prefix [] = 0"
  by (simp add: space_prefix_def codes_def)

lemma space_suffix_nil [simp]: "space_suffix [] = 0"
  by (simp add: space_suffix_def codes_def)

lemma space_prefix_pos: "0 < space_prefix s \<Longrightarrow> s \<noteq> []"
  by (cases s) simp_all

lemma space_suffix_pos: "0 < space_suffix s \<Longrightarrow> s \<noteq> []"
  by (cases s) simp_all

function trim_left :: "string \<Rightarrow> string" where
  "trim_left s = (if space_prefix s = 0 then s else trim_left (drop (space_prefix s) s))"
  by auto
termination
  by (relation "measure length") (auto intro!: diff_less dest: space_prefix_pos)

function trim_right :: "string \<Rightarrow> string" where
  "trim_right s = (if space_suffix s = 0 then s else trim_right (take (length s - space_suffix s) s))"
  by auto
termination
  by (relation "measure length") (auto intro!: diff_less dest: space_suffix_pos)

declare trim_left.simps [simp del] trim_right.simps [simp del]

definition TrimSpace :: "string \<Rightarrow> string" where
  "TrimSpace s = trim_right (trim_left s)"

text \<open>\<open>strings.Fields\<close>: the maximal runs without white space.\<close>

function fields_from :: "string \<Rightarrow> string \<Rightarrow> string list" where
  "fields_from word s =
     (case s of
        [] \<Rightarrow> (if word = [] then [] else [word])
      | c # cs \<Rightarrow>
          (if space_prefix s = 0 then fields_from (word @ [c]) cs
           else (if word = [] then [] else [word]) @ fields_from [] (drop (space_prefix s) s)))"
  by auto
termination
  by (relation "measure (length \<circ> snd)") auto

declare fields_from.simps [simp del]

definition Fields :: "string \<Rightarrow> string list" where
  "Fields s = fields_from [] s"

section \<open>Splitting and searching\<close>

text \<open>\<open>strings.Split\<close> at a one byte separator.\<close>

fun Split :: "char \<Rightarrow> string \<Rightarrow> string list" where
  "Split sep [] = [[]]"
| "Split sep (c # cs) =
     (if c = sep then [] # Split sep cs
      else (case Split sep cs of [] \<Rightarrow> [[c]] | w # ws \<Rightarrow> (c # w) # ws))"

fun Join :: "string \<Rightarrow> string list \<Rightarrow> string" where
  "Join sep [] = []"
| "Join sep [w] = w"
| "Join sep (w # v # ws) = w @ sep @ Join sep (v # ws)"

text \<open>\<open>strings.Trim\<close> with a cutset of ASCII characters.\<close>

definition Trim :: "string \<Rightarrow> string \<Rightarrow> string" where
  "Trim s cutset = rev (dropWhile (\<lambda>c. c \<in> set cutset) (rev (dropWhile (\<lambda>c. c \<in> set cutset) s)))"

fun HasPrefix :: "string \<Rightarrow> string \<Rightarrow> bool" where
  "HasPrefix s [] = True"
| "HasPrefix [] (p # ps) = False"
| "HasPrefix (c # cs) (p # ps) = (c = p \<and> HasPrefix cs ps)"

fun Contains :: "string \<Rightarrow> string \<Rightarrow> bool" where
  "Contains s sub = (HasPrefix s sub \<or> (case s of [] \<Rightarrow> False | c # cs \<Rightarrow> Contains cs sub))"

fun IndexByte :: "string \<Rightarrow> char \<Rightarrow> nat option" where
  "IndexByte [] c = None"
| "IndexByte (x # xs) c = (if x = c then Some 0 else map_option Suc (IndexByte xs c))"

text \<open>\<open>strings.LastIndexByte\<close>.\<close>

fun LastIndexByte :: "string \<Rightarrow> char \<Rightarrow> nat option" where
  "LastIndexByte [] c = None"
| "LastIndexByte (x # xs) c =
     (case LastIndexByte xs c of
        Some i \<Rightarrow> Some (Suc i)
      | None \<Rightarrow> if x = c then Some 0 else None)"

lemma LastIndexByte_less: "LastIndexByte s c = Some i \<Longrightarrow> i < length s"
  by (induction s arbitrary: i) (auto split: option.splits if_splits)

text \<open>Decimal digits, as \<open>%d\<close> prints an unsigned number.\<close>

fun Itoa :: "nat \<Rightarrow> string" where
  "Itoa n = (if n < 10 then [char_of (48 + n)] else Itoa (n div 10) @ [char_of (48 + n mod 10)])"

declare Itoa.simps [simp del]

section \<open>Lemmas\<close>

lemma Split_not_nil [simp]: "Split sep s \<noteq> []"
  by (induction s) (auto split: list.splits)

lemma Split_append_sep: "sep \<notin> set a \<Longrightarrow> Split sep (a @ sep # b) = a # Split sep b"
  by (induction a) auto

lemma Split_single: "sep \<notin> set a \<Longrightarrow> Split sep a = [a]"
  by (induction a) auto

lemma Join_Split: "Join [sep] (Split sep s) = s"
proof (induction s)
  case (Cons c cs)
  then show ?case by (cases "Split sep cs"; cases "tl (Split sep cs)") auto
qed simp

lemma Split_Join:
  "ws \<noteq> [] \<Longrightarrow> list_all (\<lambda>w. sep \<notin> set w) ws \<Longrightarrow> Split sep (Join [sep] ws) = ws"
proof (induction ws rule: induct_list012)
  case (3 w v ws)
  then show ?case by (simp add: Split_append_sep)
qed (simp_all add: Split_single)

lemma HasPrefix_iff: "HasPrefix s p \<longleftrightarrow> take (length p) s = p"
  by (induction s p rule: HasPrefix.induct) auto

lemma Contains_iff: "Contains s sub \<longleftrightarrow> (\<exists>a b. s = a @ sub @ b)"
proof (induction s)
  case Nil
  then show ?case by (cases sub) auto
next
  case (Cons c cs)
  have "HasPrefix (c # cs) sub \<longleftrightarrow> (\<exists>b. c # cs = sub @ b)"
    by (metis HasPrefix_iff append_eq_conv_conj append_take_drop_id)
  with Cons show ?case
    by (auto simp: Cons_eq_append_conv)
qed

declare Contains.simps [simp del]

text \<open>Printable ASCII text without blanks is left alone by \<open>TrimSpace\<close> and is one field.\<close>

definition plain_char :: "char \<Rightarrow> bool" where
  "plain_char c \<longleftrightarrow> 33 \<le> (of_char c :: nat) \<and> (of_char c :: nat) < 127"

lemma wide_space_high: "wide_space ns \<Longrightarrow> \<exists>h t. ns = h # t \<and> 127 < h \<and> 127 < last ns"
  by (auto simp: wide_space_def)

lemma space_prefix_plain: "s \<noteq> [] \<Longrightarrow> plain_char (hd s) \<Longrightarrow> space_prefix s = 0"
  using wide_space_high [of "codes (take 2 s)"] wide_space_high [of "codes (take 3 s)"]
  by (cases s) (auto simp: space_prefix_def plain_char_def ascii_space_def codes_def)

lemma wide_space_drop: "wide_space (codes (drop k s)) \<Longrightarrow> 127 < (of_char (last s) :: nat)"
proof -
  assume w: "wide_space (codes (drop k s))"
  then have "drop k s \<noteq> []" by (auto simp: codes_def)
  then have "last (codes (drop k s)) = of_char (last s)"
    by (simp add: codes_def last_map last_drop)
  with wide_space_high [OF w] show ?thesis by auto
qed

lemma space_suffix_plain: "s \<noteq> [] \<Longrightarrow> plain_char (last s) \<Longrightarrow> space_suffix s = 0"
  using wide_space_drop [of "length s - 2" s] wide_space_drop [of "length s - 3" s]
  by (auto simp: space_suffix_def plain_char_def ascii_space_def)

lemma TrimSpace_plain: "list_all plain_char s \<Longrightarrow> TrimSpace s = s"
proof (cases "s = []")
  case True
  then show ?thesis by (simp add: TrimSpace_def trim_left.simps trim_right.simps)
next
  case False
  assume "list_all plain_char s"
  with False have "plain_char (hd s)" "plain_char (last s)" by (simp_all add: list_all_iff)
  with False show ?thesis
    by (simp add: TrimSpace_def trim_left.simps [of s] trim_right.simps [of s]
        space_prefix_plain space_suffix_plain)
qed

section \<open>Base64\<close>

text \<open>
  \<open>base64.StdEncoding\<close>. The decoder skips carriage returns and newlines anywhere, wants the padding
  at the end of a four character group with nothing after it, and (not being strict) ignores the
  bits a padded group leaves over.
\<close>

definition b64_alphabet :: string where
  "b64_alphabet = ''ABCDEFGHIJKLMNOPQRSTUVWXYZabcdefghijklmnopqrstuvwxyz0123456789+/''"

definition b64_char :: "nat \<Rightarrow> char" where
  "b64_char n = b64_alphabet ! (n mod 64)"

definition b64_value :: "char \<Rightarrow> nat option" where
  "b64_value c = IndexByte b64_alphabet c"

definition byte_of :: "nat \<Rightarrow> byte" where
  "byte_of n = word_of_nat n"

fun EncodeToString :: "byte list \<Rightarrow> string" where
  "EncodeToString [] = []"
| "EncodeToString [a] = (let n = unat a * 16 in [b64_char (n div 64), b64_char n, CHR ''='', CHR ''=''])"
| "EncodeToString [a, b] = (let n = (unat a * 256 + unat b) * 4
     in [b64_char (n div 4096), b64_char (n div 64), b64_char n, CHR ''=''])"
| "EncodeToString (a # b # c # rest) = (let n = unat a * 65536 + unat b * 256 + unat c
     in [b64_char (n div 262144), b64_char (n div 4096), b64_char (n div 64), b64_char n] @ EncodeToString rest)"

fun b64_groups :: "string \<Rightarrow> byte list option" where
  "b64_groups [] = Some []"
| "b64_groups (a # b # c # d # rest) =
     do {
       va \<leftarrow> b64_value a;
       vb \<leftarrow> b64_value b;
       if c = CHR ''='' then
         (if d = CHR ''='' \<and> rest = [] then Some [byte_of ((va * 64 + vb) div 16)] else None)
       else do {
         vc \<leftarrow> b64_value c;
         if d = CHR ''='' then
           (if rest = [] then
              let n = (va * 4096 + vb * 64 + vc) div 4 in Some [byte_of (n div 256), byte_of n]
            else None)
         else do {
           vd \<leftarrow> b64_value d;
           more \<leftarrow> b64_groups rest;
           let n = va * 262144 + vb * 4096 + vc * 64 + vd
           in Some ([byte_of (n div 65536), byte_of (n div 256), byte_of n] @ more)
         }
       }
     }"
| "b64_groups s = None"

definition DecodeString :: "string \<Rightarrow> byte list option" where
  "DecodeString s = b64_groups (filter (\<lambda>c. of_char c \<noteq> (10 :: nat) \<and> of_char c \<noteq> (13 :: nat)) s)"

definition b64_text :: "char \<Rightarrow> bool" where
  "b64_text c \<longleftrightarrow> c \<in> set b64_alphabet \<or> c = CHR ''=''"

lemma IndexByte_nth: "distinct xs \<Longrightarrow> k < length xs \<Longrightarrow> IndexByte xs (xs ! k) = Some k"
proof (induction xs arbitrary: k)
  case (Cons x xs)
  then show ?case by (cases k) auto
qed simp

lemma distinct_b64_alphabet: "distinct b64_alphabet"
  by code_simp

lemma length_b64_alphabet [simp]: "length b64_alphabet = 64"
  by (simp add: b64_alphabet_def)

lemma b64_value_char [simp]: "b64_value (b64_char n) = Some (n mod 64)"
  by (simp add: b64_value_def b64_char_def IndexByte_nth distinct_b64_alphabet)

lemma b64_char_text [simp]: "b64_text (b64_char n)"
  by (simp add: b64_text_def b64_char_def)

lemma b64_text_plain: "b64_text c \<Longrightarrow> plain_char c"
proof -
  have "list_all plain_char (CHR ''='' # b64_alphabet)" by (simp add: b64_alphabet_def plain_char_def)
  then show "b64_text c \<Longrightarrow> plain_char c" by (auto simp: b64_text_def list_all_iff)
qed

lemma b64_char_not_pad [simp]: "b64_char n \<noteq> CHR ''=''"
proof
  assume "b64_char n = CHR ''=''"
  then have "CHR ''='' \<in> set b64_alphabet" by (simp add: b64_char_def flip: in_set_conv_nth) (metis length_b64_alphabet mod_less_divisor nth_mem zero_less_numeral)
  then show False by (simp add: b64_alphabet_def)
qed

lemma EncodeToString_text: "list_all b64_text (EncodeToString b)"
  by (induction b rule: EncodeToString.induct) (simp_all add: Let_def b64_text_def [of "CHR ''=''"])

lemma EncodeToString_plain: "list_all plain_char (EncodeToString b)"
  using EncodeToString_text [of b] by (auto simp: list_all_iff intro: b64_text_plain)

lemma byte_of_unat [simp]: "byte_of (unat b) = b"
  by (simp add: byte_of_def)

lemma byte_of_mod: "byte_of (n mod 256) = byte_of n"
  by (simp add: byte_of_def word_of_nat_eq_iff take_bit_eq_mod)

lemma byte_less [simp]: "unat (b :: byte) < 256"
  using unsigned_less [of b] by simp

lemma byte_le: "unat (b :: byte) \<le> 255"
  using byte_less [of b] by linarith

lemma be_octets_3:
  fixes a b c :: nat
  assumes "a < 256" and "b < 256" and "c < 256"
  shows "(a * 65536 + b * 256 + c) div 65536 = a" and "(a * 65536 + b * 256 + c) div 256 mod 256 = b"
    and "(a * 65536 + b * 256 + c) mod 256 = c"
proof -
  have n: "a * 65536 + b * 256 + c = (a * 256 + b) * 256 + c" by simp
  have d: "((a * 256 + b) * 256 + c) div 256 = a * 256 + b" using assms by simp
  then have "(a * 65536 + b * 256 + c) div 256 div 256 = a" unfolding n using assms by simp
  then show "(a * 65536 + b * 256 + c) div 65536 = a" by (simp add: div_mult2_eq [symmetric])
  show "(a * 65536 + b * 256 + c) div 256 mod 256 = b" unfolding n d using assms by simp
  show "(a * 65536 + b * 256 + c) mod 256 = c"
    unfolding n using assms mod_mult_self3 [of "a * 256 + b" 256 c] by simp
qed

lemma byte_of_eq: "n mod 256 = unat b \<Longrightarrow> byte_of n = b"
  by (metis byte_of_mod byte_of_unat)

lemma sextets_2: "n div 64 * 64 + n mod 64 = (n :: nat)"
  by (rule div_mult_mod_eq)

lemma sextets_3: "n div 4096 * 4096 + n div 64 mod 64 * 64 + n mod 64 = (n :: nat)"
proof -
  have "n div 4096 = n div 64 div 64" using div_mult2_eq [of n 64 64] by simp
  with sextets_2 [of n] sextets_2 [of "n div 64"] show ?thesis by linarith
qed

lemma sextets_4:
  "n div 262144 * 262144 + n div 4096 mod 64 * 4096 + n div 64 mod 64 * 64 + n mod 64 = (n :: nat)"
proof -
  have d: "n div 262144 = n div 64 div 4096" "n div 4096 = n div 64 div 64"
    using div_mult2_eq [of n 64 4096] div_mult2_eq [of n 64 64] by simp_all
  from sextets_2 [of n] sextets_3 [of "n div 64"] show ?thesis unfolding d by linarith
qed

lemma b64_group_1: "n < 4096 \<Longrightarrow>
    b64_groups [b64_char (n div 64), b64_char n, CHR ''='', CHR ''=''] = Some [byte_of (n div 16)]"
  by (simp add: sextets_2)

lemma b64_group_2: "n < 262144 \<Longrightarrow>
    b64_groups [b64_char (n div 4096), b64_char (n div 64), b64_char n, CHR ''='']
      = Some [byte_of (n div 4 div 256), byte_of (n div 4)]"
  by (simp add: Let_def sextets_3)

lemma b64_group_3: "n < 16777216 \<Longrightarrow> b64_groups rest = Some more \<Longrightarrow>
    b64_groups ([b64_char (n div 262144), b64_char (n div 4096), b64_char (n div 64), b64_char n] @ rest)
      = Some ([byte_of (n div 65536), byte_of (n div 256), byte_of n] @ more)"
  by (simp add: Let_def sextets_4)

lemma b64_groups_Encode: "b64_groups (EncodeToString b) = Some b"
proof (induction b rule: EncodeToString.induct)
  case (2 a)
  have "unat a * 16 < 4096" using byte_less [of a] by simp
  from b64_group_1 [OF this] show ?case
    by (simp only: EncodeToString.simps Let_def) (simp add: byte_of_eq)
next
  case (3 a b)
  let ?n = "(unat a * 256 + unat b) * 4"
  have "?n < 262144" using byte_le [of a] byte_le [of b] by simp
  moreover have "byte_of (?n div 4 div 256) = a" "byte_of (?n div 4) = b"
    using byte_less [of a] byte_less [of b] by (auto intro!: byte_of_eq)
  ultimately show ?case
    by (simp only: EncodeToString.simps Let_def b64_group_2)
next
  case (4 a b c rest)
  let ?n = "unat a * 65536 + unat b * 256 + unat c"
  have "?n < 16777216" using byte_le [of a] byte_le [of b] byte_le [of c] by simp
  moreover have "byte_of (?n div 65536) = a" "byte_of (?n div 256) = b" "byte_of ?n = c"
    using be_octets_3 [OF byte_less byte_less byte_less, of a b c] by (auto intro!: byte_of_eq)
  ultimately show ?case using b64_group_3 [OF _ 4(1) [OF refl]]
    by (simp only: EncodeToString.simps Let_def) simp
qed simp

lemma plain_not_newline: "plain_char c \<Longrightarrow> of_char c \<noteq> (10 :: nat) \<and> of_char c \<noteq> (13 :: nat)"
  by (auto simp: plain_char_def)

lemma DecodeString_Encode [simp]: "DecodeString (EncodeToString b) = Some b"
proof -
  have "filter (\<lambda>c. of_char c \<noteq> (10 :: nat) \<and> of_char c \<noteq> (13 :: nat)) (EncodeToString b) = EncodeToString b"
    using EncodeToString_plain [of b] plain_not_newline by (simp add: filter_id_conv list_all_iff)
  then show ?thesis by (simp add: DecodeString_def b64_groups_Encode)
qed

end
