(* ===== verification/Sha256.thy ===== *)
theory Sha256
  imports Prelude
begin

text \<open>
  \<open>crypto/sha256\<close> of the Go standard library (FIPS 180-4), the digest behind every btag and
  reader tag. The 32-bit words of the compression function are kept as integers in \<open>[0, 2^32)\<close>
  with the wrap-around of the additions written out, so the simplifier evaluates a digest in the
  kernel; the message and the digest are byte lists. Nothing of \<open>src/\<close> is defined here. The
  theory exists so that the tags of \<open>Tags\<close> are the real ones and the golden values pinned by
  the test suite can be reproduced as theorems.
\<close>

section \<open>The compression function\<close>

definition sha_add :: "int \<Rightarrow> int \<Rightarrow> int" where
  "sha_add x y = (x + y) mod 4294967296"

definition sha_rotr :: "nat \<Rightarrow> int \<Rightarrow> int" where
  "sha_rotr n x = drop_bit n x OR push_bit (32 - n) (take_bit n x)"

definition sha_ch :: "int \<Rightarrow> int \<Rightarrow> int \<Rightarrow> int" where
  "sha_ch x y z = (x AND y) XOR (NOT x AND z)"

definition sha_maj :: "int \<Rightarrow> int \<Rightarrow> int \<Rightarrow> int" where
  "sha_maj x y z = (x AND y) XOR (x AND z) XOR (y AND z)"

definition sha_Sigma0 :: "int \<Rightarrow> int" where
  "sha_Sigma0 x = sha_rotr 2 x XOR sha_rotr 13 x XOR sha_rotr 22 x"

definition sha_Sigma1 :: "int \<Rightarrow> int" where
  "sha_Sigma1 x = sha_rotr 6 x XOR sha_rotr 11 x XOR sha_rotr 25 x"

definition sha_sigma0 :: "int \<Rightarrow> int" where
  "sha_sigma0 x = sha_rotr 7 x XOR sha_rotr 18 x XOR drop_bit 3 x"

definition sha_sigma1 :: "int \<Rightarrow> int" where
  "sha_sigma1 x = sha_rotr 17 x XOR sha_rotr 19 x XOR drop_bit 10 x"

text \<open>The round constants and the initial state, as decimal numbers.\<close>

definition sha_K :: "int list" where
  "sha_K = [
     1116352408, 1899447441, 3049323471, 3921009573, 961987163, 1508970993, 2453635748, 2870763221,
     3624381080, 310598401, 607225278, 1426881987, 1925078388, 2162078206, 2614888103, 3248222580,
     3835390401, 4022224774, 264347078, 604807628, 770255983, 1249150122, 1555081692, 1996064986,
     2554220882, 2821834349, 2952996808, 3210313671, 3336571891, 3584528711, 113926993, 338241895,
     666307205, 773529912, 1294757372, 1396182291, 1695183700, 1986661051, 2177026350, 2456956037,
     2730485921, 2820302411, 3259730800, 3345764771, 3516065817, 3600352804, 4094571909, 275423344,
     430227734, 506948616, 659060556, 883997877, 958139571, 1322822218, 1537002063, 1747873779,
     1955562222, 2024104815, 2227730452, 2361852424, 2428436474, 2756734187, 3204031479, 3329325298]"

type_synonym sha_state = "int \<times> int \<times> int \<times> int \<times> int \<times> int \<times> int \<times> int"

definition sha_init :: sha_state where
  "sha_init = (1779033703, 3144134277, 1013904242, 2773480762,
               1359893119, 2600822924, 528734635, 1541459225)"

fun sha_mix :: "int \<Rightarrow> int \<Rightarrow> sha_state \<Rightarrow> sha_state" where
  "sha_mix t1 t2 (a, b, c, d, e, f, g, h) = (sha_add t1 t2, a, b, c, sha_add d t1, e, f, g)"

fun sha_round :: "int \<Rightarrow> int \<Rightarrow> sha_state \<Rightarrow> sha_state" where
  "sha_round k w (a, b, c, d, e, f, g, h) =
     sha_mix (sha_add (h + sha_Sigma1 e + sha_ch e f g + k) w) (sha_Sigma0 a + sha_maj a b c)
       (a, b, c, d, e, f, g, h)"

text \<open>The message schedule is a window of sixteen words that rolls one word per round.\<close>

definition sha_next :: "int list \<Rightarrow> int" where
  "sha_next ws = sha_add (sha_sigma1 (ws ! 14) + ws ! 9 + sha_sigma0 (ws ! 1)) (ws ! 0)"

primrec sha_rounds :: "int list \<Rightarrow> int list \<Rightarrow> sha_state \<Rightarrow> sha_state" where
  "sha_rounds [] ws st = st"
| "sha_rounds (k # ks) ws st = sha_rounds ks (tl ws @ [sha_next ws]) (sha_round k (hd ws) st)"

fun sha_add_state :: "sha_state \<Rightarrow> sha_state \<Rightarrow> sha_state" where
  "sha_add_state (a, b, c, d, e, f, g, h) (a', b', c', d', e', f', g', h') =
     (sha_add a a', sha_add b b', sha_add c c', sha_add d d',
      sha_add e e', sha_add f f', sha_add g g', sha_add h h')"

definition sha_compress :: "int list \<Rightarrow> sha_state \<Rightarrow> sha_state" where
  "sha_compress ws st = sha_add_state (sha_rounds sha_K ws st) st"

section \<open>Padding, blocks, digest\<close>

definition sha_pad :: "byte list \<Rightarrow> byte list" where
  "sha_pad m = m @ [0x80] @ replicate (nat ((55 - int (length m)) mod 64)) 0
     @ put_be32 (word_of_nat (8 * length m div 2 ^ 32)) @ put_be32 (word_of_nat (8 * length m))"

fun sha_words :: "byte list \<Rightarrow> int list" where
  "sha_words (a # b # c # d # bs) =
     (uint a * 16777216 + uint b * 65536 + uint c * 256 + uint d) # sha_words bs"
| "sha_words _ = []"

fun sha_blocks :: "int list \<Rightarrow> sha_state \<Rightarrow> sha_state" where
  "sha_blocks ws st =
     (if ws = [] then st else sha_blocks (drop 16 ws) (sha_compress (take 16 ws) st))"

declare sha_blocks.simps [simp del]

definition sha_bytes :: "int \<Rightarrow> byte list" where
  "sha_bytes x = [word_of_int (take_bit 8 (drop_bit 24 x)), word_of_int (take_bit 8 (drop_bit 16 x)),
                  word_of_int (take_bit 8 (drop_bit 8 x)), word_of_int (take_bit 8 x)]"

fun sha_digest :: "sha_state \<Rightarrow> byte list" where
  "sha_digest (a, b, c, d, e, f, g, h) =
     sha_bytes a @ sha_bytes b @ sha_bytes c @ sha_bytes d
     @ sha_bytes e @ sha_bytes f @ sha_bytes g @ sha_bytes h"

definition sha256 :: "byte list \<Rightarrow> byte list" where
  "sha256 m = sha_digest (sha_blocks (sha_words (sha_pad m)) sha_init)"

lemma length_sha_bytes [simp]: "length (sha_bytes x) = 4"
  by (simp add: sha_bytes_def)

lemma length_sha_digest [simp]: "length (sha_digest st) = 32"
  by (cases st rule: sha_digest.cases) simp

lemma length_sha256 [simp]: "length (sha256 m) = 32"
  by (simp add: sha256_def)

text \<open>The padded message is a whole number of 64 byte blocks.\<close>

lemma length_sha_pad: "64 dvd length (sha_pad m)"
proof -
  let ?n = "int (length m)"
  have "int (length (sha_pad m)) = ?n + 9 + (55 - ?n) mod 64"
    by (simp add: sha_pad_def)
  moreover have "(?n + 9 + (55 - ?n) mod 64) mod 64 = 0"
    by (simp add: mod_simps)
  ultimately have "int (length (sha_pad m)) mod int 64 = 0" by simp
  then show ?thesis by (simp only: of_nat_mod [symmetric] of_nat_eq_0_iff dvd_eq_mod_eq_0)
qed

lemma replicate_numeral_Cons: "replicate (numeral k) x = x # replicate (pred_numeral k) x"
  by (simp add: numeral_eq_Suc)

text \<open>The evaluation rules: padding first, then the rounds, then the digest bytes.\<close>

lemmas sha_pad_eval = sha_pad_def bytes_of_def byte_of_char_def of_char_def put_be32_def
  put_le32_def replicate_numeral_Cons

lemmas sha_eval = sha_blocks.simps sha_init_def sha_compress_def sha_K_def sha_add_def sha_rotr_def sha_ch_def sha_maj_def sha_Sigma0_def sha_Sigma1_def
  sha_sigma0_def sha_sigma1_def sha_next_def

end
