(* ===== verification/Wire.thy ===== *)
theory Wire
  imports Prelude
begin

text \<open>
  The wire encoding of the pcscd protocol (\<open>pcsc/wire.go\<close>) and the SCARD constants
  (\<open>pcsc/const.go\<close>). Every message struct is a record, every \<open>encode\<close>/\<open>decode\<close> pair a pair of
  functions over byte lists; a decoder returns \<open>None\<close> where the Go code would index out of its
  buffer and panic. The lemmas give the exact size of every struct, the layout of the two
  structs with an embedded buffer, the round trips, and the panic freedom of every decoder on a
  buffer of the size the client reads.
\<close>

section \<open>Constants\<close>

definition protocolVersionMajor :: u32 where "protocolVersionMajor = 4"
definition protocolVersionMinor :: u32 where "protocolVersionMinor = 4"
definition protocolVersionMinorBackward :: u32 where "protocolVersionMinorBackward = 2"

definition cmdEstablishContext :: u32 where "cmdEstablishContext = 0x01"
definition cmdReleaseContext :: u32 where "cmdReleaseContext = 0x02"
definition cmdConnect :: u32 where "cmdConnect = 0x04"
definition cmdDisconnect :: u32 where "cmdDisconnect = 0x06"
definition cmdTransmit :: u32 where "cmdTransmit = 0x09"
definition cmdGetAttrib :: u32 where "cmdGetAttrib = 0x0F"
definition cmdVersion :: u32 where "cmdVersion = 0x11"
definition cmdGetReadersState :: u32 where "cmdGetReadersState = 0x12"
definition cmdWaitReaderStateChange :: u32 where "cmdWaitReaderStateChange = 0x13"
definition cmdStopWaitingReaderStateChange :: u32 where "cmdStopWaitingReaderStateChange = 0x14"

lemmas cmd_defs = cmdEstablishContext_def cmdReleaseContext_def cmdConnect_def cmdDisconnect_def
  cmdTransmit_def cmdGetAttrib_def cmdVersion_def cmdGetReadersState_def
  cmdWaitReaderStateChange_def cmdStopWaitingReaderStateChange_def

definition maxReaderName :: nat where "maxReaderName = 128"
definition maxReaders :: nat where "maxReaders = 16"
definition readerStateWireSz :: nat where "readerStateWireSz = 184"
definition maxAttrSize :: nat where "maxAttrSize = 264"
definition maxATRSize :: nat where "maxATRSize = 33"
definition maxBufferSize :: nat where "maxBufferSize = 264"

definition ScopeUser :: u32 where "ScopeUser = 0x0000"
definition ShareShared :: u32 where "ShareShared = 0x0002"
definition ProtocolT0 :: u32 where "ProtocolT0 = 0x0001"
definition ProtocolT1 :: u32 where "ProtocolT1 = 0x0002"
definition ProtocolRaw :: u32 where "ProtocolRaw = 0x0004"
definition ProtocolAny :: u32 where "ProtocolAny = ProtocolT0 OR ProtocolT1"
definition LeaveCard :: u32 where "LeaveCard = 0x0000"
definition ResetCard :: u32 where "ResetCard = 0x0001"
definition AttrVendorIFDSerialNo :: u32 where "AttrVendorIFDSerialNo = 0x0103"
definition AttrChannelID :: u32 where "AttrChannelID = 0x0110"
definition ReaderPresent :: u32 where "ReaderPresent = 0x0004"

definition errCancelled :: u32 where "errCancelled = 0x80100002"
definition errInvalidHandle :: u32 where "errInvalidHandle = 0x80100003"
definition errUnknownReader :: u32 where "errUnknownReader = 0x80100009"
definition errTimeout :: u32 where "errTimeout = 0x8010000A"
definition errSharingViolation :: u32 where "errSharingViolation = 0x8010000B"
definition errNoSmartcard :: u32 where "errNoSmartcard = 0x8010000C"
definition errProtoMismatch :: u32 where "errProtoMismatch = 0x8010000F"
definition errReaderUnavailable :: u32 where "errReaderUnavailable = 0x80100017"
definition errNoService :: u32 where "errNoService = 0x8010001D"
definition errServiceStopped :: u32 where "errServiceStopped = 0x8010001E"
definition errUnsupportedFeat :: u32 where "errUnsupportedFeat = 0x8010001F"
definition errNoReaders :: u32 where "errNoReaders = 0x8010002E"
definition errCommDataLost :: u32 where "errCommDataLost = 0x8010002F"
definition errResetCard :: u32 where "errResetCard = 0x80100068"
definition errRemovedCard :: u32 where "errRemovedCard = 0x80100069"

lemmas err_defs = errCancelled_def errInvalidHandle_def errUnknownReader_def errTimeout_def
  errSharingViolation_def errNoSmartcard_def errProtoMismatch_def errReaderUnavailable_def
  errNoService_def errServiceStopped_def errUnsupportedFeat_def errNoReaders_def
  errCommDataLost_def errResetCard_def errRemovedCard_def

definition errorNames :: "u32 \<rightharpoonup> string" where
  "errorNames = map_of [
     (errCancelled, ''SCARD_E_CANCELLED''),
     (errInvalidHandle, ''SCARD_E_INVALID_HANDLE''),
     (errUnknownReader, ''SCARD_E_UNKNOWN_READER''),
     (errTimeout, ''SCARD_E_TIMEOUT''),
     (errSharingViolation, ''SCARD_E_SHARING_VIOLATION''),
     (errNoSmartcard, ''SCARD_E_NO_SMARTCARD''),
     (errProtoMismatch, ''SCARD_E_PROTO_MISMATCH''),
     (errReaderUnavailable, ''SCARD_E_READER_UNAVAILABLE''),
     (errNoService, ''SCARD_E_NO_SERVICE''),
     (errServiceStopped, ''SCARD_E_SERVICE_STOPPED''),
     (errUnsupportedFeat, ''SCARD_E_UNSUPPORTED_FEATURE''),
     (errNoReaders, ''SCARD_E_NO_READERS_AVAILABLE''),
     (errCommDataLost, ''SCARD_E_COMM_DATA_LOST''),
     (errResetCard, ''SCARD_W_RESET_CARD''),
     (errRemovedCard, ''SCARD_W_REMOVED_CARD'')]"

text \<open>\<open>fmt.Sprintf("%08X")\<close>: eight upper case hexadecimal digits.\<close>

definition hex_digit :: "nat \<Rightarrow> char" where
  "hex_digit n = ''0123456789ABCDEF'' ! (n mod 16)"

definition hex8 :: "u32 \<Rightarrow> string" where
  "hex8 w = map (\<lambda>i. hex_digit (unat (drop_bit (4 * i) w))) [7, 6, 5, 4, 3, 2, 1, 0]"

definition Error_string :: "u32 \<Rightarrow> string" where
  "Error_string e = (case errorNames e of
     Some name \<Rightarrow> ''pcsc: '' @ name
   | None \<Rightarrow> ''pcsc: error 0x'' @ hex8 e)"

section \<open>Message structs\<close>

definition packLE :: "u32 list \<Rightarrow> byte list" where
  "packLE fields = concat (map put_le32 fields)"

text \<open>The frame of a request: body size, command, body. Responses carry no frame.\<close>

definition message :: "u32 \<Rightarrow> byte list \<Rightarrow> byte list" where
  "message command body = put_le32 (word_of_nat (length body)) @ put_le32 command @ body"

record version_msg =
  v_major :: u32
  v_minor :: u32
  v_rv :: u32

definition encodeVersion :: "version_msg \<Rightarrow> byte list" where
  "encodeVersion v = packLE [v_major v, v_minor v, v_rv v]"

definition decodeVersion :: "byte list \<Rightarrow> version_msg option" where
  "decodeVersion b = do {
     major \<leftarrow> le32_at 0 b; minor \<leftarrow> le32_at 4 b; rv \<leftarrow> le32_at 8 b;
     Some \<lparr>v_major = major, v_minor = minor, v_rv = rv\<rparr> }"

record establish_msg =
  e_scope :: u32
  e_context :: u32
  e_rv :: u32

definition encodeEstablish :: "establish_msg \<Rightarrow> byte list" where
  "encodeEstablish e = packLE [e_scope e, e_context e, e_rv e]"

definition decodeEstablish :: "byte list \<Rightarrow> establish_msg option" where
  "decodeEstablish b = do {
     scope \<leftarrow> le32_at 0 b; context \<leftarrow> le32_at 4 b; rv \<leftarrow> le32_at 8 b;
     Some \<lparr>e_scope = scope, e_context = context, e_rv = rv\<rparr> }"

record release_msg =
  r_context :: u32
  r_rv :: u32

definition encodeRelease :: "release_msg \<Rightarrow> byte list" where
  "encodeRelease r = packLE [r_context r, r_rv r]"

definition decodeRelease :: "byte list \<Rightarrow> release_msg option" where
  "decodeRelease b = do {
     context \<leftarrow> le32_at 0 b; rv \<leftarrow> le32_at 4 b;
     Some \<lparr>r_context = context, r_rv = rv\<rparr> }"

record connect_msg =
  c_context :: u32
  c_reader :: string
  c_shareMode :: u32
  c_preferredProtocols :: u32
  c_card :: u32
  c_activeProtocol :: u32
  c_rv :: u32

definition cString :: "byte list \<Rightarrow> string" where
  "cString b = string_of (takeWhile (\<lambda>x. x \<noteq> 0) b)"

definition encodeConnect :: "connect_msg \<Rightarrow> byte list" where
  "encodeConnect c =
     (let buf = replicate 152 0;
          buf = copy_at 0 (put_le32 (c_context c)) buf;
          buf = copy_at 4 (bytes_of (c_reader c)) buf;
          buf = copy_at 132 (put_le32 (c_shareMode c)) buf;
          buf = copy_at 136 (put_le32 (c_preferredProtocols c)) buf;
          buf = copy_at 140 (put_le32 (c_card c)) buf;
          buf = copy_at 144 (put_le32 (c_activeProtocol c)) buf
      in copy_at 148 (put_le32 (c_rv c)) buf)"

definition decodeConnect :: "byte list \<Rightarrow> connect_msg option" where
  "decodeConnect b = do {
     context \<leftarrow> le32_at 0 b;
     name \<leftarrow> go_slice 4 132 b;
     shareMode \<leftarrow> le32_at 132 b;
     preferred \<leftarrow> le32_at 136 b;
     card \<leftarrow> le32_at 140 b;
     active \<leftarrow> le32_at 144 b;
     rv \<leftarrow> le32_at 148 b;
     Some \<lparr>c_context = context, c_reader = cString name, c_shareMode = shareMode,
           c_preferredProtocols = preferred, c_card = card, c_activeProtocol = active,
           c_rv = rv\<rparr> }"

record disconnect_msg =
  d_card :: u32
  d_disposition :: u32
  d_rv :: u32

definition encodeDisconnect :: "disconnect_msg \<Rightarrow> byte list" where
  "encodeDisconnect d = packLE [d_card d, d_disposition d, d_rv d]"

definition decodeDisconnect :: "byte list \<Rightarrow> disconnect_msg option" where
  "decodeDisconnect b = do {
     card \<leftarrow> le32_at 0 b; disposition \<leftarrow> le32_at 4 b; rv \<leftarrow> le32_at 8 b;
     Some \<lparr>d_card = card, d_disposition = disposition, d_rv = rv\<rparr> }"

record transmit_msg =
  t_card :: u32
  t_sendPciProto :: u32
  t_sendPciLen :: u32
  t_sendLength :: u32
  t_recvPciProto :: u32
  t_recvPciLen :: u32
  t_recvLength :: u32
  t_rv :: u32

definition encodeTransmit :: "transmit_msg \<Rightarrow> byte list" where
  "encodeTransmit t = packLE [t_card t, t_sendPciProto t, t_sendPciLen t, t_sendLength t,
     t_recvPciProto t, t_recvPciLen t, t_recvLength t, t_rv t]"

definition decodeTransmit :: "byte list \<Rightarrow> transmit_msg option" where
  "decodeTransmit b = do {
     card \<leftarrow> le32_at 0 b; sendPciProto \<leftarrow> le32_at 4 b; sendPciLen \<leftarrow> le32_at 8 b;
     sendLength \<leftarrow> le32_at 12 b; recvPciProto \<leftarrow> le32_at 16 b; recvPciLen \<leftarrow> le32_at 20 b;
     recvLength \<leftarrow> le32_at 24 b; rv \<leftarrow> le32_at 28 b;
     Some \<lparr>t_card = card, t_sendPciProto = sendPciProto, t_sendPciLen = sendPciLen,
           t_sendLength = sendLength, t_recvPciProto = recvPciProto, t_recvPciLen = recvPciLen,
           t_recvLength = recvLength, t_rv = rv\<rparr> }"

record getset_msg =
  g_card :: u32
  g_attrID :: u32
  g_attr :: "byte list"
  g_attrLen :: u32
  g_rv :: u32

definition encodeGetset :: "getset_msg \<Rightarrow> byte list" where
  "encodeGetset g =
     (let buf = replicate (8 + maxAttrSize + 8) 0;
          buf = copy_at 0 (put_le32 (g_card g)) buf;
          buf = copy_at 4 (put_le32 (g_attrID g)) buf;
          buf = copy_at 8 (g_attr g) buf;
          buf = copy_at (8 + maxAttrSize) (put_le32 (g_attrLen g)) buf
      in copy_at (8 + maxAttrSize + 4) (put_le32 (g_rv g)) buf)"

definition decodeGetset :: "byte list \<Rightarrow> getset_msg option" where
  "decodeGetset b = do {
     card \<leftarrow> le32_at 0 b;
     attrID \<leftarrow> le32_at 4 b;
     claimed \<leftarrow> le32_at (8 + maxAttrSize) b;
     rv \<leftarrow> le32_at (8 + maxAttrSize + 4) b;
     let attrLen = (if unat claimed > maxAttrSize then 0 else claimed);
     attr \<leftarrow> go_slice 8 (8 + unat attrLen) b;
     Some \<lparr>g_card = card, g_attrID = attrID, g_attr = attr, g_attrLen = attrLen, g_rv = rv\<rparr> }"

record wait_msg =
  w_timeoutMS :: u32
  w_rv :: u32

definition encodeWait :: "wait_msg \<Rightarrow> byte list" where
  "encodeWait w = packLE [w_timeoutMS w, w_rv w]"

definition decodeWait :: "byte list \<Rightarrow> wait_msg option" where
  "decodeWait b = do {
     timeoutMS \<leftarrow> le32_at 0 b; rv \<leftarrow> le32_at 4 b;
     Some \<lparr>w_timeoutMS = timeoutMS, w_rv = rv\<rparr> }"

text \<open>One entry of the reader state array (\<open>pcsc.go\<close>, \<open>ReaderState\<close>).\<close>

record reader_state =
  rs_reader :: string
  rs_eventCounter :: u32
  rs_state :: u32
  rs_atr :: "byte list"
  rs_protocol :: u32

definition decodeReaderState :: "byte list \<Rightarrow> reader_state option" where
  "decodeReaderState buf = do {
     claimed \<leftarrow> le32_at 176 buf;
     let atrLen = (if unat claimed > maxATRSize then 0 else unat claimed);
     atr \<leftarrow> go_slice 140 (140 + atrLen) buf;
     name \<leftarrow> go_slice 0 128 buf;
     eventCounter \<leftarrow> le32_at 128 buf;
     state \<leftarrow> le32_at 132 buf;
     protocol \<leftarrow> le32_at 180 buf;
     Some \<lparr>rs_reader = cString name, rs_eventCounter = eventCounter, rs_state = state,
           rs_atr = atr, rs_protocol = protocol\<rparr> }"

section \<open>The contract of a fixed size codec\<close>

text \<open>
  The client reads every response with the size of its struct and decodes it; the daemon reads
  every request the same way. What both sides rely on is one interface: an encoding of fixed
  size whose decoder is total on buffers of that size and inverse to it in both directions.
\<close>

locale fixed_codec =
  fixes enc :: "'m \<Rightarrow> byte list"
    and dec :: "byte list \<Rightarrow> 'm option"
    and size :: nat
  assumes enc_size: "length (enc m) = size"
    and dec_enc: "dec (enc m) = Some m"
    and dec_total: "length b = size \<Longrightarrow> \<exists>m. dec b = Some m \<and> enc m = b"
begin

lemma enc_inject: "enc m = enc m' \<longleftrightarrow> m = m'"
  by (metis dec_enc option.inject)

lemma dec_prefix: "dec (take size (enc m @ rest)) = Some m"
  by (simp add: enc_size dec_enc)

lemma dec_iff_enc: "length b = size \<Longrightarrow> dec b = Some m \<longleftrightarrow> b = enc m"
  by (metis dec_enc dec_total option.inject)

lemma no_panic: "length b = size \<Longrightarrow> dec b \<noteq> None"
  using dec_total by fastforce

text \<open>A sequence of structs is decoded one by one: the boundaries never drift.\<close>

lemma dec_stream:
  "i < length ms \<Longrightarrow> dec (take size (drop (i * size) (concat (map enc ms) @ rest))) = Some (ms ! i)"
proof (induction ms arbitrary: i)
  case Nil
  then show ?case by simp
next
  case (Cons m ms)
  show ?case
  proof (cases i)
    case 0
    then show ?thesis by (simp add: enc_size dec_enc)
  next
    case (Suc j)
    with Cons show ?thesis by (simp add: enc_size)
  qed
qed

end

lemma length_packLE [simp, wire_simps]: "length (packLE fs) = 4 * length fs"
  by (induction fs) (simp_all add: packLE_def)

text \<open>A buffer of whole words is the packing of its words.\<close>

lemma packLE_Cons [wire_simps]: "packLE (f # fs) = put_le32 f @ packLE fs"
  by (simp add: packLE_def)

lemma packLE_Nil [wire_simps]: "packLE [] = []"
  by (simp add: packLE_def)

lemma packLE_surj: "length b = 4 * n \<Longrightarrow> \<exists>fs. length fs = n \<and> b = packLE fs"
proof (induction n arbitrary: b)
  case 0
  then show ?case by (simp add: packLE_def)
next
  case (Suc n)
  then have "le32_at 0 b \<noteq> None" using le32_at_in_range [of 0 b] by auto
  then obtain w where "le32_at 0 b = Some w" by blast
  then have w: "put_le32 w = take 4 b" using le32_at_Some_put [of 0 b w] by simp
  from Suc have "length (drop 4 b) = 4 * n" by simp
  with Suc.IH obtain fs where fs: "length fs = n" "drop 4 b = packLE fs" by blast
  have "b = put_le32 w @ packLE fs" using w fs append_take_drop_id [of 4 b] by simp
  with fs show ?case by (auto intro!: exI [of _ "w # fs"] simp: packLE_Cons)
qed

lemma packLE_inject: "length fs = length gs \<Longrightarrow> packLE fs = packLE gs \<Longrightarrow> fs = gs"
proof (induction fs gs rule: list_induct2)
  case Nil
  then show ?case by simp
next
  case (Cons f fs g gs)
  then have "put_le32 f = put_le32 g" "packLE fs = packLE gs" by (simp_all add: packLE_Cons)
  with Cons show ?case using get_put_le32 [of f "[]"] get_put_le32 [of g "[]"] by simp
qed

lemma packLE_2: "length b = 8 \<Longrightarrow> \<exists>x y. b = packLE [x, y]"
  using packLE_surj [of b 2] by (force simp: numeral_eq_Suc length_Suc_conv)

lemma packLE_3: "length b = 12 \<Longrightarrow> \<exists>x y z. b = packLE [x, y, z]"
  using packLE_surj [of b 3] by (force simp: numeral_eq_Suc length_Suc_conv)

lemma packLE_8: "length b = 32 \<Longrightarrow> \<exists>x y z u x' y' z' u'. b = packLE [x, y, z, u, x', y', z', u']"
  using packLE_surj [of b 8] by (force simp: numeral_eq_Suc length_Suc_conv)

text \<open>Each packed struct: its fields in order, and back.\<close>

lemmas packed_defs = encodeVersion_def decodeVersion_def encodeEstablish_def decodeEstablish_def
  encodeRelease_def decodeRelease_def encodeDisconnect_def decodeDisconnect_def
  encodeTransmit_def decodeTransmit_def encodeWait_def decodeWait_def

interpretation version_codec: fixed_codec encodeVersion decodeVersion 12
  by unfold_locales (auto simp: packed_defs wire_simps dest!: packLE_3)

interpretation establish_codec: fixed_codec encodeEstablish decodeEstablish 12
  by unfold_locales (auto simp: packed_defs wire_simps dest!: packLE_3)

interpretation release_codec: fixed_codec encodeRelease decodeRelease 8
  by unfold_locales (auto simp: packed_defs wire_simps dest!: packLE_2)

interpretation disconnect_codec: fixed_codec encodeDisconnect decodeDisconnect 12
  by unfold_locales (auto simp: packed_defs wire_simps dest!: packLE_3)

interpretation transmit_codec: fixed_codec encodeTransmit decodeTransmit 32
  by unfold_locales (auto simp: packed_defs wire_simps dest!: packLE_8)

interpretation wait_codec: fixed_codec encodeWait decodeWait 8
  by unfold_locales (auto simp: packed_defs wire_simps dest!: packLE_2)

section \<open>The structs with an embedded buffer\<close>

lemma cString_padded: "0 \<notin> set bs \<Longrightarrow> cString (bs @ replicate n 0) = string_of bs"
proof -
  assume "0 \<notin> set bs"
  then have "takeWhile (\<lambda>x. x \<noteq> 0) (bs @ replicate n 0) = bs"
    by (cases n) (auto simp: takeWhile_append takeWhile_eq_all_conv)
  then show ?thesis by (simp add: cString_def)
qed

text \<open>A C string never holds a NUL, whatever the buffer holds.\<close>

lemma cString_no_nul: "0 \<notin> set (bytes_of (cString b))"
  by (auto simp: cString_def dest: set_takeWhileD)

lemma length_cString: "length (cString b) \<le> length b"
  by (simp add: cString_def length_takeWhile_le)

lemma encodeConnect_layout:
  assumes "length (c_reader c) \<le> 128"
  shows "encodeConnect c = put_le32 (c_context c) @
    (bytes_of (c_reader c) @ replicate (128 - length (c_reader c)) 0) @
    packLE [c_shareMode c, c_preferredProtocols c, c_card c, c_activeProtocol c, c_rv c]"
proof -
  have zeros: "replicate (148 - length (c_reader c)) (0 :: byte)
      = replicate (128 - length (c_reader c)) 0 @ replicate 20 0"
    using assms by (simp add: replicate_add [symmetric])
  show ?thesis
    using assms by (simp add: encodeConnect_def Let_def wire_simps zeros)
qed

lemma length_encodeConnect: "length (c_reader c) \<le> 128 \<Longrightarrow> length (encodeConnect c) = 152"
  by (simp add: encodeConnect_layout wire_simps)

lemma decode_encode_Connect:
  assumes "length (c_reader c) \<le> 128" and "0 \<notin> set (bytes_of (c_reader c))"
  shows "decodeConnect (encodeConnect c) = Some c"
  using assms
  by (simp add: encodeConnect_layout decodeConnect_def wire_simps cString_padded)

lemma decodeConnect_total: "length b = 152 \<Longrightarrow> \<exists>c. decodeConnect b = Some c"
  using le32_at_in_range [of 0 b] le32_at_in_range [of 132 b] le32_at_in_range [of 136 b]
    le32_at_in_range [of 140 b] le32_at_in_range [of 144 b] le32_at_in_range [of 148 b]
  by (auto simp: decodeConnect_def go_slice_def)

lemma encodeGetset_layout:
  assumes "length (g_attr g) \<le> 264"
  shows "encodeGetset g = put_le32 (g_card g) @ put_le32 (g_attrID g) @
    (g_attr g @ replicate (264 - length (g_attr g)) 0) @ packLE [g_attrLen g, g_rv g]"
proof -
  have zeros: "replicate (272 - length (g_attr g)) (0 :: byte)
      = replicate (264 - length (g_attr g)) 0 @ replicate 8 0"
    using assms by (simp add: replicate_add [symmetric])
  show ?thesis
    using assms by (simp add: encodeGetset_def maxAttrSize_def Let_def wire_simps zeros)
qed

lemma length_encodeGetset: "length (g_attr g) \<le> 264 \<Longrightarrow> length (encodeGetset g) = 280"
  by (simp add: encodeGetset_layout wire_simps)

lemma decode_encode_Getset:
  assumes "length (g_attr g) \<le> 264" and "unat (g_attrLen g) = length (g_attr g)"
  shows "decodeGetset (encodeGetset g) = Some g"
  using assms
  by (simp add: encodeGetset_layout decodeGetset_def maxAttrSize_def wire_simps)

lemma decodeReaderState_total:
  assumes "184 \<le> length b"
  shows "\<exists>st. decodeReaderState b = Some st \<and> rs_reader st = cString (take 128 b) \<and>
    le32_at 132 b = Some (rs_state st) \<and> le32_at 128 b = Some (rs_eventCounter st) \<and>
    length (rs_atr st) \<le> 33 \<and> rs_atr st = take (length (rs_atr st)) (drop 140 b)"
proof -
  have at: "\<And>off. off + 4 \<le> 184 \<Longrightarrow> \<exists>w. le32_at off b = Some w"
    using assms le32_at_in_range by (meson order_trans)
  obtain n c s p where "le32_at 176 b = Some n" "le32_at 128 b = Some c"
      "le32_at 132 b = Some s" "le32_at 180 b = Some p"
    using at [of 176] at [of 128] at [of 132] at [of 180] by auto
  then show ?thesis
    using assms by (cases "unat n > 33") (auto simp: decodeReaderState_def maxATRSize_def go_slice_def)
qed

section \<open>Properties\<close>

text \<open>
  Every packed message struct survives the wire: what the daemon decodes is what the client
  encoded, for the version, establish, release, disconnect, transmit and wait structs.
\<close>

theorem packed_structs_roundtrip:
  "decodeVersion (encodeVersion v) = Some v \<and>
   decodeEstablish (encodeEstablish e) = Some e \<and>
   decodeRelease (encodeRelease r) = Some r \<and>
   decodeDisconnect (encodeDisconnect d) = Some d \<and>
   decodeTransmit (encodeTransmit t) = Some t \<and>
   decodeWait (encodeWait w) = Some w"
  by (simp add: version_codec.dec_enc establish_codec.dec_enc release_codec.dec_enc
      disconnect_codec.dec_enc transmit_codec.dec_enc wait_codec.dec_enc)

text \<open>
  The connect struct carries a reader name of up to 128 bytes without a NUL unchanged, in a
  152 byte message; a name the client's guard admits never spills into the fields behind it.
\<close>

theorem connect_roundtrip:
  assumes "length (c_reader c) < maxReaderName" and "CHR 0x00 \<notin> set (c_reader c)"
  shows "length (encodeConnect c) = 152 \<and> decodeConnect (encodeConnect c) = Some c"
proof -
  have "0 \<notin> set (bytes_of (c_reader c))"
    using assms(2) by (auto simp: bytes_of_def zero_byte_char)
  with assms(1) show ?thesis
    by (simp add: maxReaderName_def length_encodeConnect decode_encode_Connect)
qed

theorem connect_roundtrip_witness:
  "decodeConnect (encodeConnect
     \<lparr>c_context = 1, c_reader = ''ACS ACR122U 00 00'', c_shareMode = 2,
      c_preferredProtocols = 3, c_card = 0, c_activeProtocol = 0, c_rv = 0\<rparr>)
   = Some \<lparr>c_context = 1, c_reader = ''ACS ACR122U 00 00'', c_shareMode = 2,
      c_preferredProtocols = 3, c_card = 0, c_activeProtocol = 0, c_rv = 0\<rparr>"
  by (rule connect_roundtrip [THEN conjunct2]) (simp_all add: maxReaderName_def)

text \<open>
  A getset answer never leaks a byte beyond its fixed buffer: whatever 280 bytes the daemon
  sends, the decoder does not panic, the attribute is the announced number of bytes of the
  buffer, at most 264, and an announcement beyond the buffer is read as the empty attribute.
\<close>

theorem getset_no_overread:
  assumes "length b = 280"
  shows "\<exists>g. decodeGetset b = Some g \<and> unat (g_attrLen g) \<le> maxAttrSize \<and>
    g_attr g = take (unat (g_attrLen g)) (drop 8 b) \<and> length (g_attr g) = unat (g_attrLen g) \<and>
    (\<forall>n. le32_at 272 b = Some n \<longrightarrow> g_attrLen g = (if unat n > maxAttrSize then 0 else n))"
proof -
  have at: "\<And>off. off + 4 \<le> 280 \<Longrightarrow> \<exists>w. le32_at off b = Some w"
    using assms le32_at_in_range by metis
  obtain c i n r where "le32_at 0 b = Some c" "le32_at 4 b = Some i"
      "le32_at 272 b = Some n" "le32_at 276 b = Some r"
    using at [of 0] at [of 4] at [of 272] at [of 276] by auto
  then show ?thesis
    using assms by (cases "unat n > 264") (simp_all add: decodeGetset_def maxAttrSize_def go_slice_def)
qed

theorem getset_no_overread_witness:
  "\<exists>g. decodeGetset (replicate 272 0 @ put_le32 5000 @ put_le32 0) = Some g \<and> g_attr g = []"
proof -
  let ?b = "replicate 272 0 @ put_le32 5000 @ put_le32 0 :: byte list"
  have n: "le32_at 272 ?b = Some 5000" by (simp add: wire_simps)
  obtain g where g: "decodeGetset ?b = Some g" "length (g_attr g) = unat (g_attrLen g)"
      "\<forall>n. le32_at 272 ?b = Some n \<longrightarrow> g_attrLen g = (if unat n > maxAttrSize then 0 else n)"
    using getset_no_overread [of ?b] by auto
  from g(3) n have "g_attrLen g = 0" by (simp add: maxAttrSize_def)
  with g(1,2) show ?thesis by auto
qed

text \<open>
  C40. Every 184 byte entry of the reader state array decodes without a panic into a name of at
  most 128 bytes without a NUL, the state and counter words at their offsets, and an ATR of at
  most 33 bytes taken from the entry.
\<close>

theorem reader_state_total:
  assumes "readerStateWireSz \<le> length b"
  shows "\<exists>st. decodeReaderState b = Some st \<and>
    length (rs_reader st) \<le> maxReaderName \<and> CHR 0x00 \<notin> set (rs_reader st) \<and>
    le32_at 132 b = Some (rs_state st) \<and> le32_at 128 b = Some (rs_eventCounter st) \<and>
    length (rs_atr st) \<le> maxATRSize \<and> rs_atr st = take (length (rs_atr st)) (drop 140 b)"
proof -
  obtain st where st: "decodeReaderState b = Some st" "rs_reader st = cString (take 128 b)"
      "le32_at 132 b = Some (rs_state st)" "le32_at 128 b = Some (rs_eventCounter st)"
      "length (rs_atr st) \<le> 33" "rs_atr st = take (length (rs_atr st)) (drop 140 b)"
    using decodeReaderState_total [of b] assms by (auto simp: readerStateWireSz_def)
  have "length (rs_reader st) \<le> 128" using length_cString [of "take 128 b"] st(2) by simp
  moreover have "CHR 0x00 \<notin> set (rs_reader st)"
  proof
    assume "CHR 0x00 \<in> set (rs_reader st)"
    then have "byte_of_char (CHR 0x00) \<in> set (bytes_of (rs_reader st))" by (simp add: bytes_of_def)
    then show False using cString_no_nul [of "take 128 b"] st(2) by (simp add: byte_of_char_def)
  qed
  ultimately show ?thesis using st by (auto simp: maxATRSize_def maxReaderName_def)
qed

theorem reader_state_total_witness:
  "\<exists>st. decodeReaderState (replicate 184 0) = Some st \<and> CHR 0x00 \<notin> set (rs_reader st)"
  using reader_state_total [of "replicate 184 0"] by (auto simp: readerStateWireSz_def)

end
