(* ===== verification/Atr.thy ===== *)
theory Atr
  imports Prelude
begin

text \<open>
  The ISO 7816-3 answer-to-reset parser (\<open>atr.go\<close>). \<open>ParseATR\<close> is the model of the Go function:
  \<open>parse_group\<close> is one run of its inner loop over the four presence bits, \<open>parse_groups\<close> its outer
  loop over the interface byte groups, and every early return is a value of \<open>atr_error\<close>.

  The specification is a grammar: \<open>wf_ATR\<close> says when an ATR value is well formed and \<open>render\<close>
  writes it out as bytes. The parser accepts exactly the rendered well formed ATRs and returns the
  value they were rendered from; the checksum test is shown to detect every single byte
  corruption.
\<close>

section \<open>The parser\<close>

record ATR =
  TS :: byte
  T0 :: byte
  InterfaceBytes :: "byte list list"
  Historical :: "byte list"
  Protocols :: "byte list"
  HasTCK :: bool
  TCK :: byte

datatype atr_error =
    TooShort nat
  | BadInitialCharacter byte
  | MissingInterfaceByte nat
  | MissingHistorical nat nat
  | MissingTCK
  | TrailingBytes nat

definition addProtocol :: "byte \<Rightarrow> byte list \<Rightarrow> byte list" where
  "addProtocol p protocols = (if p \<in> set protocols then protocols else protocols @ [p])"

fun parse_group ::
  "byte list \<Rightarrow> byte \<Rightarrow> byte list \<Rightarrow> nat \<Rightarrow> byte list \<Rightarrow> byte list \<Rightarrow> byte
   \<Rightarrow> atr_error + (nat \<times> byte list \<times> byte list \<times> byte)" where
  "parse_group b msk [] pos protocols grp nxt = Inr (pos, protocols, grp, nxt)"
| "parse_group b msk (pbit # bits) pos protocols grp nxt =
     (if msk AND pbit = 0 then parse_group b msk bits pos protocols grp nxt
      else if length b \<le> pos then Inl (MissingInterfaceByte pos)
      else if pbit = 0x8
        then parse_group b msk bits (pos + 1) (addProtocol (b ! pos AND 0x0F) protocols)
               (grp @ [b ! pos]) (drop_bit 4 (b ! pos))
        else parse_group b msk bits (pos + 1) protocols (grp @ [b ! pos]) nxt)"

text \<open>A group either consumes a byte or announces no further group.\<close>

lemma parse_group_progress:
  "parse_group b msk bits pos protocols grp nxt = Inr (pos', protocols', grp', nxt') \<Longrightarrow>
   pos < pos' \<and> pos' \<le> length b \<or> pos' = pos \<and> nxt' = nxt"
  by (induction b msk bits pos protocols grp nxt rule: parse_group.induct)
    (auto split: if_splits)

function parse_groups ::
  "byte list \<Rightarrow> byte \<Rightarrow> nat \<Rightarrow> byte list \<Rightarrow> byte list list
   \<Rightarrow> atr_error + (nat \<times> byte list \<times> byte list list)" where
  "parse_groups b msk pos protocols groups =
     (if msk = 0 then Inr (pos, protocols, groups)
      else case parse_group b msk [0x1, 0x2, 0x4, 0x8] pos protocols [] 0 of
        Inl e \<Rightarrow> Inl e
      | Inr (pos', protocols', grp, nxt) \<Rightarrow>
          parse_groups b nxt pos' protocols' (groups @ [grp]))"
  by pat_completeness auto
termination
  by (relation "measures [\<lambda>(b, msk, pos, _). length b - pos, \<lambda>(b, msk, _). if msk = 0 then 0 else 1]")
    (auto simp del: parse_group.simps dest!: parse_group_progress)

declare parse_groups.simps [simp del]

definition ParseATR :: "byte list \<Rightarrow> atr_error + ATR" where
  "ParseATR b =
     (if length b < 2 then Inl (TooShort (length b))
      else if b ! 0 \<noteq> 0x3B \<and> b ! 0 \<noteq> 0x3F then Inl (BadInitialCharacter (b ! 0))
      else let t0 = b ! 1; historicalCount = unat (t0 AND 0x0F) in
        case parse_groups b (drop_bit 4 t0) 2 (addProtocol 0 []) [] of
          Inl e \<Rightarrow> Inl e
        | Inr (pos, protocols, groups) \<Rightarrow>
            if length b < pos + historicalCount
              then Inl (MissingHistorical historicalCount (length b - pos))
            else
              let historical = take historicalCount (drop pos b);
                  pos = pos + historicalCount;
                  hasTCK = (1 < length protocols) in
              if hasTCK \<and> length b \<le> pos then Inl MissingTCK
              else
                let tck = (if hasTCK then b ! pos else 0);
                    pos = (if hasTCK then pos + 1 else pos) in
                if pos \<noteq> length b then Inl (TrailingBytes (length b - pos))
                else Inr \<lparr>TS = b ! 0, T0 = t0, InterfaceBytes = groups, Historical = historical,
                          Protocols = protocols, HasTCK = hasTCK, TCK = tck\<rparr>)"

definition ChecksumOK :: "ATR \<Rightarrow> byte list \<Rightarrow> bool" where
  "ChecksumOK a atr =
     (if \<not> HasTCK a \<or> length atr < 3 then True
      else foldl (\<lambda>sum b. sum XOR b) 0 (take (length atr - 2) (drop 1 atr)) = TCK a)"

section \<open>The grammar of an ATR\<close>

definition present :: "byte \<Rightarrow> byte list" where
  "present msk = filter (\<lambda>pbit. msk AND pbit \<noteq> 0) [0x1, 0x2, 0x4, 0x8]"

definition has_TD :: "byte \<Rightarrow> bool" where
  "has_TD msk \<longleftrightarrow> msk AND 0x8 \<noteq> 0"

definition next_mask :: "byte \<Rightarrow> byte list \<Rightarrow> byte" where
  "next_mask msk grp = (if has_TD msk then drop_bit 4 (last grp) else 0)"

fun wf_groups :: "byte \<Rightarrow> byte list list \<Rightarrow> bool" where
  "wf_groups msk [] = (msk = 0)"
| "wf_groups msk (g # gs) =
     (msk \<noteq> 0 \<and> length g = length (present msk) \<and> wf_groups (next_mask msk g) gs)"

fun td_protocols :: "byte \<Rightarrow> byte list list \<Rightarrow> byte list" where
  "td_protocols msk [] = []"
| "td_protocols msk (g # gs) =
     (if has_TD msk then [last g AND 0x0F] else []) @ td_protocols (next_mask msk g) gs"

definition offered :: "byte list \<Rightarrow> byte list" where
  "offered ps = foldl (\<lambda>acc p. addProtocol p acc) [0] ps"

definition wf_ATR :: "ATR \<Rightarrow> bool" where
  "wf_ATR a \<longleftrightarrow>
     (TS a = 0x3B \<or> TS a = 0x3F) \<and>
     wf_groups (drop_bit 4 (T0 a)) (InterfaceBytes a) \<and>
     length (Historical a) = unat (T0 a AND 0x0F) \<and>
     Protocols a = offered (td_protocols (drop_bit 4 (T0 a)) (InterfaceBytes a)) \<and>
     (HasTCK a \<longleftrightarrow> (\<exists>p \<in> set (Protocols a). p \<noteq> 0)) \<and>
     (HasTCK a \<or> TCK a = 0)"

definition render :: "ATR \<Rightarrow> byte list" where
  "render a = [TS a, T0 a] @ concat (InterfaceBytes a) @ Historical a
     @ (if HasTCK a then [TCK a] else [])"

section \<open>The parser implements the grammar\<close>

text \<open>One group: the bytes its presence mask announces, the last of them the TD byte.\<close>

lemma parse_group_low:
  assumes "0x8 \<notin> set bits"
  shows "parse_group b msk (bits @ rest) pos protocols grp nxt =
    (let k = length (filter (\<lambda>pbit. msk AND pbit \<noteq> 0) bits) in
     if k = 0 \<or> pos + k \<le> length b
       then parse_group b msk rest (pos + k) protocols (grp @ take k (drop pos b)) nxt
       else Inl (MissingInterfaceByte (max pos (length b))))"
  using assms
proof (induction bits arbitrary: pos grp)
  case Nil
  then show ?case by simp
next
  case (Cons p bits)
  show ?case
  proof (cases "msk AND p = 0")
    case True
    with Cons show ?thesis by simp
  next
    case False
    show ?thesis
    proof (cases "pos < length b")
      case True
      then have "drop pos b = b ! pos # drop (Suc pos) b" by (simp add: Cons_nth_drop_Suc)
      with False True Cons show ?thesis by (auto simp: Let_def max_def)
    next
      case False
      with \<open>msk AND p \<noteq> 0\<close> show ?thesis by (auto simp: Let_def max_def)
    qed
  qed
qed

lemma present_split:
  "present msk = filter (\<lambda>pbit. msk AND pbit \<noteq> 0) [0x1, 0x2, 0x4] @ (if has_TD msk then [0x8] else [])"
  by (simp add: present_def has_TD_def)

lemma parse_group_eq:
  "parse_group b msk [0x1, 0x2, 0x4, 0x8] pos protocols [] 0 =
    (let k = length (present msk); g = take k (drop pos b) in
     if k = 0 \<or> pos + k \<le> length b
       then Inr (pos + k, if has_TD msk then addProtocol (last g AND 0x0F) protocols else protocols,
                 g, next_mask msk g)
       else Inl (MissingInterfaceByte (max pos (length b))))"
proof -
  let ?k = "length (filter (\<lambda>pbit. msk AND pbit \<noteq> 0) [0x1, 0x2, 0x4 :: byte])"
  have low: "parse_group b msk [0x1, 0x2, 0x4, 0x8] pos protocols [] 0 =
    (if ?k = 0 \<or> pos + ?k \<le> length b
       then parse_group b msk [0x8] (pos + ?k) protocols (take ?k (drop pos b)) 0
       else Inl (MissingInterfaceByte (max pos (length b))))"
    using parse_group_low [of "[0x1, 0x2, 0x4]" b msk "[0x8]" pos protocols "[]" 0]
    by (simp only: Let_def) simp
  show ?thesis
  proof (cases "has_TD msk")
    case False
    then have "length (present msk) = ?k" by (simp only: present_split) simp
    with False low show ?thesis by (simp add: has_TD_def next_mask_def Let_def del: parse_group.simps(2) filter.simps)
        (simp add: has_TD_def)
  next
    case True
    then have k: "length (present msk) = Suc ?k" by (simp only: present_split) simp
    show ?thesis
    proof (cases "pos + ?k < length b")
      case True
      then have "take (Suc ?k) (drop pos b) = take ?k (drop pos b) @ [b ! (pos + ?k)]"
        by (simp add: take_Suc_conv_app_nth del: filter.simps)
      with True \<open>has_TD msk\<close> low k show ?thesis
        by (simp add: has_TD_def next_mask_def Let_def del: filter.simps)
    next
      case False
      with \<open>has_TD msk\<close> low k show ?thesis
        by (auto simp: has_TD_def Let_def max_def simp del: filter.simps)
    qed
  qed
qed

definition offer :: "byte list \<Rightarrow> byte list \<Rightarrow> byte list" where
  "offer protocols ps = foldl (\<lambda>acc p. addProtocol p acc) protocols ps"

lemma offer_simps [simp]:
  "offer protocols [] = protocols"
  "offer protocols (p # ps) = offer (addProtocol p protocols) ps"
  "offered ps = offer [0] ps"
  by (simp_all add: offer_def offered_def)

lemma parse_groups_complete:
  assumes "wf_groups msk gs" and "drop pos b = concat gs @ rest" and "pos \<le> length b"
  shows "parse_groups b msk pos protocols acc =
    Inr (pos + length (concat gs), offer protocols (td_protocols msk gs), acc @ gs)"
  using assms
proof (induction gs arbitrary: msk pos protocols acc)
  case Nil
  then show ?case by (simp add: parse_groups.simps)
next
  case (Cons g gs)
  then have g: "length g = length (present msk)" "take (length g) (drop pos b) = g" by simp_all
  have "length (drop pos b) \<ge> length g" using Cons.prems(2) by simp
  then have fits: "length g = 0 \<or> pos + length g \<le> length b" using Cons.prems(3) by auto
  have rest: "drop (pos + length g) b = concat gs @ rest"
    using Cons.prems(2) by (metis add.commute append_assoc append_eq_conv_conj concat.simps(2) drop_drop)
  from g fits have "parse_group b msk [0x1, 0x2, 0x4, 0x8] pos protocols [] 0 =
      Inr (pos + length g, if has_TD msk then addProtocol (last g AND 0x0F) protocols else protocols,
           g, next_mask msk g)"
    unfolding parse_group_eq by (simp add: Let_def del: parse_group.simps)
  then show ?case
    using Cons.prems Cons.IH [OF _ rest] fits
    by (subst parse_groups.simps) (simp add: add.assoc del: parse_group.simps, fastforce)
qed

lemma parse_groups_sound:
  "parse_groups b msk pos protocols acc = Inr (pos', protocols', groups) \<Longrightarrow> pos \<le> length b \<Longrightarrow>
   \<exists>gs. groups = acc @ gs \<and> wf_groups msk gs \<and> drop pos b = concat gs @ drop pos' b \<and>
     pos' = pos + length (concat gs) \<and> pos' \<le> length b \<and> protocols' = offer protocols (td_protocols msk gs)"
proof (induction b msk pos protocols acc rule: parse_groups.induct)
  case (1 b msk pos protocols acc)
  show ?case
  proof (cases "msk = 0")
    case True
    with 1 show ?thesis by (simp add: parse_groups.simps)
  next
    case False
    let ?g = "take (length (present msk)) (drop pos b)"
    let ?pos = "pos + length (present msk)"
    let ?protocols = "if has_TD msk then addProtocol (last ?g AND 0x0F) protocols else protocols"
    have fits: "length (present msk) = 0 \<or> ?pos \<le> length b"
      using 1(2) False
      by (subst (asm) parse_groups.simps) (auto simp: parse_group_eq Let_def simp del: parse_group.simps split: if_splits)
    then have pg: "parse_group b msk [0x1, 0x2, 0x4, 0x8] pos protocols [] 0 =
        Inr (?pos, ?protocols, ?g, next_mask msk ?g)"
      unfolding parse_group_eq by (simp add: Let_def)
    with False 1(2) have "parse_groups b (next_mask msk ?g) ?pos ?protocols (acc @ [?g])
        = Inr (pos', protocols', groups)"
      by (subst (asm) parse_groups.simps) (simp del: parse_group.simps)
    moreover have pos: "?pos \<le> length b" using fits 1(3) by auto
    ultimately obtain gs where gs: "groups = (acc @ [?g]) @ gs" "wf_groups (next_mask msk ?g) gs"
        "drop ?pos b = concat gs @ drop pos' b" "pos' = ?pos + length (concat gs)"
        "pos' \<le> length b" "protocols' = offer ?protocols (td_protocols (next_mask msk ?g) gs)"
      using 1(1) [OF False pg refl refl refl] by blast
    have "drop pos b = ?g @ drop ?pos b"
      by (metis add.commute append_take_drop_id drop_drop)
    moreover have "length ?g = length (present msk)" using pos by simp
    ultimately show ?thesis using gs False by (intro exI [of _ "?g # gs"]) auto
  qed
qed

lemma addProtocol_0 [simp]: "addProtocol 0 [] = [0]"
  by (simp add: addProtocol_def)

lemma set_offer [simp]: "set (offer protocols ps) = set protocols \<union> set ps"
  by (induction ps arbitrary: protocols) (auto simp: addProtocol_def)

lemma distinct_offer: "distinct protocols \<Longrightarrow> distinct (offer protocols ps)"
  by (induction ps arbitrary: protocols) (auto simp: addProtocol_def)

lemma hd_offer: "protocols \<noteq> [] \<Longrightarrow> offer protocols ps \<noteq> [] \<and> hd (offer protocols ps) = hd protocols"
  by (induction ps arbitrary: protocols) (simp_all add: addProtocol_def)

lemma offered_TCK: "Suc 0 < length (offer [0] ps) \<longleftrightarrow> (\<exists>p \<in> set ps. p \<noteq> 0)"
proof -
  have "length (offer [0] ps) = card (set (offer [0] ps))"
    by (metis distinct_card distinct_offer distinct_singleton)
  also have "\<dots> = card (insert 0 (set ps - {0}))" by simp
  also have "\<dots> = Suc (card (set ps - {0}))" by (simp del: insert_Diff_single)
  finally show ?thesis by (auto simp: card_gt_0_iff)
qed

lemma td_protocols_nibble: "p \<in> set (td_protocols msk gs) \<Longrightarrow> p AND 0x0F = p"
  by (induction msk gs rule: td_protocols.induct) (auto split: if_splits)

lemma drop_two: "2 \<le> length b \<Longrightarrow> b = b ! 0 # b ! 1 # drop 2 b"
  by (cases b; cases "tl b") auto

lemma ParseATR_sound:
  assumes "ParseATR b = Inr a"
  shows "wf_ATR a \<and> render a = b"
proof -
  have two: "2 \<le> length b" and ts: "b ! 0 = 0x3B \<or> b ! 0 = 0x3F"
    using assms by (auto simp: ParseATR_def split: if_splits)
  define t0 n where "t0 = b ! 1" and "n = unat (t0 AND 0x0F)"
  obtain pos protocols groups where pg:
    "parse_groups b (drop_bit 4 t0) 2 [0] [] = Inr (pos, protocols, groups)"
    using assms two ts by (auto simp: ParseATR_def Let_def t0_def split: sum.splits if_splits)
  obtain gs where gs: "groups = gs" "wf_groups (drop_bit 4 t0) gs"
      "drop 2 b = concat gs @ drop pos b" "pos \<le> length b"
      "protocols = offer [0] (td_protocols (drop_bit 4 t0) gs)"
    using parse_groups_sound [OF pg two] by auto
  let ?tck = "1 < length protocols"
  have fit: "pos + n \<le> length b" "?tck \<longrightarrow> Suc (pos + n) = length b" "\<not> ?tck \<longrightarrow> pos + n = length b"
    and a: "a = \<lparr>TS = b ! 0, T0 = t0, InterfaceBytes = groups,
      Historical = take n (drop pos b), Protocols = protocols, HasTCK = ?tck,
      TCK = (if ?tck then b ! (pos + n) else 0)\<rparr>"
    using assms two ts pg by (auto simp: ParseATR_def Let_def t0_def n_def split: if_splits)
  define tck where "tck = (if ?tck then [b ! (pos + n)] else [])"
  have "drop n (drop pos b) = tck"
    using fit by (auto simp: tck_def Cons_nth_drop_Suc [symmetric] add.commute)
  then have dp: "drop pos b = take n (drop pos b) @ tck"
    by (metis append_take_drop_id)
  have "render a = [b ! 0, t0] @ concat gs @ take n (drop pos b) @ tck"
    using gs(1) by (simp add: a render_def tck_def)
  also have "\<dots> = [b ! 0, t0] @ drop 2 b"
    by (simp only: gs(3) dp [symmetric])
  also have "\<dots> = b"
    unfolding t0_def append_Cons append_Nil by (rule drop_two [OF two, symmetric])
  finally have "render a = b" .
  moreover have "wf_ATR a"
    using gs ts fit(1) by (simp add: a wf_ATR_def offered_TCK n_def)
  ultimately show ?thesis by simp
qed

lemma ParseATR_complete:
  assumes "wf_ATR a"
  shows "ParseATR (render a) = Inr a"
proof -
  let ?gs = "InterfaceBytes a" and ?m = "drop_bit 4 (T0 a)"
  let ?tail = "Historical a @ (if HasTCK a then [TCK a] else [])"
  have "parse_groups (render a) ?m 2 [0] [] =
      Inr (2 + length (concat ?gs), offer [0] (td_protocols ?m ?gs), [] @ ?gs)"
    using assms by (intro parse_groups_complete [where rest = ?tail]) (simp_all add: wf_ATR_def render_def)
  then show ?thesis
    using assms offered_TCK [of "td_protocols ?m ?gs"]
    by (auto simp: ParseATR_def render_def wf_ATR_def Let_def nth_append)
qed

text \<open>The grammar is unambiguous: masks alone decide where the interface bytes end.\<close>

lemma wf_groups_unique:
  "wf_groups msk gs \<Longrightarrow> wf_groups msk hs \<Longrightarrow> concat gs @ xs = concat hs @ ys \<Longrightarrow> gs = hs \<and> xs = ys"
proof (induction gs arbitrary: msk hs)
  case Nil
  then show ?case by (cases hs) simp_all
next
  case (Cons g gs)
  then obtain h hs' where "hs = h # hs'" by (cases hs) simp_all
  with Cons show ?case by (auto simp: append_eq_append_conv)
qed

lemma ParseATR_intro: "wf_ATR a \<Longrightarrow> render a = b \<Longrightarrow> ParseATR b = Inr a"
  using ParseATR_complete by blast

text \<open>An ATR with a checksum has at least one interface byte before it.\<close>

lemma td_protocols_nonempty: "wf_groups msk gs \<Longrightarrow> td_protocols msk gs \<noteq> [] \<Longrightarrow> concat gs \<noteq> []"
proof (induction msk gs rule: td_protocols.induct)
  case (1 msk)
  then show ?case by simp
next
  case (2 msk g gs)
  have "has_TD msk \<Longrightarrow> present msk \<noteq> []" by (simp only: present_split) simp
  with 2 show ?case by (cases "has_TD msk") (auto simp: next_mask_def)
qed

lemma HasTCK_length: "ParseATR b = Inr a \<Longrightarrow> HasTCK a \<Longrightarrow> 4 \<le> length b"
proof -
  assume "ParseATR b = Inr a" "HasTCK a"
  then have wf: "wf_ATR a" and b: "b = render a" using ParseATR_sound by blast+
  let ?m = "drop_bit 4 (T0 a)"
  have "td_protocols ?m (InterfaceBytes a) \<noteq> []"
    using wf \<open>HasTCK a\<close> by (auto simp: wf_ATR_def)
  then have "concat (InterfaceBytes a) \<noteq> []"
    using wf td_protocols_nonempty unfolding wf_ATR_def by blast
  then obtain x xs where "concat (InterfaceBytes a) = x # xs" by (auto simp only: neq_Nil_conv)
  then show ?thesis using \<open>HasTCK a\<close> by (simp add: b render_def)
qed

section \<open>The checksum\<close>

definition xor_all :: "byte list \<Rightarrow> byte" where
  "xor_all bs = foldl (\<lambda>sum b. sum XOR b) 0 bs"

lemma foldl_xor: "foldl (\<lambda>sum b. sum XOR b) s bs = s XOR xor_all bs" for s :: byte
proof (induction bs arbitrary: s)
  case Nil
  then show ?case by (simp add: xor_all_def)
next
  case (Cons b bs)
  from Cons [of "s XOR b"] Cons [of b] show ?case by (simp add: xor_all_def xor.assoc)
qed

lemma xor_all_simps [simp]:
  "xor_all [] = 0"
  "xor_all (b # bs) = b XOR xor_all bs"
  "xor_all (bs @ cs) = xor_all bs XOR xor_all cs"
  by (simp_all add: xor_all_def foldl_xor [unfolded xor_all_def, symmetric])

lemma xor_cancel: "a XOR b = 0 \<longleftrightarrow> a = b" for a b :: byte
  by (metis xor.assoc xor.left_neutral xor.right_neutral xor_self_eq)

lemma xor_all_update:
  "i < length bs \<Longrightarrow> xor_all (bs[i := v]) = xor_all bs XOR (bs ! i XOR v)"
proof (induction bs arbitrary: i)
  case Nil
  then show ?case by simp
next
  case (Cons b bs)
  have "b XOR (b XOR v) = v" by (simp add: xor.assoc [symmetric])
  with Cons show ?case
    by (cases i) (simp_all add: xor.assoc xor.left_commute xor.commute)
qed

text \<open>The checksum test is: the bytes after TS, the checksum included, cancel out.\<close>

lemma ChecksumOK_xor:
  assumes "ParseATR b = Inr a" and "HasTCK a"
  shows "ChecksumOK a b \<longleftrightarrow> xor_all (tl b) = 0"
proof -
  have len: "4 \<le> length b" using HasTCK_length assms by blast
  have "render a = b" using assms ParseATR_sound by blast
  then have last: "TCK a = last b" using assms(2) by (auto simp: render_def)
  have "tl b = take (length b - 2) (drop 1 b) @ [last b]"
    using len by (cases b; cases "tl b" rule: rev_cases) auto
  then have "xor_all (tl b) = xor_all (take (length b - 2) (drop 1 b)) XOR TCK a"
    by (metis last xor.right_neutral xor_all_simps)
  then show ?thesis
    using assms(2) len by (simp add: ChecksumOK_def xor_all_def [symmetric] xor_cancel)
qed

section \<open>A contactless pseudo ATR\<close>

text \<open>The ATR of a mifare classic 1k card, and the same ATR with its card type byte corrupted.\<close>

definition mifare_1k_atr :: "byte list" where
  "mifare_1k_atr = [0x3B, 0x8F, 0x80, 0x01, 0x80, 0x4F, 0x0C, 0xA0, 0x00, 0x00, 0x03, 0x06,
     0x03, 0x00, 0x01, 0x00, 0x00, 0x00, 0x00, 0x6A]"

definition mifare_1k_parsed :: ATR where
  "mifare_1k_parsed = \<lparr>TS = 0x3B, T0 = 0x8F, InterfaceBytes = [[0x80], [0x01]],
     Historical = [0x80, 0x4F, 0x0C, 0xA0, 0x00, 0x00, 0x03, 0x06, 0x03, 0x00, 0x01,
       0x00, 0x00, 0x00, 0x00],
     Protocols = [0, 1], HasTCK = True, TCK = 0x6A\<rparr>"

lemmas atr_example_simps = mifare_1k_atr_def mifare_1k_parsed_def wf_ATR_def render_def
  present_def has_TD_def next_mask_def addProtocol_def

lemma parse_mifare_1k: "ParseATR mifare_1k_atr = Inr mifare_1k_parsed"
  by (rule ParseATR_intro) (simp_all add: atr_example_simps)

lemma parse_mifare_corrupt:
  "ParseATR (mifare_1k_atr[14 := 0x02]) =
     Inr (mifare_1k_parsed\<lparr>Historical := (Historical mifare_1k_parsed)[10 := 0x02]\<rparr>)"
  by (rule ParseATR_intro) (simp_all add: atr_example_simps)

lemma mifare_1k_checksum: "ChecksumOK mifare_1k_parsed mifare_1k_atr"
  by (simp add: ChecksumOK_def mifare_1k_atr_def mifare_1k_parsed_def)

section \<open>Properties\<close>

text \<open>
  C13. The parser accepts exactly the well formed answers to reset and loses nothing of them: it
  returns the ATR value \<open>a\<close> for the bytes \<open>b\<close> if and only if \<open>a\<close> satisfies the grammar (group
  sizes follow the presence masks, the historical count follows T0, the protocols are the
  announced ones, a checksum is present exactly when a protocol other than T=0 is offered) and
  \<open>b\<close> is \<open>a\<close> written out.
\<close>

theorem ParseATR_iff: "ParseATR b = Inr a \<longleftrightarrow> wf_ATR a \<and> render a = b"
  using ParseATR_sound ParseATR_complete by blast

text \<open>
  No answer to reset extends another: when \<open>b\<close> parses, \<open>b\<close> followed by anything is
  rejected, so a truncated or an over-long ATR is never read as a different card.
\<close>

theorem ParseATR_prefix_free:
  assumes "ParseATR b = Inr a" and "ParseATR (b @ x) = Inr a'"
  shows "x = []"
proof -
  have wf: "wf_ATR a" "wf_ATR a'" and eq: "render a' = render a @ x"
    using assms ParseATR_sound by auto
  from eq have T: "TS a' = TS a" "T0 a' = T0 a"
    by (simp_all add: render_def)
  let ?m = "drop_bit 4 (T0 a)"
  let ?tail = "\<lambda>a. Historical a @ (if HasTCK a then [TCK a] else [])"
  have groups: "wf_groups ?m (InterfaceBytes a)" "wf_groups ?m (InterfaceBytes a')"
    using wf T by (simp_all add: wf_ATR_def)
  have tails: "concat (InterfaceBytes a') @ ?tail a' = concat (InterfaceBytes a) @ (?tail a @ x)"
    using eq by (simp add: render_def)
  have "InterfaceBytes a' = InterfaceBytes a \<and> ?tail a' = ?tail a @ x"
    using wf_groups_unique [OF groups(2,1) tails] .
  moreover from this have "HasTCK a' = HasTCK a"
    using wf T by (simp add: wf_ATR_def)
  moreover have "length (Historical a') = length (Historical a)"
    using wf T by (simp add: wf_ATR_def)
  ultimately show ?thesis by (auto dest!: arg_cong [where f = length])
qed

theorem ParseATR_prefix_free_witness:
  "\<not> (\<exists>a'. ParseATR (mifare_1k_atr @ [0x00]) = Inr a')"
  using ParseATR_prefix_free [OF parse_mifare_1k, of "[0x00]"] by blast

text \<open>
  The offered protocols of an accepted ATR are distinct, start with the default T=0 and are
  protocol numbers below 16; the checksum byte is present exactly when a protocol other than T=0
  is offered, and it is the last byte of the ATR.
\<close>

theorem ParseATR_protocols:
  assumes "ParseATR b = Inr a"
  shows "distinct (Protocols a) \<and> Protocols a \<noteq> [] \<and> hd (Protocols a) = 0 \<and>
    (\<forall>p \<in> set (Protocols a). unat p < 16) \<and>
    (HasTCK a \<longleftrightarrow> (\<exists>p \<in> set (Protocols a). p \<noteq> 0)) \<and> (HasTCK a \<longrightarrow> TCK a = last b)"
proof -
  have wf: "wf_ATR a" "render a = b" using assms ParseATR_sound by blast+
  let ?ps = "td_protocols (drop_bit 4 (T0 a)) (InterfaceBytes a)"
  have ps: "Protocols a = offer [0] ?ps" using wf(1) by (simp add: wf_ATR_def)
  have "unat p < 16" if "p \<in> set (Protocols a)" for p
  proof -
    have "p AND 0x0F = p" using that td_protocols_nibble by (auto simp: ps)
    moreover have "p AND 0x0F \<le> 0x0F" by (rule word_and_le1)
    ultimately show ?thesis by (simp add: word_le_nat_alt)
  qed
  moreover have "distinct (Protocols a)" "Protocols a \<noteq> [] \<and> hd (Protocols a) = 0"
    using distinct_offer [of "[0]" ?ps] hd_offer [of "[0]" ?ps] by (simp_all add: ps)
  moreover have "HasTCK a \<longrightarrow> TCK a = last b"
    using wf(2) by (auto simp: render_def)
  ultimately show ?thesis using wf(1) by (simp add: wf_ATR_def)
qed

theorem ParseATR_protocols_witness:
  "hd (Protocols mifare_1k_parsed) = 0 \<and> TCK mifare_1k_parsed = last mifare_1k_atr"
  using ParseATR_protocols [OF parse_mifare_1k] by (simp add: mifare_1k_parsed_def)

text \<open>
  The checksum test detects every single byte corruption: when an ATR with a checksum passes
  the test, the same ATR with one byte after TS replaced by another value does not, as long as
  it still parses as an ATR with a checksum.
\<close>

theorem ChecksumOK_detects:
  assumes "ParseATR b = Inr a" and "HasTCK a" and "ChecksumOK a b"
    and "0 < i" and "i < length b" and "v \<noteq> b ! i"
    and "ParseATR (b[i := v]) = Inr a'" and "HasTCK a'"
  shows "\<not> ChecksumOK a' (b[i := v])"
proof -
  have "xor_all (tl b) = 0" using assms(1-3) ChecksumOK_xor by blast
  moreover obtain j where j: "i = Suc j" using assms(4) by (cases i) auto
  then have "tl (b[i := v]) = (tl b)[j := v]" by (cases b) simp_all
  ultimately have "xor_all (tl (b[i := v])) = b ! i XOR v"
    using assms(5) j by (simp add: xor_all_update nth_tl)
  then show ?thesis
    using ChecksumOK_xor [OF assms(7,8)] assms(6) by (simp add: xor_cancel)
qed

theorem ChecksumOK_detects_witness:
  "\<not> ChecksumOK (mifare_1k_parsed\<lparr>Historical := (Historical mifare_1k_parsed)[10 := 0x02]\<rparr>)
       (mifare_1k_atr[14 := 0x02])"
  by (rule ChecksumOK_detects [OF parse_mifare_1k _ mifare_1k_checksum _ _ _ parse_mifare_corrupt])
    (simp_all add: mifare_1k_parsed_def, simp_all add: mifare_1k_atr_def)

end
