(* ===== verification/CardType.thy ===== *)
theory CardType
  imports Atr
begin

text \<open>
  ATR to card type detection (\<open>cardtype.go\<close>): the three lookup tables of the source, entry by
  entry, and \<open>DetectType\<close>. A Go map with literal keys is a \<open>map_of\<close> over the list of its entries.

  The lemmas show that the hexadecimal key of the known ATR table stands for exactly one ATR,
  that the names of the tables are pairwise distinct and free of the separator the btag input
  uses, and what \<open>DetectType\<close> answers on every branch.
\<close>

section \<open>Tables\<close>

definition pcscRID :: "byte list" where
  "pcscRID = [0xA0, 0x00, 0x00, 0x03, 0x06]"

definition pcscStandard_entries :: "(byte \<times> string) list" where
  "pcscStandard_entries = [
     (0x00, ''rfid, no standard given''),
     (0x01, ''rfid, iso 14443 type a part 1''),
     (0x02, ''rfid, iso 14443 type a part 2''),
     (0x03, ''iso 14443 type a, pc/sc part 3'')]"

definition pcscStandard :: "byte \<rightharpoonup> string" where
  "pcscStandard = map_of pcscStandard_entries"

definition pcscCardType_entries :: "(byte \<times> string) list" where
  "pcscCardType_entries = [
     (0x00, ''contactless, card name not given''),
     (0x01, ''mifare classic 1k''),
     (0x02, ''mifare classic 4k''),
     (0x03, ''mifare ultralight''),
     (0x04, ''sle55r''),
     (0x06, ''sr176''),
     (0x07, ''sri x4k''),
     (0x08, ''at88rf020''),
     (0x09, ''at88sc0204crf''),
     (0x0A, ''at88sc0808crf''),
     (0x0B, ''at88sc1616crf''),
     (0x0C, ''at88sc3216crf''),
     (0x0D, ''at88sc6416crf''),
     (0x0E, ''srf55v10p''),
     (0x0F, ''srf55v02p''),
     (0x10, ''srf55v10s''),
     (0x11, ''srf55v02s''),
     (0x12, ''tag it''),
     (0x13, ''lri512''),
     (0x14, ''icodesli''),
     (0x15, ''tempsens''),
     (0x16, ''i-code1''),
     (0x17, ''picopass 2k''),
     (0x18, ''picopass 2ks''),
     (0x19, ''picopass 16k''),
     (0x1A, ''picopass 16ks''),
     (0x1B, ''picopass 16k(8x2)''),
     (0x1C, ''picopass 16ks(8x2)''),
     (0x1D, ''picopass 32ks(16+16)''),
     (0x1E, ''picopass 32ks(16+8x2)''),
     (0x1F, ''picopass 32ks(8x2+16)''),
     (0x20, ''picopass 32ks(8x2+8x2)''),
     (0x21, ''lri64''),
     (0x22, ''i.code uid''),
     (0x23, ''i.code epc''),
     (0x24, ''lri12''),
     (0x25, ''lri128''),
     (0x26, ''mifare mini''),
     (0x27, ''my-d move (sle 66r01p)''),
     (0x28, ''my-d nfc (sle 66rxxp)''),
     (0x29, ''my-d proximity 2 (sle 66rxxs)''),
     (0x2A, ''my-d proximity enhanced (sle 55rxxe)''),
     (0x2B, ''my-d light (srf 55v01p)''),
     (0x2C, ''pjm stack tag (srf 66v10st)''),
     (0x2D, ''pjm item tag (srf 66v10it)''),
     (0x2E, ''pjm light (srf 66v01st)''),
     (0x2F, ''jewel tag''),
     (0x30, ''topaz nfc tag''),
     (0x31, ''at88sc0104crf''),
     (0x32, ''at88sc0404crf''),
     (0x33, ''at88rf01c''),
     (0x34, ''at88rf04c''),
     (0x35, ''i-code sl2''),
     (0x36, ''mifare plus sl1 2k''),
     (0x37, ''mifare plus sl1 4k''),
     (0x38, ''mifare plus sl2 2k''),
     (0x39, ''mifare plus sl2 4k''),
     (0x3A, ''mifare ultralight c''),
     (0x3B, ''felica''),
     (0x3C, ''melexis sensor tag (mlx90129)''),
     (0x3D, ''mifare ultralight ev1'')]"

definition pcscCardType :: "byte \<rightharpoonup> string" where
  "pcscCardType = map_of pcscCardType_entries"

definition knownATR_entries :: "(string \<times> string) list" where
  "knownATR_entries = [
     (''3B8480018082900097'', ''german eid/passport (npa)''),
     (''3B8D80018073C021C057597562694B65FF7F'', ''yubikey 5 nfc''),
     (''3B8580015A4356445659'', ''deutschlandticket (vdv-ka)'')]"

definition knownATR :: "string \<rightharpoonup> string" where
  "knownATR = map_of knownATR_entries"

section \<open>Detection\<close>

text \<open>\<open>strings.ToUpper(hex.EncodeToString(b))\<close>.\<close>

definition hex_char :: "byte \<Rightarrow> char" where
  "hex_char n = ''0123456789ABCDEF'' ! unat (n AND 0x0F)"

definition hexUpper :: "byte list \<Rightarrow> string" where
  "hexUpper b = concat (map (\<lambda>x. [hex_char (drop_bit 4 x), hex_char x]) b)"

text \<open>\<open>bytes.Index\<close>: the first position where the separator occurs.\<close>

fun bytes_Index :: "'a list \<Rightarrow> 'a list \<Rightarrow> nat option" where
  "bytes_Index [] sep = (if sep = [] then Some 0 else None)"
| "bytes_Index (x # xs) sep =
     (if take (length sep) (x # xs) = sep then Some 0 else map_option Suc (bytes_Index xs sep))"

definition DetectType :: "byte list \<Rightarrow> string" where
  "DetectType atr =
     (case knownATR (hexUpper atr) of
        Some name \<Rightarrow> name
      | None \<Rightarrow>
          (case ParseATR atr of
             Inl _ \<Rightarrow> ''unknown''
           | Inr parsed \<Rightarrow>
               (case bytes_Index (Historical parsed) pcscRID of
                  None \<Rightarrow> ''unknown''
                | Some at \<Rightarrow>
                    if length (Historical parsed) \<le> at + 7 then ''unknown''
                    else
                      let standard = Historical parsed ! (at + length pcscRID);
                          cardType = Historical parsed ! (at + length pcscRID + 2) in
                      (case pcscCardType cardType of
                         Some name \<Rightarrow>
                           if standard = 0x03 then name
                           else (case pcscStandard standard of
                                   Some name \<Rightarrow> name
                                 | None \<Rightarrow> ''pc/sc contactless, unspecified'')
                       | None \<Rightarrow>
                           (case pcscStandard standard of
                              Some name \<Rightarrow> name
                            | None \<Rightarrow> ''pc/sc contactless, unspecified'')))))"

section \<open>The tables\<close>

text \<open>Every name \<open>DetectType\<close> can answer.\<close>

definition type_names :: "string list" where
  "type_names = map snd knownATR_entries @ map snd pcscCardType_entries
     @ map snd pcscStandard_entries @ [''unknown'', ''pc/sc contactless, unspecified'']"

lemma type_names_distinct: "distinct type_names"
  by (simp add: type_names_def knownATR_entries_def pcscCardType_entries_def pcscStandard_entries_def)

lemma type_names_no_bar: "\<forall>n \<in> set type_names. CHR ''|'' \<notin> set n"
  by (simp add: type_names_def knownATR_entries_def pcscCardType_entries_def pcscStandard_entries_def)

lemma pcscCardType_keys: "distinct (map fst pcscCardType_entries)"
  by (simp add: pcscCardType_entries_def)

lemma table_names [dest]:
  "knownATR h = Some n \<Longrightarrow> n \<in> set (map snd knownATR_entries)"
  "pcscCardType k = Some n \<Longrightarrow> n \<in> set (map snd pcscCardType_entries)"
  "pcscStandard k = Some n \<Longrightarrow> n \<in> set (map snd pcscStandard_entries)"
  by (force simp: knownATR_def pcscCardType_def pcscStandard_def dest!: map_of_SomeD)+

lemma names_disjoint:
  assumes "pcscCardType k = Some n"
  shows "knownATR h \<noteq> Some n" "pcscStandard s \<noteq> Some n" "n \<noteq> ''unknown''"
    "n \<noteq> ''pc/sc contactless, unspecified''"
  using type_names_distinct table_names(2) [OF assms] table_names(1) [of h n] table_names(3) [of s n]
  by (auto simp only: type_names_def distinct_append set_append Int_iff Un_iff list.set
      insert_iff empty_iff disjoint_iff)

lemma map_of_snd_inject:
  "distinct (map snd xs) \<Longrightarrow> map_of xs k = Some v \<Longrightarrow> map_of xs k' = Some v \<Longrightarrow> k = k'"
  by (induction xs) (force split: if_splits dest: map_of_SomeD)+

lemma pcscCardType_inject: "pcscCardType k = Some n \<Longrightarrow> pcscCardType k' = Some n \<Longrightarrow> k = k'"
  unfolding pcscCardType_def
  by (rule map_of_snd_inject) (use type_names_distinct in \<open>simp_all add: type_names_def\<close>)

text \<open>The hexadecimal key determines the ATR.\<close>

lemma hex_char_inject: "hex_char x = hex_char y \<Longrightarrow> x AND 0x0F = y AND 0x0F"
proof -
  have nib: "unat (z AND 0x0F) < 16" for z :: byte
    using word_and_le1 [of z "0x0F"] by (simp add: word_le_nat_alt)
  have "distinct ''0123456789ABCDEF''" by simp
  moreover assume "hex_char x = hex_char y"
  ultimately have "unat (x AND 0x0F) = unat (y AND 0x0F)"
    using nib [of x] nib [of y] by (simp add: hex_char_def nth_eq_iff_index_eq del: distinct.simps)
  then show ?thesis by (simp only: word_unat_eq_iff)
qed

lemma nibbles_inject:
  fixes x y :: byte
  assumes "x AND 0x0F = y AND 0x0F" and "drop_bit 4 x AND 0x0F = drop_bit 4 y AND 0x0F"
  shows "x = y"
proof (rule bit_word_eqI)
  fix n assume "n < LENGTH(8)"
  then have "n < 8" by simp
  have low: "z AND 0x0F = take_bit 4 z" for z :: byte
    by (simp add: take_bit_eq_mask mask_eq_decr_exp)
  show "bit x n = bit y n"
  proof (cases "n < 4")
    case True
    have "bit (take_bit 4 x) n = bit (take_bit 4 y) n" using assms(1) by (simp only: low)
    with True show ?thesis by (simp add: bit_take_bit_iff)
  next
    case False
    have "bit (take_bit 4 (drop_bit 4 x)) (n - 4) = bit (take_bit 4 (drop_bit 4 y)) (n - 4)"
      using assms(2) by (simp only: low)
    moreover have "n - 4 < 4" using \<open>n < 8\<close> by simp
    ultimately show ?thesis using False by (simp add: bit_take_bit_iff bit_drop_bit_eq)
  qed
qed

lemma hexUpper_inject: "hexUpper a = hexUpper b \<Longrightarrow> a = b"
proof (induction a arbitrary: b)
  case Nil
  then show ?case by (cases b) (simp_all add: hexUpper_def)
next
  case (Cons x xs)
  then obtain y ys where b: "b = y # ys" by (cases b) (auto simp: hexUpper_def)
  with Cons.prems have "hex_char (drop_bit 4 x) = hex_char (drop_bit 4 y)" "hex_char x = hex_char y"
    and rest: "hexUpper xs = hexUpper ys"
    by (simp_all add: hexUpper_def)
  then have "x = y" using nibbles_inject hex_char_inject by blast
  with Cons.IH [OF rest] b show ?case by simp
qed

text \<open>\<open>bytes.Index\<close> finds the first occurrence.\<close>

lemma bytes_Index_Some:
  "bytes_Index xs sep = Some i \<Longrightarrow> take (length sep) (drop i xs) = sep \<and> i + length sep \<le> length xs"
proof (induction xs sep arbitrary: i rule: bytes_Index.induct)
  case (1 sep)
  then show ?case by (simp split: if_splits)
next
  case (2 x xs sep)
  show ?case
  proof (cases "take (length sep) (x # xs) = sep")
    case True
    with 2 show ?thesis by simp (metis length_Cons length_take min.bounded_iff order_refl)
  next
    case False
    with 2 show ?thesis by auto
  qed
qed

lemma bytes_Index_first:
  "bytes_Index xs sep = Some i \<Longrightarrow> j < i \<Longrightarrow> take (length sep) (drop j xs) \<noteq> sep"
proof (induction xs sep arbitrary: i j rule: bytes_Index.induct)
  case (1 sep)
  then show ?case by (simp split: if_splits)
next
  case (2 x xs sep)
  then show ?case by (cases j) (auto split: if_splits)
qed

lemma length_pcscRID: "length pcscRID = 5"
  by (simp add: pcscRID_def)

text \<open>The example card of the previous theory.\<close>

lemma DetectType_mifare_1k: "DetectType mifare_1k_atr = ''mifare classic 1k''"
proof -
  have "knownATR (hexUpper mifare_1k_atr) = None"
    by (simp add: mifare_1k_atr_def knownATR_def knownATR_entries_def hexUpper_def hex_char_def)
  moreover have "bytes_Index (Historical mifare_1k_parsed) pcscRID = Some 3"
    by (simp add: mifare_1k_parsed_def pcscRID_def)
  ultimately show ?thesis
    by (simp add: DetectType_def parse_mifare_1k length_pcscRID)
      (simp add: mifare_1k_parsed_def pcscCardType_def pcscCardType_entries_def)
qed

section \<open>Properties\<close>

lemma DetectType_in_names: "DetectType atr \<in> set type_names"
  by (auto simp: DetectType_def Let_def type_names_def simp del: set_map
      split: option.splits sum.splits dest!: table_names)

lemma DetectType_range_sep: "CHR ''|'' \<notin> set (DetectType atr)"
  using DetectType_in_names type_names_no_bar by blast

text \<open>
  Whatever the ATR, the detected type is one of the names of the tables, \<open>unknown\<close> or the
  unspecified contactless name; these names are pairwise distinct and none contains the separator
  \<open>|\<close> that ends the type in the btag input.
\<close>

theorem DetectType_range:
  "DetectType atr \<in> set type_names \<and> distinct type_names \<and> CHR ''|'' \<notin> set (DetectType atr)"
  using DetectType_in_names type_names_distinct type_names_no_bar by blast

text \<open>
  C39. Detection of a contactless card model is sound: when the answer is the name of card type
  \<open>k\<close> of the PC/SC table, the bytes are an ATR whose historical bytes carry the PC/SC workgroup
  RID, followed by the standard byte 03 and, two bytes further, by exactly the type byte \<open>k\<close>.
\<close>

theorem DetectType_sound:
  assumes "pcscCardType k = Some (DetectType atr)"
  shows "\<exists>a at. ParseATR atr = Inr a \<and> take 5 (drop at (Historical a)) = pcscRID \<and>
    at + 7 < length (Historical a) \<and> Historical a ! (at + 5) = 0x03 \<and> Historical a ! (at + 7) = k"
proof -
  note other = names_disjoint [OF assms]
  have "knownATR (hexUpper atr) = None" using other(1)
    by (cases "knownATR (hexUpper atr)") (auto simp: DetectType_def)
  then obtain a at where a: "ParseATR atr = Inr a" "bytes_Index (Historical a) pcscRID = Some at"
      "at + 7 < length (Historical a)"
    using other(3) by (auto simp: DetectType_def Let_def split: sum.splits option.splits if_splits)
  let ?std = "Historical a ! (at + 5)" and ?k = "Historical a ! (at + 7)"
  have D: "DetectType atr = (case pcscCardType ?k of
      Some name \<Rightarrow> if ?std = 0x03 then name
        else (case pcscStandard ?std of Some name \<Rightarrow> name | None \<Rightarrow> ''pc/sc contactless, unspecified'')
    | None \<Rightarrow> (case pcscStandard ?std of Some name \<Rightarrow> name | None \<Rightarrow> ''pc/sc contactless, unspecified''))"
    using a \<open>knownATR (hexUpper atr) = None\<close>
    by (simp add: DetectType_def Let_def length_pcscRID add.assoc add.commute [of 7 at])
  have "?std = 0x03 \<and> pcscCardType ?k = Some (DetectType atr)"
    using D other(2) [of ?std] other(4) by (auto split: option.splits if_splits)
  then show ?thesis
    using a bytes_Index_Some [OF a(2)] pcscCardType_inject [OF assms] by (auto simp: length_pcscRID)
qed

theorem DetectType_sound_witness:
  "\<exists>a at. ParseATR mifare_1k_atr = Inr a \<and> Historical a ! (at + 7) = 0x01"
proof -
  have "pcscCardType 0x01 = Some (DetectType mifare_1k_atr)"
    by (simp add: DetectType_mifare_1k pcscCardType_def pcscCardType_entries_def)
  from DetectType_sound [OF this] show ?thesis by blast
qed

text \<open>
  A complete-ATR entry of the known table identifies one ATR and nothing else: \<open>DetectType\<close>
  answers its name exactly for the bytes its hexadecimal key spells.
\<close>

theorem DetectType_known:
  assumes "knownATR (hexUpper b) = Some name"
  shows "DetectType atr = name \<longleftrightarrow> atr = b"
proof
  assume "atr = b"
  then show "DetectType atr = name" using assms by (simp add: DetectType_def)
next
  assume D: "DetectType atr = name"
  have inj: "h = hexUpper b" if "knownATR h = Some name" for h
    using that assms map_of_snd_inject [of knownATR_entries] type_names_distinct
    by (simp add: knownATR_def type_names_def)
  have known: "name \<in> set (map snd knownATR_entries)" using assms by (rule table_names)
  have "knownATR (hexUpper atr) \<noteq> None"
  proof
    assume "knownATR (hexUpper atr) = None"
    then have "name \<in> set (map snd pcscCardType_entries @ map snd pcscStandard_entries
        @ [''unknown'', ''pc/sc contactless, unspecified''])"
      using D by (auto simp: DetectType_def Let_def simp del: set_map
          split: option.splits sum.splits if_splits dest!: table_names)
    with known type_names_distinct show False
      unfolding type_names_def distinct_append by blast
  qed
  then have "knownATR (hexUpper atr) = Some name"
    using D by (auto simp: DetectType_def)
  then have "hexUpper atr = hexUpper b" by (rule inj)
  then show "atr = b" by (rule hexUpper_inject)
qed

theorem DetectType_known_witness:
  "DetectType [0x3B, 0x85, 0x80, 0x01, 0x5A, 0x43, 0x56, 0x44, 0x56, 0x59]
     = ''deutschlandticket (vdv-ka)''"
proof -
  let ?b = "[0x3B, 0x85, 0x80, 0x01, 0x5A, 0x43, 0x56, 0x44, 0x56, 0x59] :: byte list"
  have "hexUpper ?b = ''3B8580015A4356445659''" by (simp add: hexUpper_def hex_char_def)
  then have "knownATR (hexUpper ?b) = Some ''deutschlandticket (vdv-ka)''"
    by (simp add: knownATR_def knownATR_entries_def)
  from DetectType_known [OF this, of ?b] show ?thesis by simp
qed

end
