(* ===== verification/Tags.thy ===== *)
theory Tags
  imports GoText Sha256 CardType
begin

text \<open>
  The tag derivations of \<open>pcscid.go\<close>: the btag of a card and the reader tag in its four hash
  domains, over the SHA-256 of \<open>Sha256\<close>, and the normalisation of pcscd reader names.

  The hash input of every derivation is a list of parts that \<open>digestID\<close> writes one after the
  other; the parts have a name of their own (\<open>btag_parts\<close> and so on) because the lemmas are about
  them: when two inputs agree, and that inputs of different domains never agree.
\<close>

section \<open>Digest and format\<close>

definition btagAlphabet :: string where
  "btagAlphabet = ''0123456789abcdefghijklmnopqrstuvwxyz''"

definition digestID :: "byte list list \<Rightarrow> byte list" where
  "digestID parts = sha256 (concat parts)"

definition btagFormat :: "byte list \<Rightarrow> nat \<Rightarrow> nat list \<Rightarrow> string" where
  "btagFormat digest n dashes =
     concat (map (\<lambda>(i, b).
         concat (map (\<lambda>d. if i = d then ''-'' else []) dashes)
         @ [btagAlphabet ! (unat b mod length btagAlphabet)])
       (enumerate 0 (take n digest)))"

definition btag_parts :: "string \<Rightarrow> byte list \<Rightarrow> byte list list" where
  "btag_parts cardType tag = [bytes_of ''pcscid/v1|'', bytes_of cardType, bytes_of ''|'', tag]"

definition Btag :: "string \<Rightarrow> byte list \<Rightarrow> string" where
  "Btag cardType tag = btagFormat (digestID (btag_parts cardType tag)) 10 [3, 6]"

section \<open>Reader names\<close>

text \<open>\<open>'0' <= c && c <= '9'\<close>.\<close>

definition is_digit :: "char \<Rightarrow> bool" where
  "is_digit c \<longleftrightarrow> 48 \<le> (of_char c :: nat) \<and> (of_char c :: nat) \<le> 57"

definition isHotplugIndex :: "string \<Rightarrow> bool" where
  "isHotplugIndex s \<longleftrightarrow> \<not> (length s = 0 \<or> 2 < length s) \<and> list_all is_digit s"

function normalizeReaderName :: "string \<Rightarrow> string" where
  "normalizeReaderName reader =
     (case LastIndexByte reader (CHR '' '') of
        None \<Rightarrow> reader
      | Some lst \<Rightarrow>
          if lst = length reader - 1 then reader
          else if \<not> isHotplugIndex (drop (lst + 1) reader) then reader
          else normalizeReaderName (take lst reader))"
  by pat_completeness auto
termination
  by (relation "measure length") (auto dest: LastIndexByte_less)

declare normalizeReaderName.simps [simp del]

section \<open>Reader tags\<close>

definition readerV1_parts :: "string \<Rightarrow> byte list list" where
  "readerV1_parts reader =
     [bytes_of ''pcscid/reader/v1|'', bytes_of (normalizeReaderName reader)]"

definition ReaderTag :: "string \<Rightarrow> string" where
  "ReaderTag reader = btagFormat (digestID (readerV1_parts reader)) 8 [2, 6]"

definition readerV2_parts :: "string \<Rightarrow> string \<Rightarrow> byte list list" where
  "readerV2_parts reader serial =
     [bytes_of ''pcscid/reader/v2|'', bytes_of (normalizeReaderName reader), bytes_of ''|'',
      bytes_of serial]"

definition readerV3_parts :: "string \<Rightarrow> string \<Rightarrow> byte list list" where
  "readerV3_parts reader port =
     [bytes_of ''pcscid/reader/v3|'', bytes_of (normalizeReaderName reader), bytes_of ''|'',
      bytes_of port]"

definition ReaderTagWithUnit :: "string \<Rightarrow> string \<Rightarrow> string \<Rightarrow> string" where
  "ReaderTagWithUnit reader serial port =
     (if serial \<noteq> [] then btagFormat (digestID (readerV2_parts reader serial)) 8 [2, 6]
      else if port \<noteq> [] then btagFormat (digestID (readerV3_parts reader port)) 8 [2, 6]
      else ReaderTag reader)"

definition ReaderTagWithSerial :: "string \<Rightarrow> string \<Rightarrow> string" where
  "ReaderTagWithSerial reader serial = ReaderTagWithUnit reader serial []"

definition machine_unit :: "string \<Rightarrow> string \<Rightarrow> string" where
  "machine_unit serial port =
     (if serial \<noteq> [] then ''serial:'' @ serial
      else if port \<noteq> [] then ''port:'' @ port
      else ''model'')"

definition readerM1_parts :: "string \<Rightarrow> string \<Rightarrow> string \<Rightarrow> string \<Rightarrow> byte list list" where
  "readerM1_parts reader serial port machine =
     [bytes_of ''pcscid/reader/m1|'', bytes_of (normalizeReaderName reader), bytes_of ''|'',
      bytes_of (machine_unit serial port), bytes_of ''|'', bytes_of machine]"

definition ReaderTagWithMachine :: "string \<Rightarrow> string \<Rightarrow> string \<Rightarrow> string \<Rightarrow> string" where
  "ReaderTagWithMachine reader serial port machine =
     (if machine = [] then ReaderTagWithUnit reader serial port
      else btagFormat (digestID (readerM1_parts reader serial port machine)) 8 [2, 6])"

section \<open>Shape of a tag\<close>

text \<open>\<open>x\<close> of the pattern stands for a character of the alphabet, every other character for itself.\<close>

definition tag_shape :: "string \<Rightarrow> string \<Rightarrow> bool" where
  "tag_shape pattern s \<longleftrightarrow>
     list_all2 (\<lambda>p c. if p = CHR ''x'' then c \<in> set btagAlphabet else c = p) pattern s"

lemma length_btagAlphabet [simp]: "length btagAlphabet = 36"
  by (simp add: btagAlphabet_def)

lemma btag_char_in_alphabet [simp]: "btagAlphabet ! (n mod 36) \<in> set btagAlphabet"
  by (rule nth_mem) simp

lemma length_8_cases: "length xs = 8 \<Longrightarrow> \<exists>a b c d e f g h. xs = [a, b, c, d, e, f, g, h]"
  by (simp only: numeral_eq_Suc pred_numeral_simps BitM.simps numeral_One length_Suc_conv
      One_nat_def length_0_conv) blast

lemma length_10_cases:
  "length xs = 10 \<Longrightarrow> \<exists>a b c d e f g h i j. xs = [a, b, c, d, e, f, g, h, i, j]"
proof -
  assume "length xs = 10"
  then obtain ys a b where "xs = a # b # ys" "length ys = 8"
    by (cases xs; cases "tl xs") auto
  with length_8_cases [of ys] show ?thesis by blast
qed

lemma btagFormat_10: "10 \<le> length digest \<Longrightarrow> tag_shape ''xxx-xxx-xxxx'' (btagFormat digest 10 [3, 6])"
  using length_10_cases [of "take 10 digest"] by (auto simp: btagFormat_def tag_shape_def)

lemma btagFormat_8: "8 \<le> length digest \<Longrightarrow> tag_shape ''xx-xxxx-xx'' (btagFormat digest 8 [2, 6])"
  using length_8_cases [of "take 8 digest"] by (auto simp: btagFormat_def tag_shape_def)

lemma length_digestID [simp]: "length (digestID parts) = 32"
  by (simp add: digestID_def)

section \<open>Normalisation strips exactly the hotplug groups\<close>

lemma LastIndexByte_append:
  "LastIndexByte (xs @ ys) c =
     (case LastIndexByte ys c of Some i \<Rightarrow> Some (length xs + i) | None \<Rightarrow> LastIndexByte xs c)"
  by (induction xs) (auto split: option.split)

lemma LastIndexByte_None_iff: "LastIndexByte s c = None \<longleftrightarrow> c \<notin> set s"
  by (induction s) (auto split: option.splits)

lemma LastIndexByte_Some:
  "LastIndexByte s c = Some i \<Longrightarrow> take i s @ c # drop (Suc i) s = s \<and> c \<notin> set (drop (Suc i) s)"
proof (induction s arbitrary: i)
  case Nil
  then show ?case by simp
next
  case (Cons x s)
  show ?case
  proof (cases "LastIndexByte s c")
    case None
    with Cons.prems show ?thesis by (auto simp: LastIndexByte_None_iff split: if_splits)
  next
    case (Some k)
    with Cons.prems Cons.IH [OF Some] show ?thesis by auto
  qed
qed

lemma space_no_digit: "\<not> is_digit (CHR '' '')"
  by (simp add: is_digit_def)

lemma isHotplugIndex_no_space: "isHotplugIndex s \<Longrightarrow> CHR '' '' \<notin> set s \<and> s \<noteq> []"
  using space_no_digit unfolding isHotplugIndex_def list_all_iff by (metis length_0_conv)

lemma normalize_strip:
  assumes "isHotplugIndex idx"
  shows "normalizeReaderName (r @ CHR '' '' # idx) = normalizeReaderName r"
proof -
  have "LastIndexByte (CHR '' '' # idx) (CHR '' '') = Some 0"
    using isHotplugIndex_no_space [OF assms] LastIndexByte_None_iff [of idx "CHR '' ''"] by simp
  then have "LastIndexByte (r @ CHR '' '' # idx) (CHR '' '') = Some (length r)"
    by (simp add: LastIndexByte_append)
  then show ?thesis
    using assms isHotplugIndex_no_space [OF assms]
    by (subst normalizeReaderName.simps) simp
qed

text \<open>The hotplug suffix of a name: any number of index groups, each after a space.\<close>

fun hotplug_suffix :: "string list \<Rightarrow> string" where
  "hotplug_suffix [] = []"
| "hotplug_suffix (g # gs) = CHR '' '' # g @ hotplug_suffix gs"

lemma hotplug_suffix_snoc: "hotplug_suffix (gs @ [g]) = hotplug_suffix gs @ CHR '' '' # g"
  by (induction gs) simp_all

lemma normalize_strip_all:
  "list_all isHotplugIndex gs \<Longrightarrow> normalizeReaderName (r @ hotplug_suffix gs) = normalizeReaderName r"
proof (induction gs rule: rev_induct)
  case Nil
  then show ?case by simp
next
  case (snoc g gs)
  then show ?case
    using normalize_strip [of g "r @ hotplug_suffix gs"] by (simp add: hotplug_suffix_snoc)
qed

text \<open>What is left ends in no index group.\<close>

definition no_index_tail :: "string \<Rightarrow> bool" where
  "no_index_tail s \<longleftrightarrow> (\<forall>r idx. s = r @ CHR '' '' # idx \<longrightarrow> \<not> isHotplugIndex idx)"

lemma normalize_decompose:
  "\<exists>gs. list_all isHotplugIndex gs \<and> reader = normalizeReaderName reader @ hotplug_suffix gs"
proof (induction reader rule: normalizeReaderName.induct)
  case (1 reader)
  show ?case
  proof (cases "normalizeReaderName reader = reader")
    case True
    then show ?thesis by (intro exI [of _ "[]"]) simp
  next
    case False
    then obtain i where i: "LastIndexByte reader (CHR '' '') = Some i" "i \<noteq> length reader - 1"
        "isHotplugIndex (drop (i + 1) reader)"
      by (subst (asm) normalizeReaderName.simps) (auto split: option.splits if_splits)
    then have rec: "normalizeReaderName reader = normalizeReaderName (take i reader)"
      by (subst normalizeReaderName.simps) simp
    from 1 [OF i(1,2)] i(3) obtain gs where
      gs: "list_all isHotplugIndex gs" "take i reader = normalizeReaderName (take i reader) @ hotplug_suffix gs"
      by blast
    have "reader = take i reader @ CHR '' '' # drop (i + 1) reader"
      using LastIndexByte_Some [OF i(1)] by simp
    also have "\<dots> = normalizeReaderName reader @ hotplug_suffix (gs @ [drop (i + 1) reader])"
      using gs(2) rec by (simp only: hotplug_suffix_snoc append_assoc) (metis append_assoc)
    finally show ?thesis using gs(1) i(3) by (intro exI [of _ "gs @ [drop (i + 1) reader]"]) simp
  qed
qed

lemma normalize_no_index_tail: "no_index_tail (normalizeReaderName reader)"
proof (induction reader rule: normalizeReaderName.induct)
  case (1 reader)
  show ?case
  proof (cases "\<exists>r idx. reader = r @ CHR '' '' # idx \<and> isHotplugIndex idx")
    case False
    have "normalizeReaderName reader = reader"
    proof (rule ccontr)
      assume "normalizeReaderName reader \<noteq> reader"
      then obtain i where i: "LastIndexByte reader (CHR '' '') = Some i" "isHotplugIndex (drop (i + 1) reader)"
        by (subst (asm) normalizeReaderName.simps) (auto split: option.splits if_splits)
      then show False using False LastIndexByte_Some [OF i(1)] by (metis Suc_eq_plus1)
    qed
    with False show ?thesis by (auto simp: no_index_tail_def)
  next
    case True
    then obtain r idx where r: "reader = r @ CHR '' '' # idx" "isHotplugIndex idx" by blast
    have nf: "CHR '' '' \<notin> set idx" "idx \<noteq> []" using isHotplugIndex_no_space [OF r(2)] by simp_all
    then have last: "LastIndexByte reader (CHR '' '') = Some (length r)"
      using r(1) LastIndexByte_None_iff [of idx "CHR '' ''"] by (simp add: LastIndexByte_append)
    have "no_index_tail (normalizeReaderName (take (length r) reader))"
      by (rule 1 [OF last]) (use r nf in simp_all)
    then show ?thesis using normalize_strip [OF r(2), of r] r(1) by simp
  qed
qed

lemma normalize_of_no_tail: "no_index_tail s \<Longrightarrow> normalizeReaderName s = s"
proof -
  assume s: "no_index_tail s"
  obtain gs where gs: "list_all isHotplugIndex gs" "s = normalizeReaderName s @ hotplug_suffix gs"
    using normalize_decompose by blast
  show ?thesis
  proof (cases gs rule: rev_cases)
    case Nil
    with gs(2) show ?thesis by simp
  next
    case (snoc hs g)
    with gs have "s = (normalizeReaderName s @ hotplug_suffix hs) @ CHR '' '' # g" "isHotplugIndex g"
      by (simp_all add: hotplug_suffix_snoc)
    with s show ?thesis unfolding no_index_tail_def by blast
  qed
qed

lemma normalize_iff:
  "normalizeReaderName reader = base \<longleftrightarrow>
   no_index_tail base \<and> (\<exists>gs. list_all isHotplugIndex gs \<and> reader = base @ hotplug_suffix gs)"
  using normalize_decompose [of reader] normalize_no_index_tail [of reader]
    normalize_strip_all normalize_of_no_tail by metis

section \<open>Hash inputs\<close>

lemma append_sep_inject:
  "c \<notin> set xs \<Longrightarrow> c \<notin> set ys \<Longrightarrow> xs @ c # us = ys @ c # vs \<longleftrightarrow> xs = ys \<and> us = vs"
proof (induction xs arbitrary: ys)
  case Nil
  then show ?case by (cases ys) auto
next
  case (Cons x xs)
  then show ?case by (cases ys) auto
qed

lemma byte_in_bytes_of [simp]: "byte_of_char c \<in> set (bytes_of s) \<longleftrightarrow> c \<in> set s"
  by (auto simp: bytes_of_def) (metis char_of_byte_of_char)

lemma bytes_of_Cons [simp]: "bytes_of (c # s) = byte_of_char c # bytes_of s"
  and bytes_of_Nil [simp]: "bytes_of [] = []"
  by (simp_all add: bytes_of_def)

lemma byte_of_char_inject [simp]: "byte_of_char c = byte_of_char d \<longleftrightarrow> c = d"
  by (metis char_of_byte_of_char)

lemma machine_unit_inject:
  "machine_unit s p = machine_unit s' p' \<longleftrightarrow>
   (s, if s = [] then p else []) = (s', if s' = [] then p' else [])"
  by (auto simp: machine_unit_def)

section \<open>Properties\<close>

text \<open>
  Every btag has the form xxx-xxx-xxxx and every reader tag, in whatever hash domain, the
  form xx-xxxx-xx, where x is a digit or a lower case letter.
\<close>

theorem tag_shapes:
  "tag_shape ''xxx-xxx-xxxx'' (Btag cardType tag) \<and>
   tag_shape ''xx-xxxx-xx'' (ReaderTagWithMachine reader serial port machine)"
  by (simp add: Btag_def ReaderTagWithMachine_def ReaderTagWithUnit_def ReaderTag_def
      btagFormat_10 btagFormat_8)

text \<open>
  C35. Two cards whose types come from \<open>DetectType\<close> are hashed from the same bytes only when they
  have the same type and the same UID: the btag input never confuses where the type ends.
\<close>

theorem btag_input_injective:
  "concat (btag_parts (DetectType atr) uid) = concat (btag_parts (DetectType atr') uid') \<longleftrightarrow>
   DetectType atr = DetectType atr' \<and> uid = uid'"
  using DetectType_range_sep [of atr] DetectType_range_sep [of atr']
  by (simp add: btag_parts_def append_sep_inject)

text \<open>
  The five hash domains are separated: the input of a btag, of a model tag, of a serial tag,
  of a port tag and of a machine scoped tag are pairwise different whatever their arguments.
\<close>

theorem tag_domains_separated:
  "distinct [concat (btag_parts t u), concat (readerV1_parts r1), concat (readerV2_parts r2 s2),
     concat (readerV3_parts r3 p3), concat (readerM1_parts r4 s4 p4 m4)]"
  by (simp add: btag_parts_def readerV1_parts_def readerV2_parts_def readerV3_parts_def
      readerM1_parts_def)

text \<open>
  On one machine a serial and a port path never collide, not even with the same text: for
  one reader name and machine the hash input determines the unit fact that was used, the serial
  when there is one, otherwise the port, otherwise neither.
\<close>

theorem machine_input_unit:
  "concat (readerM1_parts r s p m) = concat (readerM1_parts r s' p' m) \<longleftrightarrow>
   (s, if s = [] then p else []) = (s', if s' = [] then p' else [])"
  by (simp add: readerM1_parts_def machine_unit_inject)

text \<open>
  Normalisation removes exactly the trailing hotplug index groups: the normalised name is
  the one way to write the reader name as a base that does not end in an index group followed by
  index groups.
\<close>

theorem normalizeReaderName_iff:
  "normalizeReaderName reader = base \<longleftrightarrow>
   no_index_tail base \<and> (\<exists>gs. list_all isHotplugIndex gs \<and> reader = base @ hotplug_suffix gs)"
  by (rule normalize_iff)

text \<open>
  Reader tags follow the hardware, not the hotplug order: adding any index groups to a
  reader name changes no tag of any tier.
\<close>

theorem reader_tag_hotplug_stable:
  assumes "list_all isHotplugIndex gs"
  shows "ReaderTagWithMachine (reader @ hotplug_suffix gs) serial port machine
    = ReaderTagWithMachine reader serial port machine"
  using normalize_strip_all [OF assms, of reader]
  by (simp add: ReaderTagWithMachine_def ReaderTagWithUnit_def ReaderTag_def readerV1_parts_def
      readerV2_parts_def readerV3_parts_def readerM1_parts_def)

theorem reader_tag_hotplug_stable_witness:
  "ReaderTagWithMachine ''ACS ACR122U 01 00 00'' ''A001'' [] []
    = ReaderTagWithMachine ''ACS ACR122U'' ''A001'' [] []"
  using reader_tag_hotplug_stable [of "[''01'', ''00'', ''00'']" "''ACS ACR122U''" "''A001''" "[]" "[]"]
  by (simp add: isHotplugIndex_def is_digit_def)

end
