(* ===== verification/Golden.thy ===== *)
theory Golden
  imports Tags
begin

text \<open>
  The identifiers pinned by the test suite, evaluated through the model: the SHA-256 compression,
  the tag formats and the name normalisation, all by the simplifier.
\<close>

section \<open>Golden digests\<close>

text \<open>Two digests the test suite pins through their tags, evaluated by the simplifier.\<close>

lemma digest_btag_mifare:
  "digestID (btag_parts ''mifare classic 1k'' [0x04, 0x11, 0x22, 0x33]) =
     [0x1B, 0x93, 0xD3, 0x4C, 0xD8, 0x49, 0x71, 0x58, 0x3A, 0x63, 0xCD, 0x8E, 0xF9, 0x46, 0xF5, 0xA9,
      0x53, 0x41, 0x0A, 0x02, 0x0B, 0xA7, 0x42, 0x99, 0x0B, 0xE3, 0x76, 0x64, 0x08, 0x73, 0xF4, 0x50]"
  unfolding digestID_def btag_parts_def sha256_def
  by (simp add: sha_pad_eval, simp add: sha_eval, simp add: sha_bytes_def)

lemma normalize_acr122u: "normalizeReaderName ''ACS ACR122U 01 00 00'' = ''ACS ACR122U''"
  by (simp add: normalizeReaderName.simps isHotplugIndex_def is_digit_def)

lemma digest_acr122u:
  "digestID (readerV1_parts ''ACS ACR122U 01 00 00'') =
     [0x62, 0x3F, 0x8D, 0xA5, 0x63, 0xA4, 0x7E, 0x95, 0xFD, 0x8A, 0xF0, 0xF6, 0x09, 0x9D, 0x39, 0xD5,
      0x46, 0xB1, 0xC8, 0x21, 0x7C, 0xF9, 0x81, 0xE7, 0xEB, 0xE9, 0x89, 0x91, 0x21, 0x71, 0x15, 0x1F]"
  unfolding digestID_def readerV1_parts_def normalize_acr122u sha256_def
  by (simp add: sha_pad_eval, simp add: sha_eval, simp add: sha_bytes_def)

text \<open>
  The derivation reproduces the pinned identifiers: the btag of a mifare classic 1k card with
  UID 04 11 22 33 is r3v-401-5gmr and the tag of the ACR122U model is qr-xlrk-i5.
\<close>

theorem golden_tags:
  "Btag ''mifare classic 1k'' [0x04, 0x11, 0x22, 0x33] = ''r3v-401-5gmr'' \<and>
   ReaderTag ''ACS ACR122U 01 00 00'' = ''qr-xlrk-i5''"
  by (simp add: Btag_def ReaderTag_def digest_btag_mifare digest_acr122u btagFormat_def
      btagAlphabet_def)

end
