(* ===== verification/Registry.thy ===== *)
theory Registry
  imports Prelude
begin

text \<open>
  The session registry of reader unit identities (\<open>readerid.go\<close>, \<open>unitRegistry\<close>): which serial
  and USB port each reader was last seen with, and which reader owns each port. A Go map is a map;
  \<open>adopt\<close> and \<open>forget\<close> return the new registry.

  The invariant \<open>reg_inv\<close> says that the two maps describe the same ownership. From it follow the
  promises the comments of the source make: a port belongs to one reader, the first claim wins,
  and a failed probe never loses an identity already known.
\<close>

section \<open>State and operations\<close>

record reader_facts =
  f_serial :: string
  f_port :: string
  f_uid :: "byte list"
  f_protocol :: u32

definition zero_facts :: reader_facts where
  "zero_facts = \<lparr>f_serial = [], f_port = [], f_uid = [], f_protocol = 0\<rparr>"

record unit_registry =
  reg_facts :: "string \<rightharpoonup> reader_facts"
  reg_byPort :: "string \<rightharpoonup> string"

definition newUnitRegistry :: unit_registry where
  "newUnitRegistry = \<lparr>reg_facts = Map.empty, reg_byPort = Map.empty\<rparr>"

definition cached :: "unit_registry \<Rightarrow> string \<Rightarrow> reader_facts" where
  "cached r reader = (case reg_facts r reader of Some f \<Rightarrow> f | None \<Rightarrow> zero_facts)"

text \<open>\<open>owner, taken := r.byPort[port]; taken && owner != reader\<close>\<close>

definition foreign_owner :: "(string \<rightharpoonup> string) \<Rightarrow> string \<Rightarrow> string \<Rightarrow> bool" where
  "foreign_owner byPort reader port =
     (case byPort port of Some owner \<Rightarrow> owner \<noteq> reader | None \<Rightarrow> False)"

definition adopt :: "unit_registry \<Rightarrow> string \<Rightarrow> reader_facts \<Rightarrow> reader_facts \<times> unit_registry" where
  "adopt r reader fresh =
     (let known = (reg_facts r reader \<noteq> None);
          old = cached r reader;
          byPort = reg_byPort r;
          adopted = fresh;
          adopted = (if f_serial adopted = [] \<and> known \<and> f_serial old \<noteq> []
                     then adopted\<lparr>f_serial := f_serial old\<rparr> else adopted);
          adopted = (if f_port adopted \<noteq> [] \<and> foreign_owner byPort reader (f_port adopted)
                     then adopted\<lparr>f_port := []\<rparr> else adopted);
          adopted = (if f_port adopted = [] \<and> known \<and> f_port old \<noteq> []
                       \<and> \<not> foreign_owner byPort reader (f_port old)
                     then adopted\<lparr>f_port := f_port old\<rparr> else adopted);
          byPort = (if known \<and> f_port old \<noteq> [] \<and> f_port old \<noteq> f_port adopted
                      \<and> byPort (f_port old) = Some reader
                    then byPort(f_port old := None) else byPort);
          byPort = (if f_port adopted \<noteq> [] then byPort(f_port adopted \<mapsto> reader) else byPort)
      in (adopted, \<lparr>reg_facts = (reg_facts r)(reader \<mapsto> adopted), reg_byPort = byPort\<rparr>))"

definition forget :: "unit_registry \<Rightarrow> string \<Rightarrow> unit_registry" where
  "forget r reader =
     (case reg_facts r reader of
        None \<Rightarrow> r
      | Some facts \<Rightarrow>
          \<lparr>reg_facts = (reg_facts r)(reader := None),
           reg_byPort = (if f_port facts \<noteq> [] \<and> reg_byPort r (f_port facts) = Some reader
                         then (reg_byPort r)(f_port facts := None) else reg_byPort r)\<rparr>)"

definition unitTier :: "string \<Rightarrow> string \<Rightarrow> string" where
  "unitTier serial port =
     (if serial \<noteq> [] then ''serial'' else if port \<noteq> [] then ''port'' else ''model'')"

section \<open>The ownership invariant\<close>

definition reg_inv :: "unit_registry \<Rightarrow> bool" where
  "reg_inv r \<longleftrightarrow>
     (\<forall>port owner. reg_byPort r port = Some owner \<longleftrightarrow>
        port \<noteq> [] \<and> (\<exists>f. reg_facts r owner = Some f \<and> f_port f = port))"

lemma reg_invD:
  "reg_inv r \<Longrightarrow> reg_byPort r port = Some owner \<Longrightarrow> port \<noteq> [] \<and> f_port (cached r owner) = port"
  by (fastforce simp: reg_inv_def cached_def)

lemma reg_inv_owner:
  "reg_inv r \<Longrightarrow> f_port (cached r reader) \<noteq> [] \<Longrightarrow> reg_byPort r (f_port (cached r reader)) = Some reader"
  by (auto simp: reg_inv_def cached_def zero_facts_def split: option.splits)

lemma facts_port_iff:
  "port \<noteq> [] \<Longrightarrow> (\<exists>f. reg_facts r owner = Some f \<and> f_port f = port) \<longleftrightarrow> f_port (cached r owner) = port"
  by (cases "reg_facts r owner") (auto simp: cached_def zero_facts_def)

lemma reg_inv_iff:
  "reg_inv r \<longleftrightarrow> (\<forall>port owner. reg_byPort r port = Some owner \<longleftrightarrow>
     port \<noteq> [] \<and> f_port (cached r owner) = port)"
  unfolding reg_inv_def by (simp add: facts_port_iff cong: conj_cong)

lemma reg_inv_nil: "reg_inv r \<Longrightarrow> reg_byPort r [] = None"
  by (cases "reg_byPort r []") (auto dest: reg_invD)

text \<open>Under the invariant the result of \<open>adopt\<close> has a short description.\<close>

definition adopted_port :: "unit_registry \<Rightarrow> string \<Rightarrow> string \<Rightarrow> string" where
  "adopted_port r reader fresh =
     (if fresh \<noteq> [] \<and> \<not> foreign_owner (reg_byPort r) reader fresh then fresh
      else f_port (cached r reader))"

definition adopted_serial :: "unit_registry \<Rightarrow> string \<Rightarrow> string \<Rightarrow> string" where
  "adopted_serial r reader fresh = (if fresh = [] then f_serial (cached r reader) else fresh)"

lemma cached_unknown [simp]: "reg_facts r reader = None \<Longrightarrow> cached r reader = zero_facts"
  by (simp add: cached_def)

lemma zero_facts_simps [simp]:
  "f_serial zero_facts = []" "f_port zero_facts = []" "f_uid zero_facts = []" "f_protocol zero_facts = 0"
  by (simp_all add: zero_facts_def)

lemma facts_update_id [simp]:
  "fresh\<lparr>f_serial := f_serial fresh\<rparr> = fresh" "fresh\<lparr>f_port := f_port fresh\<rparr> = fresh"
  "fresh\<lparr>f_serial := f_serial fresh, f_port := p\<rparr> = fresh\<lparr>f_port := p\<rparr>"
  "fresh\<lparr>f_serial := s, f_port := f_port fresh\<rparr> = fresh\<lparr>f_serial := s\<rparr>"
  by (cases fresh; simp)+

lemma adopt_result:
  assumes "reg_inv r"
  shows "fst (adopt r reader fresh) =
    fresh\<lparr>f_serial := adopted_serial r reader (f_serial fresh),
          f_port := adopted_port r reader (f_port fresh)\<rparr>"
proof -
  have own: "\<not> foreign_owner (reg_byPort r) reader (f_port (cached r reader))"
    using reg_inv_owner [OF assms, of reader] reg_inv_nil [OF assms]
    by (cases "f_port (cached r reader) = []") (simp_all add: foreign_owner_def)
  show ?thesis
  proof (cases "reg_facts r reader")
    case None
    then show ?thesis
      by (cases fresh) (simp add: adopt_def Let_def adopted_port_def adopted_serial_def)
  next
    case (Some f)
    with own show ?thesis
      by (cases fresh) (simp add: adopt_def Let_def adopted_port_def adopted_serial_def)
  qed
qed

lemma adopt_facts: "reg_facts (snd (adopt r reader fresh)) = (reg_facts r)(reader \<mapsto> fst (adopt r reader fresh))"
  by (simp add: adopt_def Let_def)

lemma cached_adopt:
  "cached (snd (adopt r reader fresh)) q = (if q = reader then fst (adopt r reader fresh) else cached r q)"
  by (simp add: cached_def adopt_facts)

lemma adopt_byPort:
  assumes "reg_inv r"
  shows "reg_byPort (snd (adopt r reader fresh)) =
    (let port = adopted_port r reader (f_port fresh); old = f_port (cached r reader);
         freed = (if old \<noteq> port then (reg_byPort r)(old := None) else reg_byPort r)
     in if port \<noteq> [] then freed(port \<mapsto> reader) else freed)"
proof -
  have nil: "reg_byPort r [] = None" by (rule reg_inv_nil [OF assms])
  have old: "f_port (cached r reader) \<noteq> [] \<Longrightarrow> reg_byPort r (f_port (cached r reader)) = Some reader"
    using reg_inv_owner [OF assms] .
  have port: "f_port (fst (adopt r reader fresh)) = adopted_port r reader (f_port fresh)"
    by (simp add: adopt_result [OF assms])
  have "reg_byPort (snd (adopt r reader fresh)) =
    (let port = f_port (fst (adopt r reader fresh)); old = f_port (cached r reader);
         freed = (if reg_facts r reader \<noteq> None \<and> old \<noteq> [] \<and> old \<noteq> port \<and> reg_byPort r old = Some reader
                  then (reg_byPort r)(old := None) else reg_byPort r)
     in if port \<noteq> [] then freed(port \<mapsto> reader) else freed)"
    by (simp add: adopt_def Let_def)
  then show ?thesis
    using nil old unfolding port
    by (cases "f_port (cached r reader) = []"; cases "reg_facts r reader = None")
      (auto simp: Let_def fun_upd_idem)
qed


section \<open>The invariant is kept\<close>

lemma reg_inv_new: "reg_inv newUnitRegistry"
  by (simp add: reg_inv_def newUnitRegistry_def)

lemma adopted_port_free:
  assumes "reg_inv r" and "reg_byPort r (adopted_port r reader fresh) = Some q"
  shows "q = reader"
proof (cases "fresh \<noteq> [] \<and> \<not> foreign_owner (reg_byPort r) reader fresh")
  case True
  then show ?thesis using assms(2) by (simp add: adopted_port_def foreign_owner_def)
next
  case False
  then have p: "adopted_port r reader fresh = f_port (cached r reader)"
    by (auto simp: adopted_port_def)
  then have "f_port (cached r reader) \<noteq> []" using assms reg_inv_nil by (metis option.distinct(1))
  from reg_inv_owner [OF assms(1) this] p assms(2) show ?thesis by simp
qed

lemma adopt_byPort_iff:
  assumes "reg_inv r"
  shows "reg_byPort (snd (adopt r reader fresh)) port = Some q \<longleftrightarrow>
    (if q = reader then port \<noteq> [] \<and> port = adopted_port r reader (f_port fresh)
     else reg_byPort r port = Some q)"
proof -
  note nil = reg_inv_nil [OF assms]
  have own: "reg_byPort r p = Some reader \<longleftrightarrow> p \<noteq> [] \<and> f_port (cached r reader) = p" for p
    using assms by (simp add: reg_inv_iff)
  have free: "reg_byPort r (adopted_port r reader (f_port fresh)) \<noteq> Some q" if "q \<noteq> reader"
    using adopted_port_free [OF assms] that by blast
  show ?thesis
  proof (cases "f_port (cached r reader) = []")
    case True
    then show ?thesis using free
      by (cases "q = reader") (auto simp: adopt_byPort [OF assms] Let_def own nil)
  next
    case False
    then have old: "reg_byPort r (f_port (cached r reader)) = Some reader" by (simp add: own)
    show ?thesis
    proof (cases "q = reader")
      case True
      then show ?thesis by (auto simp: adopt_byPort [OF assms] Let_def own)
    next
      case False
      then show ?thesis using free old by (auto simp: adopt_byPort [OF assms] Let_def)
    qed
  qed
qed

lemma reg_inv_adopt:
  assumes "reg_inv r"
  shows "reg_inv (snd (adopt r reader fresh))"
  unfolding reg_inv_iff
proof (intro allI)
  fix port q
  show "reg_byPort (snd (adopt r reader fresh)) port = Some q \<longleftrightarrow>
      port \<noteq> [] \<and> f_port (cached (snd (adopt r reader fresh)) q) = port"
  proof (cases "q = reader")
    case True
    have "fst (adopt r reader fresh) = fresh\<lparr>f_serial := adopted_serial r reader (f_serial fresh),
        f_port := adopted_port r reader (f_port fresh)\<rparr>"
      by (rule adopt_result [OF assms])
    then have "f_port (fst (adopt r reader fresh)) = adopted_port r reader (f_port fresh)" by simp
    with True show ?thesis
      by (simp only: adopt_byPort_iff [OF assms] cached_adopt if_True simp_thms) blast
  next
    case False
    then show ?thesis
      using assms [unfolded reg_inv_iff]
      by (simp only: adopt_byPort_iff [OF assms] cached_adopt if_False)
  qed
qed

lemma cached_forget:
  "cached (forget r reader) q = (if q = reader then zero_facts else cached r q)"
  by (auto simp: cached_def forget_def split: option.splits)

lemma forget_byPort_iff:
  assumes "reg_inv r"
  shows "reg_byPort (forget r reader) port = Some q \<longleftrightarrow> q \<noteq> reader \<and> reg_byPort r port = Some q"
proof (cases "reg_facts r reader")
  case None
  then have "reg_byPort r port \<noteq> Some reader" using assms by (simp add: reg_inv_def)
  then show ?thesis using None by (auto simp: forget_def)
next
  case (Some f)
  then have own: "reg_byPort r p = Some reader \<longleftrightarrow> p \<noteq> [] \<and> f_port f = p" for p
    using assms by (auto simp: reg_inv_def)
  show ?thesis
    using Some own [of port] own [of "f_port f"]
    by (cases "port = f_port f"; cases "f_port f = []") (auto simp: forget_def)
qed

lemma reg_inv_forget:
  assumes "reg_inv r"
  shows "reg_inv (forget r reader)"
  unfolding reg_inv_iff
proof (intro allI)
  fix port q
  have "f_port zero_facts = []" by simp
  then show "reg_byPort (forget r reader) port = Some q \<longleftrightarrow>
      port \<noteq> [] \<and> f_port (cached (forget r reader) q) = port"
    using assms [unfolded reg_inv_iff] unfolding forget_byPort_iff [OF assms] cached_forget
    by (cases "q = reader") (simp_all only: if_True if_False simp_thms, blast+)
qed

section \<open>Sessions\<close>

text \<open>
  A session applies \<open>adopt\<close> for every probed reader and \<open>forget\<close> for every reader that left.
\<close>

datatype reg_op = Adopt string reader_facts | Forget string

definition reg_step :: "unit_registry \<Rightarrow> reg_op \<Rightarrow> unit_registry" where
  "reg_step r e = (case e of Adopt reader fresh \<Rightarrow> snd (adopt r reader fresh)
                           | Forget reader \<Rightarrow> forget r reader)"

interpretation registry: invariant_machine newUnitRegistry reg_step reg_inv
  by unfold_locales
    (simp_all add: reg_inv_new reg_step_def reg_inv_adopt reg_inv_forget split: reg_op.split)

definition session :: "reg_op list \<Rightarrow> unit_registry" where
  "session ops = foldl reg_step newUnitRegistry ops"

lemma session_inv: "reg_inv (session ops)"
  unfolding session_def by (rule registry.reachable_inv)

section \<open>Properties\<close>

text \<open>
  C10. Two readers never share a port. In every session, when the registry's facts of two readers
  name the same USB port (and the port is not empty), the two readers are the same one, and
  \<open>byPort\<close> names it as the owner.
\<close>

theorem ports_not_shared:
  assumes "f_port (cached (session ops) q1) = port" and "f_port (cached (session ops) q2) = port"
    and "port \<noteq> []"
  shows "q1 = q2 \<and> reg_byPort (session ops) port = Some q1"
  using reg_inv_owner [OF session_inv, of ops q1] reg_inv_owner [OF session_inv, of ops q2] assms
  by auto

text \<open>Two readers of one port, one of them refused, then the owner leaves and the other is probed again.\<close>

definition usb_facts :: "string \<Rightarrow> string \<Rightarrow> reader_facts" where
  "usb_facts serial port = \<lparr>f_serial = serial, f_port = port, f_uid = [], f_protocol = 0\<rparr>"

definition moving_session :: "reg_op list" where
  "moving_session =
     [Adopt ''A'' (usb_facts '''' ''3-4''), Adopt ''B'' (usb_facts ''S'' ''3-4''),
      Forget ''A'', Adopt ''B'' (usb_facts '''' ''3-4'')]"

lemmas session_eval = session_def moving_session_def usb_facts_def reg_step_def adopt_def forget_def
  newUnitRegistry_def cached_def zero_facts_def foreign_owner_def Let_def

lemma ports_not_shared_witness:
  "f_port (cached (session moving_session) ''B'') = ''3-4''
     \<and> reg_byPort (session moving_session) ''3-4'' = Some ''B''"
proof -
  have "f_port (cached (session moving_session) ''B'') = ''3-4''"
    by (simp add: session_eval)
  with ports_not_shared [of moving_session "''B''" "''3-4''" "''B''"] show ?thesis
    by simp
qed

text \<open>
  The first claim wins. In every session, probing another reader (whatever its probe resolved)
  leaves an owned port with its owner, leaves the owner's remembered identity as it was, and never
  answers that port for the other reader.
\<close>

theorem first_claim_wins:
  assumes "reg_byPort (session ops) port = Some owner" and "reader \<noteq> owner"
  shows "reg_byPort (snd (adopt (session ops) reader fresh)) port = Some owner
    \<and> cached (snd (adopt (session ops) reader fresh)) owner = cached (session ops) owner
    \<and> f_port (fst (adopt (session ops) reader fresh)) \<noteq> port"
  using assms adopted_port_free [OF session_inv, of ops reader "f_port fresh" owner]
  by (auto simp: adopt_byPort_iff [OF session_inv] cached_adopt adopt_result [OF session_inv])

lemma first_claim_wins_witness:
  "f_port (fst (adopt (session [Adopt ''A'' (usb_facts '''' ''3-4'')]) ''B''
     (usb_facts ''S'' ''3-4''))) \<noteq> ''3-4''"
proof -
  have "reg_byPort (session [Adopt ''A'' (usb_facts '''' ''3-4'')]) ''3-4'' = Some ''A''"
    by (simp add: session_eval)
  from first_claim_wins [OF this, of "''B''"] show ?thesis by simp
qed

definition failed_probes_of :: "string \<Rightarrow> reg_op \<Rightarrow> bool" where
  "failed_probes_of reader e \<longleftrightarrow>
     (case e of Adopt q fresh \<Rightarrow> q \<noteq> reader \<or> f_serial fresh = [] \<and> f_port fresh = []
              | Forget q \<Rightarrow> q \<noteq> reader)"

lemma failed_step_keeps:
  assumes "reg_inv r" and "failed_probes_of reader e"
  shows "f_serial (cached (reg_step r e) reader) = f_serial (cached r reader)
    \<and> f_port (cached (reg_step r e) reader) = f_port (cached r reader)"
  using assms
  by (cases e) (auto simp: failed_probes_of_def reg_step_def cached_adopt cached_forget adopt_result
      adopted_port_def adopted_serial_def)

text \<open>
  C36. An identity never flips. Once a session knows a serial or a port of a reader, no further run
  in which that reader's own probes fail (they resolve nothing) and it does not leave changes
  either of them, whatever the other readers' probes resolve in between.
\<close>

theorem identity_never_flips:
  assumes "list_all (failed_probes_of reader) later"
  shows "f_serial (cached (session (ops @ later)) reader) = f_serial (cached (session ops) reader)
    \<and> f_port (cached (session (ops @ later)) reader) = f_port (cached (session ops) reader)"
proof -
  let ?P = "\<lambda>r. f_serial (cached r reader) = f_serial (cached (session ops) reader)
    \<and> f_port (cached r reader) = f_port (cached (session ops) reader)"
  have "?P (foldl reg_step (session ops) later)"
    by (rule registry.run_stable [where P = ?P, OF _ session_inv])
      (use assms failed_step_keeps in \<open>auto simp: list_all_iff\<close>)
  then show ?thesis by (simp add: session_def)
qed

lemma identity_never_flips_witness:
  "f_port (cached (session ([Adopt ''B'' (usb_facts ''S'' ''3-4'')] @
     [Adopt ''B'' (usb_facts '''' ''''), Adopt ''A'' (usb_facts '''' ''3-4'')])) ''B'') = ''3-4''"
proof -
  have "list_all (failed_probes_of ''B'')
      [Adopt ''B'' (usb_facts '''' ''''), Adopt ''A'' (usb_facts '''' ''3-4'')]"
    by (simp add: failed_probes_of_def usb_facts_def)
  from identity_never_flips [OF this, of "[Adopt ''B'' (usb_facts ''S'' ''3-4'')]"]
  show ?thesis by (simp add: session_eval)
qed

text \<open>
  What \<open>adopt\<close> answers. In every session the answered identity carries the fresh UID and protocol;
  a fresh serial wins over the remembered one; the answered port is the fresh one unless it is
  empty or owned by another reader, and then it is the port the reader already had.
\<close>

theorem adopt_answers:
  "fst (adopt (session ops) reader fresh) =
     \<lparr>f_serial = (if f_serial fresh = [] then f_serial (cached (session ops) reader) else f_serial fresh),
      f_port = (if f_port fresh = [] \<or> foreign_owner (reg_byPort (session ops)) reader (f_port fresh)
                then f_port (cached (session ops) reader) else f_port fresh),
      f_uid = f_uid fresh, f_protocol = f_protocol fresh\<rparr>"
  by (cases fresh) (auto simp: adopt_result [OF session_inv] adopted_port_def adopted_serial_def)

text \<open>
  Forgetting a reader releases exactly its claim: the reader is unknown afterwards, its port is
  free for the next reader that resolves it, and every other reader keeps identity and port.
\<close>

theorem forget_releases:
  "cached (forget (session ops) reader) q =
      (if q = reader then zero_facts else cached (session ops) q)
    \<and> reg_byPort (forget (session ops) reader) port =
      (if reg_byPort (session ops) port = Some reader then None else reg_byPort (session ops) port)"
proof -
  have "reg_byPort (forget (session ops) reader) port =
      (if reg_byPort (session ops) port = Some reader then None else reg_byPort (session ops) port)"
    by (rule option_eqI) (auto simp: forget_byPort_iff [OF session_inv])
  then show ?thesis by (simp add: cached_forget)
qed

end
