(* ===== verification/Events.thy ===== *)
theory Events
  imports GoText
begin

text \<open>
  The public data of the library (\<open>pcscid.go\<close>): cards and reader events as the watch loop emits
  them and the bridge and the sample app consume them. A nil byte slice is the empty list, a nil
  pointer is \<open>None\<close>.
\<close>

type_synonym i64 = "64 word"

text \<open>\<open>type Kind uint8\<close>\<close>

type_synonym Kind = byte

definition KindInsert :: Kind where "KindInsert = 0"
definition KindRemove :: Kind where "KindRemove = 1"

definition Kind_String :: "Kind \<Rightarrow> string" where
  "Kind_String k =
     (if k = KindInsert then ''insert'' else if k = KindRemove then ''remove''
      else ''kind('' @ Itoa (unat k) @ '')'')"

record Card =
  card_ID :: string
  card_Type :: string
  card_UID :: "byte list"
  card_ATR :: "byte list"
  card_Reader :: string
  card_Source :: string

record Event =
  ev_Kind :: Kind
  ev_Card :: "Card option"
  ev_Reader :: string
  ev_ReaderTag :: string
  ev_ReaderSerial :: string
  ev_ReaderPort :: string

end
