(* ===== verification/Bridge.thy ===== *)
theory Bridge
  imports "HOL-Library.AList" "HOL-Library.Sublist" Events Tags
begin

text \<open>
  The browser bridge (\<open>bridge.go\<close>): the hub with its bounded replay buffer and its subscribers, the
  dedup filter, and \<open>Feed\<close>, which turns watch events into presentations.

  The wall clock is explicit: an operation that calls \<open>time.Now()\<close> takes the instant, in nanoseconds,
  as an argument, and \<open>Sub\<close> is \<open>Time.Sub\<close> with its saturation. Presentation ids are 64-bit words read
  as signed. A subscriber's channel is the queue of at most 16 events that a non blocking send
  appends to; \<open>h_made\<close> numbers the channels. The locks make every operation atomic, so an
  interleaving of goroutines is a sequence of operations.
\<close>

section \<open>State\<close>

definition bridgeCapacity :: i64 where "bridgeCapacity = 64"
definition bridgeDedupWindow :: i64 where "bridgeDedupWindow = 3 * 1000000000"
definition bridgeStartupGrace :: i64 where "bridgeStartupGrace = 2 * 1000000000"
definition bridgeDedupMax :: nat where "bridgeDedupMax = 1024"

record BridgeEvent =
  be_ID :: i64
  be_Reader :: string
  be_Card :: string
  be_Sig :: string

record bridgeHub =
  h_next :: i64
  h_cap :: nat
  h_buf :: "BridgeEvent list"
  h_subs :: "nat \<rightharpoonup> BridgeEvent list"
  h_made :: nat

record bridgeDedup =
  d_window :: i64
  d_grace :: i64
  d_start :: int
  d_last :: "(string \<times> int) list"

text \<open>A signer is its method value \<open>Sign\<close>.\<close>

type_synonym Signer = "byte list \<Rightarrow> string"

record BridgeOptions =
  o_Capacity :: i64
  o_DedupWindow :: i64
  o_StartupGrace :: i64
  o_Signer :: "Signer option"

record Bridge =
  b_hub :: bridgeHub
  b_dd :: bridgeDedup
  b_signer :: "Signer option"

section \<open>The hub\<close>

definition newBridgeHub :: "nat \<Rightarrow> bridgeHub" where
  "newBridgeHub capacity =
     \<lparr>h_next = 0, h_cap = capacity, h_buf = [], h_subs = Map.empty, h_made = 0\<rparr>"

text \<open>\<open>select { case ch <- ev: default: }\<close> on a channel of capacity 16\<close>

definition try_send :: "BridgeEvent \<Rightarrow> BridgeEvent list \<Rightarrow> BridgeEvent list" where
  "try_send ev q = (if length q < 16 then q @ [ev] else q)"

definition add :: "bridgeHub \<Rightarrow> string \<Rightarrow> string \<Rightarrow> string \<Rightarrow> BridgeEvent \<times> bridgeHub" where
  "add h reader btag sig =
     (let nxt = h_next h + 1;
          ev = \<lparr>be_ID = nxt, be_Reader = reader, be_Card = btag, be_Sig = sig\<rparr>;
          buf = h_buf h @ [ev];
          buf = (if h_cap h < length buf then drop (length buf - h_cap h) buf else buf)
      in (ev, h\<lparr>h_next := nxt, h_buf := buf,
                h_subs := (\<lambda>ch. map_option (try_send ev) (h_subs h ch))\<rparr>))"

definition since :: "bridgeHub \<Rightarrow> i64 \<Rightarrow> BridgeEvent list" where
  "since h after = filter (\<lambda>ev. after <s be_ID ev) (h_buf h)"

definition subscribe :: "bridgeHub \<Rightarrow> nat \<times> bridgeHub" where
  "subscribe h = (h_made h, h\<lparr>h_subs := (h_subs h)(h_made h \<mapsto> []), h_made := Suc (h_made h)\<rparr>)"

definition cancel :: "bridgeHub \<Rightarrow> nat \<Rightarrow> bridgeHub" where
  "cancel h ch = h\<lparr>h_subs := (h_subs h)(ch := None)\<rparr>"

text \<open>\<open>case ev := <-ch\<close> of the event stream\<close>

definition receive :: "bridgeHub \<Rightarrow> nat \<Rightarrow> BridgeEvent option \<times> bridgeHub" where
  "receive h ch =
     (case h_subs h ch of
        Some (ev # q) \<Rightarrow> (Some ev, h\<lparr>h_subs := (h_subs h)(ch \<mapsto> q)\<rparr>)
      | _ \<Rightarrow> (None, h))"

section \<open>The dedup filter\<close>

definition newBridgeDedup :: "i64 \<Rightarrow> i64 \<Rightarrow> int \<Rightarrow> bridgeDedup" where
  "newBridgeDedup window grace now = \<lparr>d_window = window, d_grace = grace, d_start = now, d_last = []\<rparr>"

definition Sub :: "int \<Rightarrow> int \<Rightarrow> i64" where
  "Sub now t = word_of_int (max (- (2 ^ 63)) (min (2 ^ 63 - 1) (now - t)))"

definition allow :: "bridgeDedup \<Rightarrow> int \<Rightarrow> string \<Rightarrow> string \<Rightarrow> bool \<times> bridgeDedup" where
  "allow d now reader btag =
     (if Sub now (d_start d) <s d_grace d then (False, d)
      else let key = reader @ ''|'' @ btag in
      if (case map_of (d_last d) key of Some t \<Rightarrow> Sub now t <s d_window d | None \<Rightarrow> False)
      then (False, d\<lparr>d_last := AList.update key now (d_last d)\<rparr>)
      else let tab = d_last d;
               tab = (if bridgeDedupMax \<le> length tab
                      then let kept = filter (\<lambda>(k, t). \<not> d_window d \<le>s Sub now t) tab
                           in if bridgeDedupMax \<le> length kept then [] else kept
                      else tab)
           in (True, d\<lparr>d_last := AList.update key now tab\<rparr>))"

section \<open>The bridge\<close>

definition NewBridge :: "BridgeOptions option \<Rightarrow> int \<Rightarrow> Bridge" where
  "NewBridge opts now =
     (let pick = (\<lambda>field dflt. case opts of None \<Rightarrow> dflt | Some o' \<Rightarrow> if 0 <s field o' then field o' else dflt);
          capacity = pick o_Capacity bridgeCapacity;
          window = pick o_DedupWindow bridgeDedupWindow;
          grace = pick o_StartupGrace bridgeStartupGrace;
          signer = (case opts of None \<Rightarrow> None | Some o' \<Rightarrow> o_Signer o')
      in \<lparr>b_hub = newBridgeHub (nat (sint capacity)), b_dd = newBridgeDedup window grace now, b_signer = signer\<rparr>)"

definition signedLine :: "Bridge \<Rightarrow> string \<Rightarrow> string \<Rightarrow> string" where
  "signedLine b reader btag =
     (case b_signer b of None \<Rightarrow> []
      | Some sign \<Rightarrow> sign (bytes_of (''#'' @ reader @ '':'' @ btag)))"

definition Feed :: "Bridge \<Rightarrow> int \<Rightarrow> Event \<Rightarrow> Bridge" where
  "Feed b now ev =
     (if ev_Kind ev \<noteq> KindInsert then b else
      case ev_Card ev of None \<Rightarrow> b
      | Some c \<Rightarrow>
          let reader = ev_ReaderTag ev;
              reader = (if reader = [] then ReaderTagWithUnit (ev_Reader ev) (ev_ReaderSerial ev) (ev_ReaderPort ev)
                        else reader);
              btag = card_ID c;
              (ok, dd) = allow (b_dd b) now reader btag
          in if ok then b\<lparr>b_dd := dd, b_hub := snd (add (b_hub b) reader btag (signedLine b reader btag))\<rparr>
             else b\<lparr>b_dd := dd\<rparr>)"

section \<open>Presentations in the hub\<close>

text \<open>The presentations are numbered from one on.\<close>

definition presentation :: "nat \<Rightarrow> string \<times> string \<times> string \<Rightarrow> BridgeEvent" where
  "presentation i p = (case p of (reader, btag, sig) \<Rightarrow>
     \<lparr>be_ID = word_of_nat i, be_Reader = reader, be_Card = btag, be_Sig = sig\<rparr>)"

definition numbered :: "nat \<Rightarrow> (string \<times> string \<times> string) list \<Rightarrow> BridgeEvent list" where
  "numbered n ps = map (\<lambda>(i, p). presentation i p) (enumerate (Suc n) ps)"

definition add_all :: "bridgeHub \<Rightarrow> (string \<times> string \<times> string) list \<Rightarrow> bridgeHub" where
  "add_all h ps = foldl (\<lambda>h (reader, btag, sig). snd (add h reader btag sig)) h ps"

text \<open>\<open>keep_last\<close> is what the ring keeps of a list.\<close>

definition keep_last :: "nat \<Rightarrow> 'a list \<Rightarrow> 'a list" where
  "keep_last k xs = drop (length xs - k) xs"

lemma keep_last_snoc: "keep_last k (keep_last k xs @ [x]) = keep_last k (xs @ [x])"
proof (cases k)
  case (Suc m)
  then show ?thesis by (cases "length xs \<le> m") (auto simp: keep_last_def Suc_diff_Suc)
qed (simp add: keep_last_def)

lemma length_numbered [simp]: "length (numbered n ps) = length ps"
  by (simp add: numbered_def)

lemma numbered_snoc: "numbered n (ps @ [p]) = numbered n ps @ [presentation (Suc (n + length ps)) p]"
  by (simp add: numbered_def enumerate_append_eq)

lemma hub_after:
  "h_next (add_all (newBridgeHub cap) ps) = word_of_nat (length ps)
   \<and> h_cap (add_all (newBridgeHub cap) ps) = cap
   \<and> h_buf (add_all (newBridgeHub cap) ps) = keep_last cap (numbered 0 ps)"
proof (induction ps rule: rev_induct)
  case Nil
  then show ?case by (simp add: add_all_def newBridgeHub_def keep_last_def numbered_def)
next
  case (snoc p ps)
  let ?h = "add_all (newBridgeHub cap) ps"
  obtain reader btag sig where p: "p = (reader, btag, sig)" by (cases p)
  have h: "add_all (newBridgeHub cap) (ps @ [p]) = snd (add ?h reader btag sig)"
    by (simp add: add_all_def p)
  have "h_buf (snd (add ?h reader btag sig)) = keep_last cap (h_buf ?h @ [presentation (Suc (length ps)) p])"
    using snoc by (simp add: add_def Let_def presentation_def p keep_last_def add.commute)
  with snoc show ?case
    unfolding h by (simp add: numbered_snoc keep_last_snoc) (simp add: add_def Let_def add.commute)
qed

lemma sint_word_of_nat: "i < 2 ^ 63 \<Longrightarrow> sint (word_of_nat i :: i64) = int i"
  by (simp add: sint_uint uint_nat unat_of_nat take_bit_nat_eq_self signed_take_bit_int_eq_self)

lemma sless_iff: "a <s b \<longleftrightarrow> sint a < sint (b :: i64)"
  by (simp add: word_sless_alt)

lemma numbered_Cons: "numbered m (q # qs) = presentation (Suc m) q # numbered (Suc m) qs"
  by (simp add: numbered_def)

lemma drop_numbered: "drop k (numbered m qs) = numbered (m + k) (drop k qs)"
  by (induction qs arbitrary: k m) (auto simp: numbered_Cons drop_Cons' numbered_def [of _ "[]"])

lemma be_ID_presentation [simp]: "be_ID (presentation i p) = word_of_nat i"
  by (cases p) (simp add: presentation_def)

lemma filter_numbered:
  "m + length qs < 2 ^ 63 \<Longrightarrow>
   filter (\<lambda>ev. after <s be_ID ev) (numbered m qs) = drop (nat (sint after) - m) (numbered m qs)"
proof (induction qs arbitrary: m)
  case (Cons q qs)
  then have "after <s word_of_nat (Suc m) \<longleftrightarrow> nat (sint after) \<le> m"
    by (simp add: sless_iff sint_word_of_nat del: of_nat_Suc) linarith
  moreover have "filter (\<lambda>ev. after <s be_ID ev) (numbered (Suc m) qs)
      = drop (nat (sint after) - Suc m) (numbered (Suc m) qs)"
    using Cons by simp
  moreover have "nat (sint after) - m = Suc (nat (sint after) - Suc m)" if "\<not> nat (sint after) \<le> m"
    using that by simp
  ultimately show ?case by (auto simp: numbered_Cons simp del: of_nat_Suc)
qed (simp add: numbered_def)

lemma since_after:
  assumes "length ps < 2 ^ 63"
  shows "since (add_all (newBridgeHub cap) ps) after =
    (let k = max (nat (sint after)) (length ps - cap) in numbered k (drop k ps))"
proof -
  let ?m = "length ps - cap"
  have "since (add_all (newBridgeHub cap) ps) after = filter (\<lambda>ev. after <s be_ID ev) (numbered ?m (drop ?m ps))"
    by (simp add: since_def hub_after keep_last_def drop_numbered)
  also have "\<dots> = drop (nat (sint after) - ?m) (numbered ?m (drop ?m ps))"
    using assms by (intro filter_numbered) simp
  also have "\<dots> = numbered (?m + (nat (sint after) - ?m)) (drop (?m + (nat (sint after) - ?m)) ps)"
    by (simp add: drop_numbered add.commute)
  finally show ?thesis by (simp add: max_def Let_def)
qed

section \<open>Dedup against its specification\<close>

lemma Sub_less: "t \<le> now \<Longrightarrow> Sub now t <s w \<longleftrightarrow> now - t < sint w"
proof -
  assume "t \<le> now"
  then have "sint (Sub now t) = min (2 ^ 63 - 1) (now - t)"
    by (simp add: Sub_def sint_sbintrunc' signed_take_bit_int_eq_self)
  moreover have "sint w \<le> 2 ^ 63 - 1" using sint_lt [of w] by simp
  ultimately show ?thesis unfolding sless_iff min_def by auto
qed

lemma Sub_ge: "t \<le> now \<Longrightarrow> w \<le>s Sub now t \<longleftrightarrow> sint w \<le> now - t"
  using Sub_less [of t now w] by (simp add: sless_iff word_sle_eq not_less) linarith

text \<open>
  The specification keeps the whole history of calls after the startup grace and suppresses a
  pair that was seen less than the window ago, whether or not it was forwarded then.
\<close>

definition seen_within :: "int \<Rightarrow> (int \<times> string \<times> string) list \<Rightarrow> int \<Rightarrow> string \<Rightarrow> string \<Rightarrow> bool" where
  "seen_within window hist now reader btag \<longleftrightarrow>
     list_ex (\<lambda>(t, r, c). r = reader \<and> c = btag \<and> now - t < window) hist"

fun spec_allow :: "int \<Rightarrow> int \<Rightarrow> int \<Rightarrow> (int \<times> string \<times> string) list \<Rightarrow>
    (int \<times> string \<times> string) list \<Rightarrow> bool list" where
  "spec_allow start grace window hist [] = []"
| "spec_allow start grace window hist ((now, reader, btag) # calls) =
     (if now - start < grace then False # spec_allow start grace window hist calls
      else (\<not> seen_within window hist now reader btag)
        # spec_allow start grace window ((now, reader, btag) # hist) calls)"

fun allow_all :: "bridgeDedup \<Rightarrow> (int \<times> string \<times> string) list \<Rightarrow> bool list \<times> bridgeDedup" where
  "allow_all d [] = ([], d)"
| "allow_all d ((now, reader, btag) # calls) =
     (let (ok, d') = allow d now reader btag; (oks, d'') = allow_all d' calls in (ok # oks, d''))"

subsection \<open>The table is bounded\<close>

lemma length_update: "length (AList.update k v al) = (if k \<in> fst ` set al then length al else Suc (length al))"
  by (induction al) auto

definition dedup_inv :: "bridgeDedup \<Rightarrow> bool" where
  "dedup_inv d \<longleftrightarrow> distinct (map fst (d_last d)) \<and> length (d_last d) \<le> bridgeDedupMax"

definition dedup_step :: "bridgeDedup \<Rightarrow> int \<times> string \<times> string \<Rightarrow> bridgeDedup" where
  "dedup_step d call = (case call of (now, reader, btag) \<Rightarrow> snd (allow d now reader btag))"

lemma distinct_filter_keys: "distinct (map fst al) \<Longrightarrow> distinct (map fst (filter P al))"
  by (induction al) auto

definition dedup_key :: "string \<times> string \<Rightarrow> string" where
  "dedup_key p = fst p @ ''|'' @ snd p"

definition pruned :: "bridgeDedup \<Rightarrow> int \<Rightarrow> (string \<times> int) list" where
  "pruned d now =
     (let kept = filter (\<lambda>(k, t). \<not> d_window d \<le>s Sub now t) (d_last d)
      in if bridgeDedupMax \<le> length (d_last d)
         then if bridgeDedupMax \<le> length kept then [] else kept else d_last d)"

lemma allow_cases:
  "allow d now reader btag =
     (if Sub now (d_start d) <s d_grace d then (False, d)
      else if (case map_of (d_last d) (dedup_key (reader, btag)) of Some t \<Rightarrow> Sub now t <s d_window d | None \<Rightarrow> False)
      then (False, d\<lparr>d_last := AList.update (dedup_key (reader, btag)) now (d_last d)\<rparr>)
      else (True, d\<lparr>d_last := AList.update (dedup_key (reader, btag)) now (pruned d now)\<rparr>))"
  by (simp add: allow_def pruned_def dedup_key_def Let_def)

lemma pruned_room:
  assumes "dedup_inv d"
  shows "distinct (map fst (pruned d now))" and "length (pruned d now) < bridgeDedupMax"
proof -
  show "distinct (map fst (pruned d now))"
    using assms by (simp add: dedup_inv_def pruned_def Let_def distinct_filter_keys)
  show "length (pruned d now) < bridgeDedupMax"
    by (simp add: pruned_def Let_def bridgeDedupMax_def)
qed

lemma allow_inv: "dedup_inv d \<Longrightarrow> dedup_inv (snd (allow d now reader btag))"
proof -
  assume inv: "dedup_inv d"
  then have dist: "distinct (map fst (d_last d))" and le: "length (d_last d) \<le> bridgeDedupMax"
    by (simp_all add: dedup_inv_def)
  let ?key = "dedup_key (reader, btag)"
  have "dedup_inv (d\<lparr>d_last := AList.update ?key now (d_last d)\<rparr>)" if "map_of (d_last d) ?key = Some t" for t
  proof -
    have "?key \<in> fst ` set (d_last d)" using map_of_SomeD [OF that] by force
    then show ?thesis using dist le by (simp add: dedup_inv_def length_update distinct_update)
  qed
  moreover have "dedup_inv (d\<lparr>d_last := AList.update ?key now (pruned d now)\<rparr>)"
    using pruned_room [OF inv, of now] by (simp add: dedup_inv_def length_update distinct_update)
  ultimately show ?thesis
    using inv by (cases "map_of (d_last d) ?key") (simp_all add: allow_cases)
qed

subsection \<open>The simulation\<close>

definition barless :: "string \<Rightarrow> bool" where
  "barless s \<longleftrightarrow> CHR ''|'' \<notin> set s"

lemma dedup_key_inject:
  "barless c \<Longrightarrow> barless c' \<Longrightarrow> dedup_key (r, c) = dedup_key (r', c') \<Longrightarrow> r = r' \<and> c = c'"
proof -
  assume "barless c" "barless c'" "dedup_key (r, c) = dedup_key (r', c')"
  then have "rev c @ CHR ''|'' # rev r = rev c' @ CHR ''|'' # rev r'"
    by (metis dedup_key_def fst_conv snd_conv rev_append append_Cons append_Nil append_assoc rev.simps)
  moreover have "takeWhile (\<lambda>x. x \<noteq> CHR ''|'') (rev c @ CHR ''|'' # rev r) = rev c"
    if "barless c" for c r
    using that by (subst takeWhile_append2) (auto simp: barless_def)
  ultimately show ?thesis using \<open>barless c\<close> \<open>barless c'\<close> by (metis append_same_eq list.inject rev_rev_ident same_append_eq)
qed

text \<open>The table holds only calls of the history, and every recent call or a later one of its pair.\<close>

definition dedup_sim :: "int \<Rightarrow> bridgeDedup \<Rightarrow> (int \<times> string \<times> string) list \<Rightarrow> bool" where
  "dedup_sim now d hist \<longleftrightarrow> distinct (map fst (d_last d))
     \<and> (\<forall>k t. map_of (d_last d) k = Some t \<longrightarrow> t \<le> now \<and> (\<exists>r c. k = dedup_key (r, c) \<and> (t, r, c) \<in> set hist))
     \<and> (\<forall>(t, r, c) \<in> set hist. barless c \<and> t \<le> now \<and>
          (now - t < sint (d_window d) \<longrightarrow> (\<exists>t' \<ge> t. map_of (d_last d) (dedup_key (r, c)) = Some t')))"

lemma dedup_sim_mono: "dedup_sim now d hist \<Longrightarrow> now \<le> now' \<Longrightarrow> dedup_sim now' d hist"
  unfolding dedup_sim_def by (fastforce dest: order_trans)

lemma sim_suppressed_iff:
  assumes "dedup_sim now d hist" and "barless btag"
  shows "(case map_of (d_last d) (dedup_key (reader, btag)) of Some t \<Rightarrow> Sub now t <s d_window d | None \<Rightarrow> False)
    \<longleftrightarrow> seen_within (sint (d_window d)) hist now reader btag"
proof
  assume "case map_of (d_last d) (dedup_key (reader, btag)) of Some t \<Rightarrow> Sub now t <s d_window d | None \<Rightarrow> False"
  then obtain t where t: "map_of (d_last d) (dedup_key (reader, btag)) = Some t" "Sub now t <s d_window d"
    by (auto split: option.splits)
  have "t \<le> now \<and> (\<exists>r c. dedup_key (reader, btag) = dedup_key (r, c) \<and> (t, r, c) \<in> set hist)"
    using assms(1) t(1) unfolding dedup_sim_def by blast
  then obtain r c where h: "dedup_key (reader, btag) = dedup_key (r, c)" "(t, r, c) \<in> set hist" "t \<le> now"
    by blast
  from assms(1) h(2) have "barless c" unfolding dedup_sim_def by blast
  from dedup_key_inject [OF assms(2) this h(1)] have "r = reader" "c = btag" by simp_all
  with h t show "seen_within (sint (d_window d)) hist now reader btag"
    by (auto simp: seen_within_def list_ex_iff Sub_less)
next
  assume "seen_within (sint (d_window d)) hist now reader btag"
  then obtain t where t: "(t, reader, btag) \<in> set hist" "now - t < sint (d_window d)"
    by (auto simp: seen_within_def list_ex_iff)
  with assms(1) obtain t' where t': "t \<le> t'" "map_of (d_last d) (dedup_key (reader, btag)) = Some t'"
    unfolding dedup_sim_def by blast
  with assms(1) have "t' \<le> now" unfolding dedup_sim_def by blast
  with t t' show "case map_of (d_last d) (dedup_key (reader, btag)) of Some t \<Rightarrow> Sub now t <s d_window d | None \<Rightarrow> False"
    by (simp add: Sub_less)
qed

lemma map_of_filter_Some:
  "distinct (map fst al) \<Longrightarrow> map_of (filter P al) k = Some t \<longleftrightarrow> map_of al k = Some t \<and> P (k, t)"
  by (simp add: map_of_eq_Some_iff distinct_filter_keys)

text \<open>Replacing the table by one that keeps the fresh entries and gains the new call.\<close>

lemma sim_update:
  assumes sim: "dedup_sim now d hist" and "barless btag" and "distinct (map fst tab)"
    and sub: "\<And>k t. map_of tab k = Some t \<Longrightarrow> map_of (d_last d) k = Some t"
    and fresh: "\<And>k t. map_of (d_last d) k = Some t \<Longrightarrow> now - t < sint (d_window d) \<Longrightarrow> map_of tab k = Some t"
  shows "dedup_sim now (d\<lparr>d_last := AList.update (dedup_key (reader, btag)) now tab\<rparr>) ((now, reader, btag) # hist)"
proof -
  let ?key = "dedup_key (reader, btag)"
  have old: "t \<le> now \<and> (\<exists>r c. k = dedup_key (r, c) \<and> (t, r, c) \<in> set hist)" if "map_of tab k = Some t" for k t
    using sim sub [OF that] unfolding dedup_sim_def by blast
  have keep: "barless c \<and> t \<le> now \<and>
      (now - t < sint (d_window d) \<longrightarrow> (\<exists>t' \<ge> t. ((map_of tab)(?key \<mapsto> now)) (dedup_key (r, c)) = Some t'))"
    if "(t, r, c) \<in> set hist" for t r c
  proof -
    from sim that have b: "barless c" "t \<le> now" unfolding dedup_sim_def by blast+
    have "\<exists>t' \<ge> t. map_of tab (dedup_key (r, c)) = Some t'" if n: "now - t < sint (d_window d)"
    proof -
      from sim n \<open>(t, r, c) \<in> set hist\<close> obtain t' where "t \<le> t'" "map_of (d_last d) (dedup_key (r, c)) = Some t'"
        unfolding dedup_sim_def by blast
      with fresh [of _ t'] n show ?thesis by fastforce
    qed
    with b show ?thesis by auto
  qed
  have m: "map_of (AList.update ?key now tab) = (map_of tab)(?key \<mapsto> now)" by (rule update_conv')
  have entry: "t \<le> now \<and> (\<exists>r c. k = dedup_key (r, c) \<and> (t, r, c) \<in> set ((now, reader, btag) # hist))"
    if "((map_of tab)(?key \<mapsto> now)) k = Some t" for k t
  proof (cases "k = ?key")
    case True
    then show ?thesis using that by auto
  next
    case False
    then show ?thesis using old [of k t] that by auto
  qed
  have call: "barless c \<and> t \<le> now \<and>
      (now - t < sint (d_window d) \<longrightarrow> (\<exists>t' \<ge> t. ((map_of tab)(?key \<mapsto> now)) (dedup_key (r, c)) = Some t'))"
    if "(t, r, c) \<in> set ((now, reader, btag) # hist)" for t r c
    using that keep [of t r c] assms(2) by auto
  have sel: "d_last (d\<lparr>d_last := x\<rparr>) = x" "d_window (d\<lparr>d_last := x\<rparr>) = d_window d" for x
    by simp_all
  show ?thesis
    unfolding dedup_sim_def sel m
    using entry call distinct_update [OF assms(3)] by blast
qed

text \<open>Without a burst of more pairs than the table holds, \<open>allow\<close> follows the specification.\<close>

definition pairs_of :: "(int \<times> string \<times> string) list \<Rightarrow> (string \<times> string) set" where
  "pairs_of calls = snd ` set calls"

lemma table_room:
  assumes sim: "dedup_sim now d hist" and K: "finite K" "card K \<le> bridgeDedupMax" "pairs_of hist \<subseteq> K"
    and p: "(reader, btag) \<in> K" and al: "distinct (map fst al)" "set al \<subseteq> set (d_last d)"
    and new: "map_of al (dedup_key (reader, btag)) = None"
  shows "length al < bridgeDedupMax"
proof -
  have "fst ` set al \<subseteq> dedup_key ` K"
  proof
    fix k
    assume "k \<in> fst ` set al"
    then obtain t where "(k, t) \<in> set (d_last d)" using al(2) by auto
    moreover have "distinct (map fst (d_last d))" using sim by (simp add: dedup_sim_def)
    ultimately have "map_of (d_last d) k = Some t" by simp
    with sim obtain r c where "k = dedup_key (r, c)" "(t, r, c) \<in> set hist"
      unfolding dedup_sim_def by blast
    then show "k \<in> dedup_key ` K" using K(3) by (force simp: pairs_of_def)
  qed
  moreover have "dedup_key (reader, btag) \<notin> fst ` set al"
    using new by (simp add: map_of_eq_None_iff)
  ultimately have "fst ` set al \<subset> dedup_key ` K" using p by blast
  then have "card (fst ` set al) < card (dedup_key ` K)" by (simp add: psubset_card_mono K(1))
  also have "\<dots> \<le> bridgeDedupMax" using card_image_le [OF K(1)] K(2) by (rule order_trans)
  finally show ?thesis using distinct_card [OF al(1)] by simp
qed

lemma allow_sim:
  assumes sim: "dedup_sim now d hist" and b: "barless btag" and "d_start d \<le> now"
    and over: "\<not> now - d_start d < sint (d_grace d)"
    and K: "finite K" "card K \<le> bridgeDedupMax" "pairs_of hist \<subseteq> K" "(reader, btag) \<in> K"
  shows "fst (allow d now reader btag) = (\<not> seen_within (sint (d_window d)) hist now reader btag)
    \<and> dedup_sim now (snd (allow d now reader btag)) ((now, reader, btag) # hist)"
proof -
  let ?key = "dedup_key (reader, btag)"
  have grace: "\<not> Sub now (d_start d) <s d_grace d" using over assms(3) by (simp add: Sub_less)
  have dist: "distinct (map fst (d_last d))" using sim by (simp add: dedup_sim_def)
  note iff = sim_suppressed_iff [OF sim b, of reader]
  show ?thesis
  proof (cases "seen_within (sint (d_window d)) hist now reader btag")
    case True
    then have "allow d now reader btag = (False, d\<lparr>d_last := AList.update ?key now (d_last d)\<rparr>)"
      using grace iff by (simp add: allow_cases)
    then show ?thesis using True sim_update [OF sim b dist] by simp
  next
    case False
    define kept where "kept = filter (\<lambda>(k, t). \<not> d_window d \<le>s Sub now t) (d_last d)"
    define tab where "tab = pruned d now"
    have le: "t \<le> now" if "map_of (d_last d) k = Some t" for k t
      using sim that unfolding dedup_sim_def by blast
    have kept_iff: "map_of kept k = Some t \<longleftrightarrow> map_of (d_last d) k = Some t \<and> now - t < sint (d_window d)" for k t
      using le [of k t] by (auto simp: kept_def map_of_filter_Some dist Sub_ge)
    have "map_of kept ?key = None"
    proof (rule ccontr)
      assume "map_of kept ?key \<noteq> None"
      then obtain t where "map_of (d_last d) ?key = Some t" "now - t < sint (d_window d)"
        using kept_iff by blast
      with False iff le show False by (simp add: Sub_less)
    qed
    then have "length kept < bridgeDedupMax"
      using table_room [OF sim K] dist by (simp add: kept_def distinct_filter_keys)
    then have tab: "tab = kept \<or> tab = d_last d" by (auto simp: tab_def pruned_def kept_def Let_def)
    have a: "allow d now reader btag = (True, d\<lparr>d_last := AList.update ?key now tab\<rparr>)"
      using grace iff False by (simp add: allow_cases tab_def)
    have d: "distinct (map fst tab)" using tab dist by (auto simp: kept_def distinct_filter_keys)
    have "dedup_sim now (d\<lparr>d_last := AList.update ?key now tab\<rparr>) ((now, reader, btag) # hist)"
      by (rule sim_update [OF sim b d]) (use tab kept_iff in blast)+
    with False show ?thesis unfolding a by simp
  qed
qed

fun clock_ok :: "int \<Rightarrow> (int \<times> string \<times> string) list \<Rightarrow> bool" where
  "clock_ok t [] = True"
| "clock_ok t ((now, reader, btag) # calls) = (t \<le> now \<and> barless btag \<and> clock_ok now calls)"

lemma allow_params: "d_window (snd (allow d now r c)) = d_window d" "d_grace (snd (allow d now r c)) = d_grace d"
  "d_start (snd (allow d now r c)) = d_start d"
  by (simp_all add: allow_def Let_def)

lemma allow_all_sim:
  assumes "dedup_sim t d hist" and "clock_ok t calls" and "d_start d \<le> t"
    and "finite K" and "card K \<le> bridgeDedupMax" and "pairs_of hist \<subseteq> K" and "pairs_of calls \<subseteq> K"
  shows "fst (allow_all d calls) =
    spec_allow (d_start d) (sint (d_grace d)) (sint (d_window d)) hist calls"
  using assms
proof (induction calls arbitrary: t d hist)
  case (Cons call calls)
  obtain now reader btag where call: "call = (now, reader, btag)" by (cases call)
  let ?d = "snd (allow d now reader btag)"
  from Cons.prems call have c: "t \<le> now" "barless btag" "clock_ok now calls" "d_start d \<le> now"
    "(reader, btag) \<in> K" "pairs_of calls \<subseteq> K"
    by (auto simp: pairs_of_def)
  have sim: "dedup_sim now d hist" using Cons.prems(1) c(1) by (rule dedup_sim_mono)
  show ?case
  proof (cases "now - d_start d < sint (d_grace d)")
    case True
    then have "allow d now reader btag = (False, d)" using c(4) by (simp add: allow_def Sub_less)
    with True Cons.IH [OF sim c(3) c(4) Cons.prems(4-6) c(6)] show ?thesis
      by (simp add: call case_prod_unfold Let_def)
  next
    case False
    note step = allow_sim [OF sim c(2,4) False Cons.prems(4-6) c(5)]
    have "pairs_of ((now, reader, btag) # hist) \<subseteq> K" using Cons.prems(6) c(5) by (simp add: pairs_of_def)
    from Cons.IH [OF conjunct2 [OF step] c(3) _ Cons.prems(4,5) this c(6)] step False c(4)
    show ?thesis by (simp add: call case_prod_unfold Let_def allow_params)
  qed
qed simp

lemma dedup_sim_new: "dedup_sim now (newBridgeDedup window grace now) []"
  by (simp add: dedup_sim_def newBridgeDedup_def)

section \<open>Subscribers\<close>

datatype hub_op = Add string string string | Subscribe | Cancel nat | Receive nat

definition hub_step :: "bridgeHub \<Rightarrow> hub_op \<Rightarrow> bridgeHub" where
  "hub_step h e = (case e of Add reader btag sig \<Rightarrow> snd (add h reader btag sig)
     | Subscribe \<Rightarrow> snd (subscribe h) | Cancel ch \<Rightarrow> cancel h ch | Receive ch \<Rightarrow> snd (receive h ch))"

definition hub_inv :: "bridgeHub \<Rightarrow> bool" where
  "hub_inv h \<longleftrightarrow> length (h_buf h) \<le> h_cap h
     \<and> (\<forall>ch q. h_subs h ch = Some q \<longrightarrow> length q \<le> 16 \<and> ch < h_made h)"

lemma hub_inv_step: "hub_inv h \<Longrightarrow> hub_inv (hub_step h e)"
  by (cases e; auto simp: hub_inv_def hub_step_def add_def subscribe_def cancel_def receive_def try_send_def
      Let_def less_Suc_eq split: list.splits option.splits; fastforce)

interpretation hub: invariant_machine "newBridgeHub cap" hub_step hub_inv for cap
  by unfold_locales (simp add: hub_inv_def newBridgeHub_def, rule hub_inv_step)

interpretation dedup: invariant_machine "newBridgeDedup window grace start" dedup_step dedup_inv for window grace start
  by unfold_locales (simp_all add: dedup_inv_def newBridgeDedup_def dedup_step_def allow_inv [unfolded dedup_inv_def]
      split: prod.split)

text \<open>What was broadcast during a run and what one subscriber took from its channel.\<close>

fun sse_run :: "nat \<Rightarrow> bridgeHub \<Rightarrow> hub_op list \<Rightarrow> BridgeEvent list \<times> BridgeEvent list \<times> bridgeHub" where
  "sse_run ch h [] = ([], [], h)"
| "sse_run ch h (e # es) =
     (let (sent, got, h') = sse_run ch (hub_step h e) es
      in ((case e of Add reader btag sig \<Rightarrow> [fst (add h reader btag sig)] | _ \<Rightarrow> []) @ sent,
          (case e of Receive c \<Rightarrow> (if c = ch then (case fst (receive h c) of Some ev \<Rightarrow> [ev] | None \<Rightarrow> []) else [])
                   | _ \<Rightarrow> []) @ got, h'))"

lemma subs_step:
  assumes "h_subs h ch = Some q" and "ch < h_made h" and "e \<noteq> Cancel ch"
  shows "ch < h_made (hub_step h e) \<and> h_subs (hub_step h e) ch =
    Some (case e of Add reader btag sig \<Rightarrow> try_send (fst (add h reader btag sig)) q
            | Receive c \<Rightarrow> (if c = ch then tl q else q) | _ \<Rightarrow> q)"
  using assms
  by (cases e) (auto simp: hub_step_def add_def subscribe_def cancel_def receive_def Let_def
      split: list.splits option.splits)

lemma sse_run_queue:
  assumes "h_subs h ch = Some q" and "ch < h_made h" and "Cancel ch \<notin> set es"
    and "sse_run ch h es = (sent, got, h')"
  shows "\<exists>q'. h_subs h' ch = Some q' \<and> subseq (got @ q') (q @ sent)
    \<and> (length (q @ sent) \<le> 16 \<longrightarrow> got @ q' = q @ sent)"
  using assms
proof (induction es arbitrary: h q sent got)
  case (Cons e es)
  obtain sent' got' where run: "sse_run ch (hub_step h e) es = (sent', got', h')"
    using Cons.prems(4) by (auto split: prod.splits)
  from Cons.prems(3) have e: "e \<noteq> Cancel ch" "Cancel ch \<notin> set es" by auto
  note st = subs_step [OF Cons.prems(1,2) e(1)]
  note IH = Cons.IH [OF conjunct2 [OF st] conjunct1 [OF st] e(2) run]
  show ?case
  proof (cases e)
    case (Add reader btag sig)
    let ?ev = "fst (add h reader btag sig)"
    from Cons.prems(4) Add run have out: "sent = ?ev # sent'" "got = got'" by auto
    have "subseq (q @ sent') (q @ ?ev # sent')" by (simp add: subseq_append' list_emb_Cons)
    with IH Add show ?thesis
      by (auto simp: out try_send_def split: if_splits intro: subseq_order.trans)
  next
    case (Receive c)
    show ?thesis
    proof (cases "c = ch \<and> q \<noteq> []")
      case True
      then obtain x xs where q: "q = x # xs" by (cases q) auto
      from Cons.prems(1,4) Receive run True q have "sent = sent'" "got = x # got'"
        by (auto simp: receive_def)
      with IH Receive True q show ?thesis by auto
    next
      case False
      from Cons.prems(1,4) Receive run False have "sent = sent'" "got = got'"
        by (auto simp: receive_def split: list.splits)
      with IH Receive False show ?thesis by (auto split: if_splits)
    qed
  next
    case Subscribe
    with Cons.prems(4) run IH show ?thesis by auto
  next
    case (Cancel c)
    with Cons.prems(4) run IH show ?thesis by auto
  qed
qed auto

section \<open>Feeding events\<close>

definition feed_call :: "Event \<Rightarrow> (string \<times> string) option" where
  "feed_call ev =
     (if ev_Kind ev \<noteq> KindInsert then None else
      map_option (\<lambda>c. (if ev_ReaderTag ev = []
          then ReaderTagWithUnit (ev_Reader ev) (ev_ReaderSerial ev) (ev_ReaderPort ev)
          else ev_ReaderTag ev, card_ID c)) (ev_Card ev))"

definition feed_all :: "Bridge \<Rightarrow> (int \<times> Event) list \<Rightarrow> Bridge" where
  "feed_all b feeds = foldl (\<lambda>b (now, ev). Feed b now ev) b feeds"

fun calls_of :: "(int \<times> Event) list \<Rightarrow> (int \<times> string \<times> string) list" where
  "calls_of [] = []"
| "calls_of ((now, ev) # feeds) =
     (case feed_call ev of None \<Rightarrow> calls_of feeds | Some p \<Rightarrow> (now, p) # calls_of feeds)"

definition signature_of :: "Signer option \<Rightarrow> string \<Rightarrow> string \<Rightarrow> string" where
  "signature_of signer reader btag =
     (case signer of None \<Rightarrow> [] | Some sign \<Rightarrow> sign (bytes_of (''#'' @ reader @ '':'' @ btag)))"

definition granted :: "Signer option \<Rightarrow> bool list \<Rightarrow> (int \<times> string \<times> string) list \<Rightarrow> (string \<times> string \<times> string) list" where
  "granted signer oks calls =
     map (\<lambda>(ok, now, reader, btag). (reader, btag, signature_of signer reader btag)) (filter fst (zip oks calls))"

lemma Feed_cases:
  "Feed b now ev = (case feed_call ev of None \<Rightarrow> b
     | Some (reader, btag) \<Rightarrow> b\<lparr>b_dd := snd (allow (b_dd b) now reader btag),
         b_hub := (if fst (allow (b_dd b) now reader btag)
           then snd (add (b_hub b) reader btag (signature_of (b_signer b) reader btag)) else b_hub b)\<rparr>)"
  by (auto simp: Feed_def feed_call_def Let_def signedLine_def signature_of_def
      split: option.splits prod.splits)

lemma feed_all_hub:
  "b_hub (feed_all b feeds) =
     add_all (b_hub b) (granted (b_signer b) (fst (allow_all (b_dd b) (calls_of feeds))) (calls_of feeds))"
proof (induction feeds arbitrary: b)
  case (Cons feed feeds)
  obtain now ev where feed: "feed = (now, ev)" by (cases feed)
  have rest: "feed_all b (feed # feeds) = feed_all (Feed b now ev) feeds"
    by (simp add: feed_all_def feed)
  show ?case
    unfolding rest Cons
    by (cases "feed_call ev")
      (auto simp: feed Feed_cases granted_def add_all_def case_prod_unfold Let_def split: option.splits)
qed (simp add: feed_all_def granted_def add_all_def)

lemma allow_all_new:
  assumes "clock_ok start calls" and "card (pairs_of calls) \<le> bridgeDedupMax"
  shows "fst (allow_all (newBridgeDedup window grace start) calls) =
    spec_allow start (sint grace) (sint window) [] calls"
proof -
  have "pairs_of [] \<subseteq> pairs_of calls" "finite (pairs_of calls)" by (auto simp: pairs_of_def)
  from allow_all_sim [OF dedup_sim_new assms(1) _ this(2) assms(2) this(1) order_refl, of window grace]
  show ?thesis by (simp add: newBridgeDedup_def)
qed

lemma NewBridge_parts:
  "b_hub (NewBridge (Some opts) start) =
     newBridgeHub (if 0 <s o_Capacity opts then nat (sint (o_Capacity opts)) else 64)"
  "b_dd (NewBridge (Some opts) start) =
     newBridgeDedup (if 0 <s o_DedupWindow opts then o_DedupWindow opts else bridgeDedupWindow)
       (if 0 <s o_StartupGrace opts then o_StartupGrace opts else bridgeStartupGrace) start"
  "b_signer (NewBridge (Some opts) start) = o_Signer opts"
  by (simp_all add: NewBridge_def Let_def bridgeCapacity_def)

section \<open>Properties\<close>

text \<open>
  C2. The whole bridge against its specification. Feed a new bridge any events on a clock that never
  runs backwards, with at most 1024 different pairs of reader and card. Then polling after any
  cursor answers exactly the granted presentations with a greater id that are among the newest
  \<open>capacity\<close> ones, oldest first, numbered from one and each signed over its own line; granted are
  the insertions with a card after the startup grace whose pair was not seen within the window.
\<close>

theorem bridge_serves:
  assumes "clock_ok start (calls_of feeds)" and "card (pairs_of (calls_of feeds)) \<le> 1024"
    and "length feeds < 2 ^ 63"
  shows "since (b_hub (feed_all (NewBridge (Some opts) start) feeds)) after =
    (let dd = b_dd (NewBridge (Some opts) start);
         oks = spec_allow start (sint (d_grace dd)) (sint (d_window dd)) [] (calls_of feeds);
         served = granted (o_Signer opts) oks (calls_of feeds);
         kept = (if 0 <s o_Capacity opts then nat (sint (o_Capacity opts)) else 64);
         k = max (nat (sint after)) (length served - kept)
     in numbered k (drop k served))"
proof -
  have "length (calls_of feeds) \<le> length feeds"
    by (induction feeds rule: calls_of.induct) (auto split: option.splits)
  moreover have "length (granted s oks calls) \<le> length calls" for s oks calls
    using length_filter_le [of fst "zip oks calls"] by (simp add: granted_def)
  ultimately have "length (granted s oks (calls_of feeds)) < 2 ^ 63" for s oks
    using assms(3) by (meson le_less_trans order_trans)
  moreover have "fst (allow_all (newBridgeDedup w g start) (calls_of feeds)) =
      spec_allow start (sint g) (sint w) [] (calls_of feeds)" for w g
    using allow_all_new assms(1,2) by (simp add: bridgeDedupMax_def)
  ultimately show ?thesis
    unfolding feed_all_hub NewBridge_parts by (simp add: since_after newBridgeDedup_def Let_def)
qed

definition shown :: "string \<Rightarrow> string \<Rightarrow> Event" where
  "shown reader btag = \<lparr>ev_Kind = KindInsert,
     ev_Card = Some \<lparr>card_ID = btag, card_Type = [], card_UID = [], card_ATR = [], card_Reader = [], card_Source = []\<rparr>,
     ev_Reader = [], ev_ReaderTag = reader, ev_ReaderSerial = [], ev_ReaderPort = []\<rparr>"

definition example_options :: BridgeOptions where
  "example_options = \<lparr>o_Capacity = 1, o_DedupWindow = 10, o_StartupGrace = 5, o_Signer = None\<rparr>"

text \<open>Suppressed by the grace, served, suppressed by the window, another card, served again.\<close>

definition example_feeds :: "(int \<times> Event) list" where
  "example_feeds = [(2, shown ''r'' ''a''), (6, shown ''r'' ''a''), (12, shown ''r'' ''a''),
     (13, shown ''r'' ''b''), (40, shown ''r'' ''a'')]"

lemma example_calls: "calls_of example_feeds =
    [(2, ''r'', ''a''), (6, ''r'', ''a''), (12, ''r'', ''a''), (13, ''r'', ''b''), (40, ''r'', ''a'')]"
  by (simp add: example_feeds_def feed_call_def shown_def)

lemma bridge_serves_witness:
  "since (b_hub (feed_all (NewBridge (Some example_options) 0) example_feeds)) 0 =
     [\<lparr>be_ID = 3, be_Reader = ''r'', be_Card = ''a'', be_Sig = []\<rparr>]"
proof -
  have pre: "clock_ok 0 (calls_of example_feeds)" "card (pairs_of (calls_of example_feeds)) \<le> 1024"
    "length example_feeds < 2 ^ 63"
    unfolding example_calls by (simp_all add: barless_def pairs_of_def example_feeds_def card_insert_if)
  have s: "sint (10 :: i64) = 10" "sint (5 :: i64) = 5" "sint (1 :: i64) = 1" "0 <s (10 :: i64)" "0 <s (5 :: i64)"
      "0 <s (1 :: i64)"
    by (simp_all add: word_sless_alt)
  show ?thesis
    unfolding bridge_serves [OF pre] example_calls NewBridge_parts
    by (simp add: example_options_def s newBridgeDedup_def seen_within_def granted_def signature_of_def
        numbered_def presentation_def Let_def)
qed

text \<open>
  The dedup filter never suppresses without cause and its table stays bounded: whatever calls
  came before (any clock, any number of pairs), the table holds at most 1024 distinct pairs, and a
  call is refused only inside the startup grace or when the table has its own pair within the window.
\<close>

theorem dedup_bounded:
  "let d = foldl dedup_step (newBridgeDedup window grace start) calls
   in length (d_last d) \<le> 1024 \<and> distinct (map fst (d_last d))
     \<and> (fst (allow d now reader btag) \<longleftrightarrow> \<not> Sub now start <s grace
         \<and> (case map_of (d_last d) (reader @ ''|'' @ btag) of None \<Rightarrow> True | Some t \<Rightarrow> \<not> Sub now t <s window))"
proof -
  let ?d = "foldl dedup_step (newBridgeDedup window grace start) calls"
  have "d_window d = window \<and> d_grace d = grace \<and> d_start d = start \<Longrightarrow>
      d_window (foldl dedup_step d cs) = window \<and> d_grace (foldl dedup_step d cs) = grace
      \<and> d_start (foldl dedup_step d cs) = start" for d cs
    by (induction cs arbitrary: d) (simp_all add: dedup_step_def allow_params split: prod.split)
  from this [of "newBridgeDedup window grace start" calls]
  have "d_window ?d = window" "d_grace ?d = grace" "d_start ?d = start"
    by (simp_all add: newBridgeDedup_def)
  moreover have "dedup_inv ?d" by (rule dedup.reachable_inv)
  ultimately show ?thesis
    by (simp add: Let_def dedup_inv_def bridgeDedupMax_def allow_cases dedup_key_def split: option.split)
qed

text \<open>
  A subscriber sees presentations once and in order. From its subscription until it is cancelled,
  whatever other subscribers do, the events it took followed by those still in its channel are a
  subsequence of the presentations broadcast meanwhile, and all of them while these are at most 16.
\<close>

theorem subscriber_in_order:
  assumes "Cancel (fst (subscribe h)) \<notin> set es"
    and "sse_run (fst (subscribe h)) (snd (subscribe h)) es = (sent, got, h')"
  shows "\<exists>q. h_subs h' (fst (subscribe h)) = Some q \<and> subseq (got @ q) sent
    \<and> (16 < length sent \<or> got @ q = sent)"
  using sse_run_queue [of "snd (subscribe h)" "fst (subscribe h)" "[]", OF _ _ assms]
  by (auto simp: subscribe_def)

lemma subscriber_in_order_witness:
  "\<exists>q. subseq ([presentation 1 (''r'', ''a'', [])] @ q) [presentation 1 (''r'', ''a'', []), presentation 2 (''r'', ''b'', [])]"
proof -
  have "sse_run (fst (subscribe (newBridgeHub 8))) (snd (subscribe (newBridgeHub 8)))
      [Add ''r'' ''a'' [], Receive 0, Add ''r'' ''b'' []]
    = ([presentation 1 (''r'', ''a'', []), presentation 2 (''r'', ''b'', [])], [presentation 1 (''r'', ''a'', [])],
       foldl hub_step (snd (subscribe (newBridgeHub 8))) [Add ''r'' ''a'' [], Receive 0, Add ''r'' ''b'' []])"
    by (simp add: hub_step_def subscribe_def newBridgeHub_def add_def receive_def try_send_def
        presentation_def Let_def)
  from subscriber_in_order [OF _ this] show ?thesis by (auto simp: subscribe_def)
qed

text \<open>
  No step of the hub overfills anything: after any operations the replay buffer holds at most
  \<open>capacity\<close> events and every channel at most 16, so \<open>add\<close> never blocks the watch loop.
\<close>

theorem hub_bounded:
  "length (h_buf (foldl hub_step (newBridgeHub cap) es)) \<le> cap
   \<and> (case h_subs (foldl hub_step (newBridgeHub cap) es) ch of None \<Rightarrow> True | Some q \<Rightarrow> length q \<le> 16)"
proof -
  have "hub_inv (foldl hub_step (newBridgeHub cap) es)" by (rule hub.reachable_inv)
  moreover have "h_cap (foldl hub_step h es) = h_cap h" for h
    by (induction es arbitrary: h) (auto simp: hub_step_def add_def subscribe_def cancel_def receive_def Let_def
        split: hub_op.splits option.splits list.splits)
  ultimately show ?thesis
    by (auto simp: hub_inv_def newBridgeHub_def split: option.split)
qed

end
