(* ===== verification/Surface.thy ===== *)
theory Surface
  imports Bridge
begin

text \<open>
  The HTTP surface of the bridge (\<open>bridge.go\<close>, \<open>Handler\<close>): the responses of \<open>/health\<close> and
  \<open>/pending\<close> and the stream of \<open>/events\<close>, down to the bytes, with the functions of Go's standard
  library they use: \<open>strconv.ParseInt\<close> with its clamping, the decimal text of an \<open>int64\<close>, and the
  encoding of strings by \<open>encoding/json\<close>. The version text, already quoted by \<open>%q\<close>, is an argument.

  The kiosk page's side is a reader of these bodies, defined here as the specification: a parser of
  the JSON of the events and the split of a stream at its blank lines.
\<close>

section \<open>Numbers\<close>

text \<open>\<open>ParseUint\<close> for base 10 and 64 bits: \<open>Inl True\<close> is the range error, raised as soon as the value
  leaves the range, \<open>Inl False\<close> the syntax error.\<close>

fun parse_uint64 :: "nat \<Rightarrow> string \<Rightarrow> bool + nat" where
  "parse_uint64 n [] = Inr n"
| "parse_uint64 n (c # s) =
     (if \<not> (48 \<le> (of_char c :: nat) \<and> (of_char c :: nat) \<le> 57) then Inl False
      else let n' = n * 10 + (of_char c - 48) in
        if 2 ^ 64 \<le> n' then Inl True else parse_uint64 n' s)"

text \<open>The value of \<open>ParseInt\<close>; its error is dropped by the handler.\<close>

definition ParseInt :: "string \<Rightarrow> int" where
  "ParseInt s =
     (if s = [] then 0
      else let neg = (hd s = CHR ''-'');
               digits = (if hd s = CHR ''+'' \<or> neg then tl s else s)
      in case (if digits = [] then Inl False else parse_uint64 0 digits) of
           Inl False \<Rightarrow> 0
         | Inl True \<Rightarrow> if neg then - (2 ^ 63) else 2 ^ 63 - 1
         | Inr un \<Rightarrow>
             if \<not> neg \<and> 2 ^ 63 \<le> un then 2 ^ 63 - 1
             else if neg \<and> 2 ^ 63 < un then - (2 ^ 63)
             else if neg then - int un else int un)"

definition FormatInt :: "int \<Rightarrow> string" where
  "FormatInt n = (if n < 0 then CHR ''-'' # Itoa (nat (- n)) else Itoa (nat n))"

section \<open>JSON\<close>

definition hex_lower :: "nat \<Rightarrow> char" where
  "hex_lower n = ''0123456789abcdef'' ! n"

text \<open>The bytes of a rune at the start of a byte sequence, none when it is not valid UTF-8.\<close>

definition tail_byte :: "nat \<Rightarrow> bool" where
  "tail_byte b \<longleftrightarrow> 0x80 \<le> b \<and> b \<le> 0xBF"

definition rune_length :: "nat list \<Rightarrow> nat" where
  "rune_length bs = (case bs of
     b0 # b1 # b2 # b3 # _ \<Rightarrow>
       if 0xC2 \<le> b0 \<and> b0 \<le> 0xDF \<and> tail_byte b1 then 2
       else if 0xE0 \<le> b0 \<and> b0 \<le> 0xEF \<and> tail_byte b1 \<and> (b0 = 0xE0 \<longrightarrow> 0xA0 \<le> b1) \<and> (b0 = 0xED \<longrightarrow> b1 \<le> 0x9F)
         \<and> tail_byte b2 then 3
       else if 0xF0 \<le> b0 \<and> b0 \<le> 0xF4 \<and> tail_byte b1 \<and> (b0 = 0xF0 \<longrightarrow> 0x90 \<le> b1) \<and> (b0 = 0xF4 \<longrightarrow> b1 \<le> 0x8F)
         \<and> tail_byte b2 \<and> tail_byte b3 then 4
       else 0
   | _ \<Rightarrow> 0)"

definition ascii_escape :: "char \<Rightarrow> string" where
  "ascii_escape c =
     (if c = CHR 0x22 \<or> c = CHR 0x5C then [CHR 0x5C, c]
      else if c = CHR 0x08 then [CHR 0x5C, CHR ''b'']
      else if c = CHR 0x0C then [CHR 0x5C, CHR ''f'']
      else if c = CHR 0x0A then [CHR 0x5C, CHR ''n'']
      else if c = CHR 0x0D then [CHR 0x5C, CHR ''r'']
      else if c = CHR 0x09 then [CHR 0x5C, CHR ''t'']
      else if (of_char c :: nat) < 32 \<or> c \<in> set ''<>&''
      then [CHR 0x5C, CHR ''u'', CHR ''0'', CHR ''0'', hex_lower (of_char c div 16), hex_lower (of_char c mod 16)]
      else [c])"

text \<open>The bytes behind the string, padded, so that the rune at its start can be read.\<close>

definition rune_of :: "string \<Rightarrow> nat" where
  "rune_of s = rune_length (map of_char s @ [0, 0, 0])"

function json_chars :: "string \<Rightarrow> string" where
  "json_chars s =
     (case s of [] \<Rightarrow> []
      | c # rest \<Rightarrow>
          if (of_char c :: nat) < 128 then ascii_escape c @ json_chars rest
          else if rune_of s = 0 then CHR 0x5C # ''ufffd'' @ json_chars rest
          else if take 3 s = [CHR 0xE2, CHR 0x80, CHR 0xA8] then CHR 0x5C # ''u2028'' @ json_chars (drop 3 s)
          else if take 3 s = [CHR 0xE2, CHR 0x80, CHR 0xA9] then CHR 0x5C # ''u2029'' @ json_chars (drop 3 s)
          else take (rune_of s) s @ json_chars (drop (rune_of s) s))"
  by pat_completeness auto
termination
  by (relation "measure length") auto

declare json_chars.simps [simp del]

definition json_string :: "string \<Rightarrow> string" where
  "json_string s = CHR 0x22 # json_chars s @ [CHR 0x22]"

text \<open>A member name with its colon: the names of the tags are plain.\<close>

definition member :: "string \<Rightarrow> string" where
  "member name = CHR 0x22 # name @ [CHR 0x22, CHR '':'']"

text \<open>\<open>json.Marshal\<close> of a \<open>BridgeEvent\<close> and of a \<open>bridgePendingResponse\<close>.\<close>

definition event_json :: "BridgeEvent \<Rightarrow> string" where
  "event_json ev =
     ''{'' @ member ''id'' @ FormatInt (sint (be_ID ev))
     @ '','' @ member ''reader'' @ json_string (be_Reader ev)
     @ '','' @ member ''card'' @ json_string (be_Card ev)
     @ (if be_Sig ev = [] then [] else '','' @ member ''sig'' @ json_string (be_Sig ev)) @ ''}''"

definition pending_json :: "BridgeEvent list \<Rightarrow> string" where
  "pending_json evs = ''{'' @ member ''events'' @ ''['' @ Join '','' (map event_json evs) @ '']}''"

section \<open>The handlers\<close>

text \<open>Marshalling these structs never fails, so the error branches of the handlers are not reachable.\<close>

record response =
  re_status :: nat
  re_headers :: "(string \<times> string) list"
  re_body :: string

definition open_origin :: "string \<times> string" where
  "open_origin = (''Access-Control-Allow-Origin'', ''*'')"

definition handle_health :: "string \<Rightarrow> response" where
  "handle_health quoted = \<lparr>re_status = 200,
     re_headers = [open_origin, (''Content-Type'', ''application/json; charset=utf-8'')],
     re_body = ''{'' @ member ''ok'' @ ''true,'' @ member ''version'' @ quoted @ ''}''\<rparr>"

definition handle_pending :: "Bridge \<Rightarrow> string \<Rightarrow> response" where
  "handle_pending b query = \<lparr>re_status = 200,
     re_headers = [open_origin, (''Content-Type'', ''application/json; charset=utf-8'')],
     re_body = pending_json (since (b_hub b) (word_of_int (ParseInt query)))\<rparr>"

text \<open>What the stream of \<open>/events\<close> writes for the greeting, an event of its channel and a heartbeat.\<close>

datatype stimulus = Arrives BridgeEvent | Heartbeat

definition sse_hello :: "string \<Rightarrow> string" where
  "sse_hello quoted = ''event: hello'' @ [CHR 0x0A] @ ''data: {'' @ member ''version'' @ quoted @ ''}''"

fun sse_body :: "stimulus \<Rightarrow> string" where
  "sse_body (Arrives ev) = ''event: card'' @ [CHR 0x0A] @ ''data: '' @ event_json ev"
| "sse_body Heartbeat = '': keep-alive''"

definition blank_line :: string where
  "blank_line = [CHR 0x0A, CHR 0x0A]"

text \<open>\<open>http.Error\<close> replaces the content type; a writer that cannot flush is refused.\<close>

definition handle_events :: "bool \<Rightarrow> string \<Rightarrow> stimulus list \<Rightarrow> response" where
  "handle_events flusher quoted stimuli =
     (if flusher
      then \<lparr>re_status = 200,
        re_headers = [open_origin, (''Content-Type'', ''text/event-stream; charset=utf-8''), (''Cache-Control'', ''no-store'')],
        re_body = concat (map (\<lambda>body. body @ blank_line) (sse_hello quoted # map sse_body stimuli))\<rparr>
      else \<lparr>re_status = 500,
        re_headers = [open_origin, (''Content-Type'', ''text/plain; charset=utf-8''), (''Cache-Control'', ''no-store''),
          (''X-Content-Type-Options'', ''nosniff'')],
        re_body = ''streaming unsupported'' @ [CHR 0x0A]\<rparr>)"

section \<open>The page's side\<close>

definition strip :: "string \<Rightarrow> string \<Rightarrow> string option" where
  "strip p s = (if take (length p) s = p then Some (drop (length p) s) else None)"

definition hex_digit_value :: "char \<Rightarrow> nat" where
  "hex_digit_value c = (let n = (of_char c :: nat) in if n \<le> 57 then n - 48 else n - 87)"

definition short_escape :: "char \<Rightarrow> char" where
  "short_escape k = (if k = CHR ''b'' then CHR 0x08 else if k = CHR ''f'' then CHR 0x0C
     else if k = CHR ''n'' then CHR 0x0A else if k = CHR ''r'' then CHR 0x0D
     else if k = CHR ''t'' then CHR 0x09 else k)"

definition read_escape :: "string \<Rightarrow> (char \<times> string) option" where
  "read_escape s =
     (if s = [] then None
      else if hd s = CHR ''u'' then
        if length s < 5 then None
        else Some (char_of (16 * hex_digit_value (s ! 3) + hex_digit_value (s ! 4)), drop 5 s)
      else Some (short_escape (hd s), tl s))"

lemma read_escape_shorter: "read_escape s = Some (c, rest) \<Longrightarrow> length rest < length s"
  by (auto simp: read_escape_def split: if_splits)

function read_chars :: "string \<Rightarrow> (string \<times> string) option" where
  "read_chars s =
     (case s of [] \<Rightarrow> None
      | c # rest \<Rightarrow>
          if c = CHR 0x22 then Some ([], rest)
          else if c = CHR 0x5C then
            (case read_escape rest of None \<Rightarrow> None
             | Some (x, rest) \<Rightarrow> map_option (\<lambda>(t, r). (x # t, r)) (read_chars rest))
          else map_option (\<lambda>(t, r). (c # t, r)) (read_chars rest))"
  by pat_completeness auto
termination
  by (relation "measure length") (auto dest: read_escape_shorter)

declare read_chars.simps [simp del]

definition read_string :: "string \<Rightarrow> (string \<times> string) option" where
  "read_string s = Option.bind (strip [CHR 0x22] s) read_chars"

definition decimal_char :: "char \<Rightarrow> bool" where
  "decimal_char c \<longleftrightarrow> 48 \<le> (of_char c :: nat) \<and> (of_char c :: nat) \<le> 57"

definition decimal_value :: "string \<Rightarrow> nat" where
  "decimal_value ds = foldl (\<lambda>n c. n * 10 + (of_char c - 48)) 0 ds"

definition read_int :: "string \<Rightarrow> int \<times> string" where
  "read_int s =
     (let neg = (s \<noteq> [] \<and> hd s = CHR ''-''); s = (if neg then tl s else s); ds = takeWhile decimal_char s
      in (if neg then - int (decimal_value ds) else int (decimal_value ds), drop (length ds) s))"

definition read_event :: "string \<Rightarrow> (BridgeEvent \<times> string) option" where
  "read_event s = do {
     s \<leftarrow> strip (''{'' @ member ''id'') s;
     let (n, s) = read_int s;
     s \<leftarrow> strip ('','' @ member ''reader'') s;
     (reader, s) \<leftarrow> read_string s;
     s \<leftarrow> strip ('','' @ member ''card'') s;
     (btag, s) \<leftarrow> read_string s;
     (sig, s) \<leftarrow> (case strip ('','' @ member ''sig'') s of None \<Rightarrow> Some ([], s) | Some s \<Rightarrow> read_string s);
     s \<leftarrow> strip ''}'' s;
     Some (\<lparr>be_ID = word_of_int n, be_Reader = reader, be_Card = btag, be_Sig = sig\<rparr>, s) }"

fun read_events :: "nat \<Rightarrow> string \<Rightarrow> (BridgeEvent list \<times> string) option" where
  "read_events 0 s = None"
| "read_events (Suc k) s =
     (case read_event s of None \<Rightarrow> None
      | Some (ev, s) \<Rightarrow>
          (case strip '','' s of
             None \<Rightarrow> Some ([ev], s)
           | Some s \<Rightarrow> map_option (\<lambda>(evs, s). (ev # evs, s)) (read_events k s)))"

definition read_pending :: "string \<Rightarrow> BridgeEvent list option" where
  "read_pending body = do {
     s \<leftarrow> strip (''{'' @ member ''events'' @ ''['') body;
     (case strip '']}'' s of
        Some s \<Rightarrow> (if s = [] then Some [] else None)
      | None \<Rightarrow>
          (case read_events (length body) s of None \<Rightarrow> None
           | Some (evs, s) \<Rightarrow> (if s = '']}'' then Some evs else None))) }"

section \<open>Reading strings back\<close>

definition ascii :: "string \<Rightarrow> bool" where
  "ascii s \<longleftrightarrow> list_all (\<lambda>c. (of_char c :: nat) < 128) s"

lemma strip_append [simp]: "strip p (p @ s) = Some s"
  by (simp add: strip_def)

lemma strip_single: "strip [c] (d # s) = (if c = d then Some s else None)"
  by (simp add: strip_def)

lemma hex_lower_value: "n < 16 \<Longrightarrow> hex_digit_value (hex_lower n) = n"
proof -
  have "\<forall>n \<in> set [0..<16]. hex_digit_value (hex_lower n) = n" by code_simp
  then show "n < 16 \<Longrightarrow> hex_digit_value (hex_lower n) = n" by simp
qed

lemma of_char_div_16: "(of_char c :: nat) div 16 < 16"
  using of_char_nat_less [of c] by (intro less_mult_imp_div_less) simp

lemma escape_cases:
  obtains (quoted) "c = CHR 0x22 \<or> c = CHR 0x5C" "ascii_escape c = [CHR 0x5C, c]"
  | (short) k where "ascii_escape c = [CHR 0x5C, k]" "(k, c) \<in> {(CHR ''b'', CHR 0x08), (CHR ''f'', CHR 0x0C),
      (CHR ''n'', CHR 0x0A), (CHR ''r'', CHR 0x0D), (CHR ''t'', CHR 0x09)}"
  | (long) "ascii_escape c = [CHR 0x5C, CHR ''u'', CHR ''0'', CHR ''0'', hex_lower (of_char c div 16), hex_lower (of_char c mod 16)]"
  | (plain) "ascii_escape c = [c]" "c \<noteq> CHR 0x22" "c \<noteq> CHR 0x5C" "32 \<le> (of_char c :: nat)"
proof -
  consider "c = CHR 0x22 \<or> c = CHR 0x5C" | "c = CHR 0x08" | "c = CHR 0x0C" | "c = CHR 0x0A" | "c = CHR 0x0D" | "c = CHR 0x09"
    | "c \<notin> {CHR 0x22, CHR 0x5C, CHR 0x08, CHR 0x0C, CHR 0x0A, CHR 0x0D, CHR 0x09}" by blast
  then show thesis
  proof cases
    case 1
    then show thesis using quoted by (simp add: ascii_escape_def)
  next
    case 7
    then show thesis
      using long plain by (cases "(of_char c :: nat) < 32 \<or> c \<in> set ''<>&''") (simp_all add: ascii_escape_def)
  qed (use short in \<open>simp_all add: ascii_escape_def\<close>)
qed

lemma read_quoted: "c = CHR 0x22 \<or> c = CHR 0x5C \<Longrightarrow> read_escape (c # s) = Some (c, s)"
  by (auto simp: read_escape_def short_escape_def)

lemma read_long: "read_escape (CHR ''u'' # a # b # h # l # s) = Some (char_of (16 * hex_digit_value h + hex_digit_value l), s)"
  by (simp add: read_escape_def)

lemma read_short: "(k, c) \<in> {(CHR ''b'', CHR 0x08), (CHR ''f'', CHR 0x0C), (CHR ''n'', CHR 0x0A), (CHR ''r'', CHR 0x0D),
    (CHR ''t'', CHR 0x09)} \<Longrightarrow> read_escape (k # s) = Some (c, s)"
  by (auto simp: read_escape_def short_escape_def)

lemma read_chars_escape: "read_chars (ascii_escape c @ s) = map_option (\<lambda>(t, r). (c # t, r)) (read_chars s)"
proof (cases c rule: escape_cases)
  case quoted
  then show ?thesis using read_quoted [of c s] by (subst read_chars.simps) simp
next
  case (short k)
  from read_short [OF short(2), of s] show ?thesis by (subst read_chars.simps) (simp add: short(1))
next
  case long
  have "hex_digit_value (hex_lower (of_char c div 16)) = of_char c div 16"
    "hex_digit_value (hex_lower (of_char c mod 16)) = of_char c mod 16"
    using of_char_div_16 [of c] by (simp_all add: hex_lower_value)
  moreover have "16 * ((of_char c :: nat) div 16) + of_char c mod 16 = of_char c" by simp
  ultimately show ?thesis by (subst read_chars.simps) (simp add: long read_long)
next
  case plain
  then show ?thesis by (subst read_chars.simps) simp
qed

lemma read_json_string: "ascii s \<Longrightarrow> read_string (json_string s @ rest) = Some (s, rest)"
proof -
  have "ascii s \<Longrightarrow> read_chars (json_chars s @ CHR 0x22 # rest) = Some (s, rest)"
  proof (induction s)
    case Nil
    then show ?case by (simp add: json_chars.simps [of "[]"] read_chars.simps [of "_ # _"])
  next
    case (Cons c s)
    then show ?case by (simp add: json_chars.simps [of "c # s"] ascii_def read_chars_escape)
  qed
  then show "ascii s \<Longrightarrow> ?thesis" by (simp add: read_string_def json_string_def strip_single)
qed

section \<open>Reading numbers back\<close>

lemma digit_of: "d < 10 \<Longrightarrow> decimal_char (char_of (48 + d)) \<and> (of_char (char_of (48 + d) :: char) :: nat) - 48 = d"
  by (simp add: decimal_char_def)

lemma Itoa_decimal: "list_all decimal_char (Itoa n) \<and> Itoa n \<noteq> []"
proof (induction n rule: Itoa.induct)
  case (1 n)
  then show ?case using digit_of [of n] digit_of [of "n mod 10"] by (subst (1 2) Itoa.simps) auto
qed

lemma decimal_value_Itoa: "decimal_value (Itoa n) = n"
proof (induction n rule: Itoa.induct)
  case (1 n)
  show ?case
  proof (cases "n < 10")
    case True
    then show ?thesis using digit_of [of n] by (subst Itoa.simps) (simp add: decimal_value_def)
  next
    case False
    then have "decimal_value (Itoa (n div 10)) = n div 10" using 1 by simp
    then show ?thesis using False digit_of [of "n mod 10"] by (subst Itoa.simps) (simp add: decimal_value_def)
  qed
qed

lemma read_int_format:
  assumes "rest = [] \<or> \<not> decimal_char (hd rest)"
  shows "read_int (FormatInt n @ rest) = (n, rest)"
proof -
  have digits: "takeWhile decimal_char (Itoa k @ rest) = Itoa k" for k
    using Itoa_decimal [of k] assms by (cases rest) (auto simp: takeWhile_append takeWhile_eq_all_conv list_all_iff)
  have "hd (Itoa k @ rest) \<noteq> CHR ''-''" for k
    using Itoa_decimal [of k] by (cases "Itoa k") (auto simp: decimal_char_def)
  then show ?thesis
    using Itoa_decimal by (auto simp: read_int_def FormatInt_def Let_def digits decimal_value_Itoa)
qed

lemma parse_uint64_append:
  "parse_uint64 m (s @ t) = (case parse_uint64 m s of Inl e \<Rightarrow> Inl e | Inr k \<Rightarrow> parse_uint64 k t)"
  by (induction s arbitrary: m) (simp_all add: Let_def)

lemma parse_uint64_Itoa: "n < 2 ^ 64 \<Longrightarrow> parse_uint64 0 (Itoa n) = Inr n"
proof (induction n rule: Itoa.induct)
  case (1 n)
  show ?case
  proof (cases "n < 10")
    case True
    then show ?thesis using digit_of [of n] 1(2) by (subst Itoa.simps) (simp add: decimal_char_def Let_def)
  next
    case False
    then have "parse_uint64 0 (Itoa (n div 10)) = Inr (n div 10)" using 1 by simp
    moreover have "n div 10 * 10 + n mod 10 = n" by simp
    ultimately show ?thesis using False digit_of [of "n mod 10"] 1(2)
      by (subst Itoa.simps) (simp add: parse_uint64_append decimal_char_def Let_def)
  qed
qed

lemma ParseInt_FormatInt:
  assumes "- (2 ^ 63) \<le> n" "n < 2 ^ 63"
  shows "ParseInt (FormatInt n) = n"
proof -
  have first: "hd (Itoa k) \<noteq> CHR ''-''" "hd (Itoa k) \<noteq> CHR ''+''" for k
    using Itoa_decimal [of k] by (cases "Itoa k"; auto simp: decimal_char_def)+
  show ?thesis
  proof (cases "n < 0")
    case True
    then show ?thesis
      using assms parse_uint64_Itoa [of "nat (- n)"] Itoa_decimal [of "nat (- n)"]
      by (auto simp: ParseInt_def FormatInt_def Let_def nat_le_iff nat_less_iff)
  next
    case False
    then show ?thesis
      using assms parse_uint64_Itoa [of "nat n"] Itoa_decimal [of "nat n"] first [of "nat n"]
      by (auto simp: ParseInt_def FormatInt_def Let_def nat_le_iff nat_less_iff)
  qed
qed

section \<open>Reading events back\<close>

definition ascii_event :: "BridgeEvent \<Rightarrow> bool" where
  "ascii_event ev \<longleftrightarrow> ascii (be_Reader ev) \<and> ascii (be_Card ev) \<and> ascii (be_Sig ev)"

lemma strip_member: "strip p (p @ s) = Some s" "strip p p = Some []"
  by (simp_all add: strip_def)

lemma read_event_json:
  assumes "ascii_event ev"
  shows "read_event (event_json ev @ rest) = Some (ev, rest)"
proof -
  let ?sig = "if be_Sig ev = [] then [] else '','' @ member ''sig'' @ json_string (be_Sig ev)"
  have start: "strip (''{'' @ member ''id'') (event_json ev @ rest) = Some (FormatInt (sint (be_ID ev))
     @ ('','' @ member ''reader'') @ json_string (be_Reader ev)
     @ ('','' @ member ''card'') @ json_string (be_Card ev) @ ?sig @ ''}'' @ rest)"
    unfolding strip_def by (simp add: event_json_def member_def)
  have num: "read_int (FormatInt (sint (be_ID ev)) @ ('','' @ member ''reader'') @ s) = (sint (be_ID ev), ('','' @ member ''reader'') @ s)" for s
    by (rule read_int_format) (simp add: decimal_char_def)
  have sig: "(case strip ('','' @ member ''sig'') (?sig @ ''}'' @ rest) of None \<Rightarrow> Some ([], ?sig @ ''}'' @ rest) | Some s \<Rightarrow> read_string s)
      = Some (be_Sig ev, ''}'' @ rest)"
  proof (cases "be_Sig ev = []")
    case True
    have "strip ('','' @ member ''sig'') (''}'' @ rest) = None" by (simp add: strip_def member_def)
    then show ?thesis using True by simp
  next
    case False
    have "strip ('','' @ member ''sig'') (?sig @ ''}'' @ rest) = Some (json_string (be_Sig ev) @ ''}'' @ rest)"
      using False strip_append [of "'','' @ member ''sig''" "json_string (be_Sig ev) @ ''}'' @ rest"] by simp
    then show ?thesis using assms read_json_string [of "be_Sig ev" "''}'' @ rest"] by (simp add: ascii_event_def)
  qed
  show ?thesis
    unfolding read_event_def start Option.bind.bind_lunit Let_def num prod.case strip_append
    using assms by (simp only: read_json_string ascii_event_def Option.bind.bind_lunit prod.case strip_append sig
        of_int_sint) simp
qed

lemma event_json_start: "event_json ev = CHR ''{'' # tl (event_json ev)"
  by (simp add: event_json_def)

lemma read_events_json:
  assumes "list_all ascii_event (ev # evs)" "length (ev # evs) \<le> k" "take 1 rest \<noteq> '',''"
  shows "read_events k (Join '','' (map event_json (ev # evs)) @ rest) = Some (ev # evs, rest)"
  using assms
proof (induction evs arbitrary: ev k)
  case Nil
  then obtain k' where "k = Suc k'" by (cases k) auto
  moreover have "strip '','' rest = None" using Nil(3) by (simp add: strip_def)
  ultimately show ?case using Nil(1) by (simp add: read_event_json)
next
  case (Cons ev' evs)
  then obtain k' where k: "k = Suc k'" by (cases k) auto
  have "read_event (Join '','' (map event_json (ev # ev' # evs)) @ rest)
      = Some (ev, '','' @ Join '','' (map event_json (ev' # evs)) @ rest)"
    using Cons.prems(1) read_event_json [of ev] by simp
  moreover have "read_events k' (Join '','' (map event_json (ev' # evs)) @ rest) = Some (ev' # evs, rest)"
    using Cons k by simp
  ultimately show ?case by (simp only: k read_events.simps option.case prod.case strip_append) simp
qed

lemma event_json_not_nil: "0 < length (event_json ev)"
  by (simp add: event_json_def)

lemma length_Join: "length evs \<le> length (Join '','' (map event_json evs))"
proof (induction evs)
  case (Cons ev rest)
  then show ?case using event_json_not_nil [of ev] by (cases rest) (auto simp: Suc_le_eq)
qed simp

lemma read_pending_json:
  assumes "list_all ascii_event evs"
  shows "read_pending (pending_json evs) = Some evs"
proof (cases evs)
  case Nil
  then show ?thesis by (simp add: read_pending_def pending_json_def strip_def member_def)
next
  case (Cons ev rest)
  let ?items = "Join '','' (map event_json evs)"
  have body: "strip (''{'' @ member ''events'' @ ''['') (pending_json evs) = Some (?items @ '']}'')"
    using strip_append [of "''{'' @ member ''events'' @ ''[''" "?items @ '']}''"] by (simp add: pending_json_def)
  have "hd ?items = CHR ''{''" "?items \<noteq> []"
    using Cons event_json_start [of ev] by (cases rest; simp; metis append_Cons list.sel(1) list.discI)+
  then have open': "strip '']}'' (?items @ '']}'') = None" by (cases ?items) (auto simp: strip_def)
  have "length evs \<le> length (pending_json evs)"
    using length_Join [of evs] by (simp add: pending_json_def)
  then have "read_events (length (pending_json evs)) (?items @ '']}'') = Some (evs, '']}'')"
    using read_events_json [of ev rest "length (pending_json evs)" "'']}''"] assms Cons by simp
  then show ?thesis
    unfolding read_pending_def body Option.bind.bind_lunit open' by simp
qed

section \<open>Streams\<close>

function blocks :: "string \<Rightarrow> string list" where
  "blocks s =
     (if s = [] then []
      else if take 2 s = blank_line then [] # blocks (drop 2 s)
      else case blocks (tl s) of [] \<Rightarrow> [[hd s]] | b # bs \<Rightarrow> (hd s # b) # bs)"
  by pat_completeness auto
termination
  by (relation "measure length") auto

declare blocks.simps [simp del]

lemma blocks_line: "CHR 0x0A \<notin> set a \<Longrightarrow> blocks (a @ blank_line @ s) = a # blocks s"
proof (induction a)
  case Nil
  then show ?case by (subst blocks.simps) (simp add: blank_line_def)
next
  case (Cons c a)
  then show ?case by (subst blocks.simps) (auto simp: blank_line_def)
qed

lemma blocks_two_lines:
  assumes "CHR 0x0A \<notin> set a" "CHR 0x0A \<notin> set b" "b \<noteq> []"
  shows "blocks ((a @ CHR 0x0A # b) @ blank_line @ s) = (a @ CHR 0x0A # b) # blocks s"
  using assms(1)
proof (induction a)
  case Nil
  have "hd b \<noteq> CHR 0x0A" using assms(2,3) by (cases b) auto
  then have "blocks (CHR 0x0A # b @ blank_line @ s) = (case blocks (b @ blank_line @ s) of [] \<Rightarrow> [[CHR 0x0A]]
      | x # xs \<Rightarrow> (CHR 0x0A # x) # xs)"
    using assms(3) by (subst blocks.simps) (cases b; simp add: blank_line_def split: list.split)
  then show ?case by (simp add: blocks_line [OF assms(2)])
next
  case (Cons c a)
  then show ?case by (subst blocks.simps) (auto simp: blank_line_def)
qed

lemma rune_bytes: "k < rune_length bs \<Longrightarrow> 128 \<le> bs ! k"
proof -
  assume k: "k < rune_length bs"
  then obtain b0 b1 b2 b3 rest where bs: "bs = b0 # b1 # b2 # b3 # rest"
    by (auto simp: rune_length_def split: list.splits)
  have "rune_length bs \<le> 4" by (simp add: rune_length_def bs)
  with k have "k = 0 \<or> k = 1 \<or> k = 2 \<or> k = 3" by auto
  then show ?thesis using k by (auto simp: bs rune_length_def tail_byte_def split: if_splits)
qed

lemma rune_no_newline: "CHR 0x0A \<notin> set (take (rune_of s) s)"
proof
  assume "CHR 0x0A \<in> set (take (rune_of s) s)"
  then obtain k where k: "k < rune_of s" "k < length s" "s ! k = CHR 0x0A" by (auto simp: in_set_conv_nth)
  with rune_bytes [of k "map of_char s @ [0, 0, 0]"] show False by (simp add: rune_of_def nth_append)
qed

lemma hex_lower_not_newline: "n < 16 \<Longrightarrow> hex_lower n \<noteq> CHR 0x0A"
proof -
  have "\<forall>n \<in> set [0..<16]. hex_lower n \<noteq> CHR 0x0A" by code_simp
  then show "n < 16 \<Longrightarrow> hex_lower n \<noteq> CHR 0x0A" by simp
qed

lemma escape_no_newline: "CHR 0x0A \<notin> set (ascii_escape c)"
proof (cases c rule: escape_cases)
  case long
  have "hex_lower (of_char c div 16) \<noteq> CHR 0x0A" "hex_lower (of_char c mod 16) \<noteq> CHR 0x0A"
    using of_char_div_16 [of c] by (simp_all add: hex_lower_not_newline)
  then show ?thesis by (simp add: long)
qed auto

lemma json_no_newline: "CHR 0x0A \<notin> set (json_chars s)"
proof (induction s rule: json_chars.induct)
  case (1 s)
  show ?case
  proof (cases s)
    case (Cons c rest)
    then show ?thesis using 1 escape_no_newline [of c] rune_no_newline [of s]
      by (subst json_chars.simps) (auto simp: Cons split: if_splits)
  qed (simp add: json_chars.simps)
qed

lemma format_no_newline: "CHR 0x0A \<notin> set (FormatInt n)"
proof -
  have "CHR 0x0A \<notin> set (Itoa k)" for k
    using Itoa_decimal [of k] by (auto simp: list_all_iff decimal_char_def)
  then show ?thesis by (simp add: FormatInt_def)
qed

lemma event_no_newline: "CHR 0x0A \<notin> set (event_json ev)"
  using json_no_newline format_no_newline by (simp add: event_json_def member_def json_string_def)

lemma blocks_stimulus: "blocks (sse_body x @ blank_line @ s) = sse_body x # blocks s"
proof (cases x)
  case (Arrives ev)
  then show ?thesis
    using blocks_two_lines [of "''event: card''" "''data: '' @ event_json ev" s] event_no_newline [of ev] by simp
next
  case Heartbeat
  then show ?thesis using blocks_line [of "'': keep-alive''" s] by simp
qed

section \<open>Properties\<close>

text \<open>C30. A page that polls with the id of the last event it saw reads back exactly the events after it:
  the cursor survives its way through the query, and the JSON body is read back to the events.\<close>

theorem pending_reads_back:
  assumes "list_all ascii_event (since (b_hub b) cursor)"
  shows "read_pending (re_body (handle_pending b (FormatInt (sint cursor)))) = Some (since (b_hub b) cursor)"
proof -
  have "- (2 ^ 63) \<le> sint cursor" "sint cursor < 2 ^ 63"
    using sint_greater_eq [of cursor] sint_less [of cursor] by simp_all
  then have "word_of_int (ParseInt (FormatInt (sint cursor))) = cursor" by (simp add: ParseInt_FormatInt)
  then show ?thesis using assms by (simp add: handle_pending_def read_pending_json)
qed

text \<open>The stream of the bridge is never torn: whatever bytes the tags and signatures hold, splitting it at
  its blank lines gives back one block for the greeting, each event and each heartbeat, in order.\<close>

theorem stream_splits:
  assumes "CHR 0x0A \<notin> set quoted"
  shows "blocks (re_body (handle_events True quoted stimuli)) = sse_hello quoted # map sse_body stimuli"
proof -
  have rest: "blocks (concat (map (\<lambda>body. body @ blank_line) (map sse_body stimuli))) = map sse_body stimuli"
    by (induction stimuli) (simp_all add: blocks.simps [of "[]"] blocks_stimulus)
  have "blocks (sse_hello quoted @ blank_line @ s) = sse_hello quoted # blocks s" for s
    using blocks_two_lines [of "''event: hello''" "''data: {'' @ member ''version'' @ quoted @ ''}''" s] assms
    by (simp add: sse_hello_def member_def)
  then show ?thesis using rest by (simp add: handle_events_def)
qed

section \<open>Witnesses\<close>

definition sample_event :: BridgeEvent where
  "sample_event = \<lparr>be_ID = 7, be_Reader = ''ab-cdef-gh'', be_Card = ''abc-def-ghij'', be_Sig = ''U1<&''\<rparr>"

definition sample_bridge :: Bridge where
  "sample_bridge = \<lparr>b_hub = \<lparr>h_next = 7, h_cap = 64, h_buf = [sample_event], h_subs = (\<lambda>_. None), h_made = 0\<rparr>,
     b_dd = newBridgeDedup 0 0 0, b_signer = None\<rparr>"

theorem pending_reads_back_witness:
  "read_pending (re_body (handle_pending sample_bridge (FormatInt 6))) = Some [sample_event]"
proof -
  have s: "since (b_hub sample_bridge) 6 = [sample_event]" by (simp add: since_def sample_bridge_def sample_event_def)
  then have "list_all ascii_event (since (b_hub sample_bridge) 6)"
    by (simp add: ascii_event_def ascii_def sample_event_def)
  from pending_reads_back [OF this] show ?thesis by (simp add: s)
qed

theorem stream_splits_witness:
  "length (blocks (re_body (handle_events True [CHR 0x22, CHR ''v'', CHR 0x22] [Arrives sample_event, Heartbeat]))) = 3"
  using stream_splits [of "[CHR 0x22, CHR ''v'', CHR 0x22]" "[Arrives sample_event, Heartbeat]"] by simp

end
