(* ===== verification/Serving.thy ===== *)
theory Serving
  imports Surface
begin

text \<open>
  The bridge as a running HTTP service (\<open>bridge.go\<close>): the \<open>/events\<close> handler as the operations of its
  select loop on the hub, and \<open>ServeListener\<close> with its graceful shutdown, interleaved in any order with
  the watch loop that feeds presentations and with the pages that come and go. The state machine is an
  interpretation of \<open>invariant_machine\<close>; what a page reads is compared with the presentations granted
  while it was connected. \<open>net/http\<close> appears by its documented behaviour: \<open>Shutdown\<close> closes the
  listener and waits for the handlers, \<open>Close\<close> ends the connections without waiting.
\<close>

section \<open>The stream handler\<close>

text \<open>Which case of the select fired: the request's context, the channel, the heartbeat. \<open>st_open\<close> is that
  the handler still runs, \<open>st_gone\<close> that the connection under it is closed, by the page or by the server.\<close>

datatype wakeup = RequestDone | CardArrives | Ticks

record stream =
  st_channel :: nat
  st_body :: string
  st_open :: bool
  st_gone :: bool

definition events_open :: "string \<Rightarrow> bridgeHub \<Rightarrow> stream \<times> bridgeHub" where
  "events_open quoted h =
     (case subscribe h of (ch, h) \<Rightarrow>
        (\<lparr>st_channel = ch, st_body = sse_hello quoted @ blank_line, st_open = True, st_gone = False\<rparr>, h))"

definition events_write :: "stimulus \<Rightarrow> stream \<Rightarrow> stream" where
  "events_write x st = st\<lparr>st_body := st_body st @ sse_body x @ blank_line\<rparr>"

text \<open>One round of the loop; \<open>None\<close> when that case is not ready. Leaving runs the deferred \<open>cancel\<close>. The
  first argument is whether the context the server gave the request is done.\<close>

definition events_select :: "bool \<Rightarrow> wakeup \<Rightarrow> stream \<Rightarrow> bridgeHub \<Rightarrow> (stream \<times> bridgeHub) option" where
  "events_select done' k st h =
     (case k of
        RequestDone \<Rightarrow> if \<not> (done' \<or> st_gone st) then None else Some (st\<lparr>st_open := False\<rparr>, cancel h (st_channel st))
      | CardArrives \<Rightarrow>
          (case receive h (st_channel st) of
             (None, _) \<Rightarrow> None
           | (Some ev, h) \<Rightarrow> Some (events_write (Arrives ev) st, h))
      | Ticks \<Rightarrow> Some (events_write Heartbeat st, h))"

section \<open>The service\<close>

text \<open>Where \<open>ServeListener\<close> is: in its select, in the shutdown, or back with its error. \<open>ss_done\<close> is that its
  context is done, \<open>ss_base\<close> that \<open>BaseContext\<close> makes this context the parent of every request's.\<close>

datatype serving = Accepting | ShuttingDown | Returned "string option"

record service =
  ss_bridge :: Bridge
  ss_streams :: "stream list"
  ss_done :: bool
  ss_base :: bool
  ss_state :: serving

definition ServeListener :: "Bridge \<Rightarrow> service" where
  "ServeListener b = \<lparr>ss_bridge = b, ss_streams = [], ss_done = False, ss_base = True, ss_state = Accepting\<rparr>"

text \<open>\<open>Serve\<close>, given whether the address can be listened on; \<open>None\<close> is its error.\<close>

definition Serve :: "(string \<Rightarrow> bool) \<Rightarrow> Bridge \<Rightarrow> string \<Rightarrow> service option" where
  "Serve listen b addr = (if \<not> listen addr then None else Some (ServeListener b))"

text \<open>\<open>request_done\<close>: the context of a request ends with its parent; otherwise with its connection, which
  the record of the stream tells.\<close>

definition request_done :: "service \<Rightarrow> bool" where
  "request_done s \<longleftrightarrow> ss_base s \<and> ss_done s"

text \<open>\<open>srv.Close\<close>: every connection is closed, the handlers are not waited for.\<close>

definition srv_close :: "service \<Rightarrow> service" where
  "srv_close s = s\<lparr>ss_streams := map (\<lambda>st. st\<lparr>st_gone := True\<rparr>) (ss_streams s)\<rparr>"

text \<open>
  What happens to a service: the watch loop feeds an event; a page opens the stream or goes away; the
  handler of a stream goes round its loop; the context is cancelled; \<open>ServeListener\<close> takes its first
  case and calls \<open>Shutdown\<close>, which returns when the handlers are gone, or with an error at its
  deadline, and then \<open>srv.Close\<close> follows; the listener fails.
\<close>

datatype http_op = Feeds int Event | Opens | Goes nat | Selects nat wakeup | Cancels | Shuts | Drained | Deadline
  | Fails string

definition select_at :: "nat \<Rightarrow> wakeup \<Rightarrow> service \<Rightarrow> service" where
  "select_at i k s =
     (if i < length (ss_streams s) \<and> st_open (ss_streams s ! i) then
        (case events_select (request_done s) k (ss_streams s ! i) (b_hub (ss_bridge s)) of
           None \<Rightarrow> s
         | Some (st, h) \<Rightarrow> s\<lparr>ss_streams := (ss_streams s)[i := st], ss_bridge := (ss_bridge s)\<lparr>b_hub := h\<rparr>\<rparr>)
      else s)"

definition open_stream :: "string \<Rightarrow> service \<Rightarrow> service" where
  "open_stream quoted s =
     (case events_open quoted (b_hub (ss_bridge s)) of (st, h) \<Rightarrow>
        s\<lparr>ss_streams := ss_streams s @ [st], ss_bridge := (ss_bridge s)\<lparr>b_hub := h\<rparr>\<rparr>)"

definition page_goes :: "nat \<Rightarrow> service \<Rightarrow> service" where
  "page_goes i s =
     (if i < length (ss_streams s) then s\<lparr>ss_streams := (ss_streams s)[i := (ss_streams s ! i)\<lparr>st_gone := True\<rparr>]\<rparr> else s)"

fun http_step :: "string \<Rightarrow> service \<Rightarrow> http_op \<Rightarrow> service" where
  "http_step quoted s (Feeds now ev) = s\<lparr>ss_bridge := Feed (ss_bridge s) now ev\<rparr>"
| "http_step quoted s Opens = (if ss_state s = Accepting then open_stream quoted s else s)"
| "http_step quoted s (Goes i) = page_goes i s"
| "http_step quoted s (Selects i k) = select_at i k s"
| "http_step quoted s Cancels = s\<lparr>ss_done := True\<rparr>"
| "http_step quoted s Shuts = (if ss_state s = Accepting \<and> ss_done s then s\<lparr>ss_state := ShuttingDown\<rparr> else s)"
| "http_step quoted s Drained =
     (if ss_state s = ShuttingDown \<and> list_all (\<lambda>st. \<not> st_open st) (ss_streams s)
      then s\<lparr>ss_state := Returned None\<rparr> else s)"
| "http_step quoted s Deadline =
     (if ss_state s = ShuttingDown then (srv_close s)\<lparr>ss_state := Returned None\<rparr> else s)"
| "http_step quoted s (Fails e) = (if ss_state s = Accepting then s\<lparr>ss_state := Returned (Some e)\<rparr> else s)"

section \<open>The invariant\<close>

text \<open>The i-th page has the i-th channel, which the hub knows exactly while its handler runs; and
  \<open>ServeListener\<close> comes back without an error only after a cancellation.\<close>

abbreviation hub_of :: "service \<Rightarrow> bridgeHub" where
  "hub_of s \<equiv> b_hub (ss_bridge s)"

definition service_inv :: "service \<Rightarrow> bool" where
  "service_inv s \<longleftrightarrow> h_made (hub_of s) = length (ss_streams s)
     \<and> (\<forall>i < length (ss_streams s). st_channel (ss_streams s ! i) = i
          \<and> (h_subs (hub_of s) i \<noteq> None \<longleftrightarrow> st_open (ss_streams s ! i)))
     \<and> (\<forall>ch \<ge> length (ss_streams s). h_subs (hub_of s) ch = None)
     \<and> (ss_state s = ShuttingDown \<or> ss_state s = Returned None \<longrightarrow> ss_done s)"

lemma Feed_hub:
  "h_made (b_hub (Feed b now ev)) = h_made (b_hub b)"
  "h_subs (b_hub (Feed b now ev)) ch = None \<longleftrightarrow> h_subs (b_hub b) ch = None"
  by (auto simp: Feed_cases add_def Let_def split: option.split)

lemma receive_hub:
  "receive h ch = (r, h') \<Longrightarrow> h_made h' = h_made h \<and> (h_subs h' c = None \<longleftrightarrow> h_subs h c = None)"
  by (auto simp: receive_def split: option.splits list.splits if_splits)

lemma events_select_leaves:
  "events_select d RequestDone st h = Some r \<Longrightarrow> r = (st\<lparr>st_open := False\<rparr>, cancel h (st_channel st))"
  by (simp add: events_select_def split: if_splits)

lemma events_select_hub:
  assumes "events_select d k st h = Some (st', h')" "k \<noteq> RequestDone"
  shows "h_made h' = h_made h \<and> (h_subs h' c = None \<longleftrightarrow> h_subs h c = None) \<and> st_channel st' = st_channel st
    \<and> st_open st' = st_open st"
  using assms by (cases k) (auto simp: events_select_def events_write_def dest!: receive_hub split: prod.splits option.splits)

lemma select_at_inv:
  assumes "service_inv s"
  shows "service_inv (select_at i k s)"
proof (cases "i < length (ss_streams s) \<and> st_open (ss_streams s ! i)")
  case True
  show ?thesis
  proof (cases "events_select (request_done s) k (ss_streams s ! i) (hub_of s)")
    case (Some r)
    obtain st h where r: "r = (st, h)" by (cases r)
    have s': "select_at i k s = s\<lparr>ss_streams := (ss_streams s)[i := st], ss_bridge := (ss_bridge s)\<lparr>b_hub := h\<rparr>\<rparr>"
      using True by (simp add: select_at_def Some r)
    show ?thesis
    proof (cases "k = RequestDone")
      case leaves: True
      then have "st = (ss_streams s ! i)\<lparr>st_open := False\<rparr>" "h = cancel (hub_of s) i"
        using events_select_leaves [of "request_done s" "ss_streams s ! i" "hub_of s" r] Some r assms True
        by (auto simp: service_inv_def)
      then show ?thesis using assms True
        by (auto simp: s' service_inv_def cancel_def nth_list_update)
    next
      case False
      then have "h_made h = h_made (hub_of s) \<and> (\<forall>c. h_subs h c = None \<longleftrightarrow> h_subs (hub_of s) c = None)
          \<and> st_channel st = i \<and> st_open st"
        using events_select_hub [of "request_done s" k "ss_streams s ! i" "hub_of s" st h] Some r assms True by (auto simp: service_inv_def)
      then show ?thesis using assms True
        by (auto simp: s' service_inv_def nth_list_update)
    qed
  qed (use assms in \<open>simp add: select_at_def\<close>)
qed (use assms in \<open>auto simp: select_at_def\<close>)

lemma open_stream_inv: "service_inv s \<Longrightarrow> service_inv (open_stream quoted s)"
  by (auto simp: service_inv_def open_stream_def events_open_def subscribe_def nth_append less_Suc_eq)

lemma http_step_inv: "service_inv s \<Longrightarrow> service_inv (http_step quoted s op)"
  by (cases op) (simp add: service_inv_def Feed_hub, simp add: open_stream_inv,
    simp add: service_inv_def page_goes_def nth_list_update, simp add: select_at_inv,
    auto simp: service_inv_def page_goes_def srv_close_def nth_list_update)

interpretation served: invariant_machine "ServeListener (NewBridge opts start)" "http_step quoted" service_inv
  for quoted opts start
  by unfold_locales
    (simp add: service_inv_def ServeListener_def NewBridge_def newBridgeHub_def Let_def, rule http_step_inv)

abbreviation after_ops :: "string \<Rightarrow> service \<Rightarrow> http_op list \<Rightarrow> service" where
  "after_ops quoted \<equiv> foldl (http_step quoted)"

section \<open>What is broadcast\<close>

definition broadcast :: "service \<Rightarrow> http_op \<Rightarrow> BridgeEvent list" where
  "broadcast s op =
     (case op of Feeds now ev \<Rightarrow>
        (case feed_call ev of None \<Rightarrow> []
         | Some (reader, btag) \<Rightarrow>
             if fst (allow (b_dd (ss_bridge s)) now reader btag)
             then [fst (add (hub_of s) reader btag (signature_of (b_signer (ss_bridge s)) reader btag))] else [])
      | _ \<Rightarrow> [])"

fun broadcasts :: "string \<Rightarrow> service \<Rightarrow> http_op list \<Rightarrow> BridgeEvent list" where
  "broadcasts quoted s [] = []"
| "broadcasts quoted s (op # ops) = broadcast s op @ broadcasts quoted (http_step quoted s op) ops"

fun feeds_of :: "http_op list \<Rightarrow> (int \<times> Event) list" where
  "feeds_of [] = []"
| "feeds_of (op # ops) = (case op of Feeds now ev \<Rightarrow> (now, ev) # feeds_of ops | _ \<Rightarrow> feeds_of ops)"

lemma feeds_of_append [simp]: "feeds_of (a @ b) = feeds_of a @ feeds_of b"
  by (induction a) (auto split: http_op.split)

text \<open>Pages and the shutdown leave alone what decides and numbers a presentation.\<close>

lemma not_feeding:
  assumes "\<And>now ev. op \<noteq> Feeds now ev"
  shows "b_dd (ss_bridge (http_step quoted s op)) = b_dd (ss_bridge s)
    \<and> b_signer (ss_bridge (http_step quoted s op)) = b_signer (ss_bridge s)
    \<and> h_next (hub_of (http_step quoted s op)) = h_next (hub_of s) \<and> broadcast s op = []
    \<and> feeds_of (op # ops) = feeds_of ops"
proof (cases op)
  case (Selects i k)
  have "h_next h = h_next (hub_of s)" if "events_select d k st (hub_of s) = Some (st', h)" for d st st' h
    using that by (cases k) (auto simp: events_select_def cancel_def receive_def split: option.splits list.splits prod.splits if_splits)
  then show ?thesis by (auto simp: Selects broadcast_def select_at_def split: option.split)
qed (use assms in \<open>auto simp: broadcast_def open_stream_def events_open_def subscribe_def page_goes_def srv_close_def\<close>)

lemma broadcasts_granted:
  "h_next (hub_of s) = word_of_nat n \<Longrightarrow>
   broadcasts quoted s ops = numbered n (granted (b_signer (ss_bridge s))
     (fst (allow_all (b_dd (ss_bridge s)) (calls_of (feeds_of ops)))) (calls_of (feeds_of ops)))"
proof (induction ops arbitrary: s n)
  case Nil
  then show ?case by (simp add: granted_def numbered_def)
next
  case (Cons op ops)
  let ?s = "http_step quoted s op"
  show ?case
  proof (cases "\<exists>now ev. op = Feeds now ev")
    case False
    then have other: "op \<noteq> Feeds now ev" for now ev by blast
    note keep = not_feeding [OF other, where s = s and quoted = quoted and ops = ops]
    have "h_next (hub_of ?s) = word_of_nat n" using keep Cons.prems by simp
    from Cons.IH [OF this] keep show ?thesis by simp
  next
    case True
    then obtain now ev where op: "op = Feeds now ev" by blast
    show ?thesis
    proof (cases "feed_call ev")
      case None
      then have "?s = s" by (simp add: op Feed_cases)
      with None Cons show ?thesis by (simp add: op broadcast_def)
    next
      case (Some call)
      obtain reader btag where call: "call = (reader, btag)" by (cases call)
      let ?ok = "fst (allow (b_dd (ss_bridge s)) now reader btag)"
      have dd: "b_dd (ss_bridge ?s) = snd (allow (b_dd (ss_bridge s)) now reader btag)"
        "b_signer (ss_bridge ?s) = b_signer (ss_bridge s)"
        by (simp_all add: op Feed_cases Some call)
      have nxt: "h_next (hub_of ?s) = word_of_nat (if ?ok then Suc n else n)"
        using Cons.prems by (simp add: op Feed_cases Some call add_def Let_def)
      have one: "broadcast s op = (if ?ok then [presentation (Suc n) (reader, btag, signature_of (b_signer (ss_bridge s)) reader btag)] else [])"
        using Cons.prems by (simp add: op broadcast_def Some call add_def Let_def presentation_def add.commute)
      note rest = Cons.IH [OF nxt, unfolded dd]
      have calls: "calls_of (feeds_of (op # ops)) = (now, reader, btag) # calls_of (feeds_of ops)"
        by (simp add: op Some call)
      show ?thesis unfolding broadcasts.simps one rest calls
        by (simp add: granted_def numbered_Cons Let_def case_prod_unfold)
    qed
  qed
qed

lemma broadcasts_append: "broadcasts quoted s (a @ b) = broadcasts quoted s a @ broadcasts quoted (after_ops quoted s a) b"
  by (induction a arbitrary: s) simp_all

section \<open>What a stream carries\<close>

definition writes :: "stimulus list \<Rightarrow> string" where
  "writes xs = concat (map (\<lambda>x. sse_body x @ blank_line) xs)"

fun arrived :: "stimulus list \<Rightarrow> BridgeEvent list" where
  "arrived [] = []"
| "arrived (Arrives ev # xs) = ev # arrived xs"
| "arrived (Heartbeat # xs) = arrived xs"

lemma writes_simps [simp]: "writes [] = []" "writes (a @ b) = writes a @ writes b"
  by (simp_all add: writes_def)

lemma arrived_append [simp]: "arrived (a @ b) = arrived a @ arrived b"
  by (induction a rule: arrived.induct) simp_all

definition waiting :: "service \<Rightarrow> nat \<Rightarrow> BridgeEvent list" where
  "waiting s i = (case h_subs (hub_of s) i of Some q \<Rightarrow> q | None \<Rightarrow> [])"

abbreviation live :: "service \<Rightarrow> nat \<Rightarrow> bool" where
  "live s i \<equiv> st_open (ss_streams s ! i)"

text \<open>One step, seen from a stream: it goes on with what came and went through its channel, or its full
  channel misses the broadcast, or it ends.\<close>

definition moves :: "service \<Rightarrow> http_op \<Rightarrow> service \<Rightarrow> nat \<Rightarrow> stimulus list \<Rightarrow> bool" where
  "moves s op s' i xs \<longleftrightarrow>
     (if live s i then
        (if live s' i then arrived xs @ waiting s' i = waiting s i @ broadcast s op
           \<or> xs = [] \<and> 16 \<le> length (waiting s i) \<and> waiting s' i = waiting s i \<and> length (broadcast s op) = 1
         else xs = [] \<and> broadcast s op = [])
      else xs = [] \<and> \<not> live s' i)"

lemma add_subs: "h_subs (snd (add h reader btag sig)) ch = map_option (try_send (fst (add h reader btag sig))) (h_subs h ch)"
  by (simp add: add_def Let_def)

lemma stream_step:
  assumes "service_inv s" "i < length (ss_streams s)"
  shows "\<exists>xs. i < length (ss_streams (http_step quoted s op))
    \<and> st_body (ss_streams (http_step quoted s op) ! i) = st_body (ss_streams s ! i) @ writes xs
    \<and> moves s op (http_step quoted s op) i xs"
proof (cases op)
  case (Feeds now ev)
  have "moves s op (http_step quoted s op) i []"
  proof (cases "h_subs (hub_of s) i")
    case None
    then show ?thesis using assms by (auto simp: Feeds moves_def service_inv_def)
  next
    case (Some q)
    then show ?thesis
      by (cases "feed_call ev") (auto simp: Feeds moves_def waiting_def broadcast_def Feed_cases add_subs try_send_def split: if_splits)
  qed
  then show ?thesis using assms(2) by (intro exI [of _ "[]"]) (simp add: Feeds)
next
  case Opens
  have "waiting (open_stream quoted s) i = waiting s i"
    using assms by (simp add: waiting_def open_stream_def events_open_def subscribe_def service_inv_def)
  then show ?thesis using assms(2)
    by (intro exI [of _ "[]"]) (auto simp: Opens moves_def broadcast_def open_stream_def events_open_def subscribe_def nth_append)
next
  case (Selects j k)
  let ?s = "select_at j k s"
  have quiet: "broadcast s op = []" by (simp add: Selects broadcast_def)
  show ?thesis
  proof (cases "j < length (ss_streams s) \<and> st_open (ss_streams s ! j) \<and> events_select (request_done s) k (ss_streams s ! j) (hub_of s) \<noteq> None")
    case False
    then have "?s = s" by (cases "events_select (request_done s) k (ss_streams s ! j) (hub_of s)") (auto simp: select_at_def)
    then show ?thesis using assms(2) quiet by (intro exI [of _ "[]"]) (simp add: Selects moves_def)
  next
    case True
    then obtain st h where sel: "events_select (request_done s) k (ss_streams s ! j) (hub_of s) = Some (st, h)" by auto
    have s': "?s = s\<lparr>ss_streams := (ss_streams s)[j := st], ss_bridge := (ss_bridge s)\<lparr>b_hub := h\<rparr>\<rparr>"
      using True by (simp add: select_at_def sel)
    have ch: "st_channel (ss_streams s ! j) = j" using assms(1) True by (simp add: service_inv_def)
    have other: "h_subs h i = h_subs (hub_of s) i" if "i \<noteq> j"
      using sel that ch
      by (cases k) (auto simp: events_select_def cancel_def receive_def split: option.splits list.splits prod.splits if_splits)
    show ?thesis
    proof (cases "i = j")
      case False
      then show ?thesis using assms(2) quiet other
        by (intro exI [of _ "[]"]) (simp add: Selects s' moves_def waiting_def)
    next
      case same: True
      obtain q where q: "h_subs (hub_of s) i = Some q" using assms True same by (auto simp: service_inv_def)
      show ?thesis
      proof (cases k)
        case RequestDone
        then have "\<not> st_open st" "st_body st = st_body (ss_streams s ! i)"
          using sel same by (auto dest: events_select_leaves)
        then show ?thesis using assms(2) True quiet same
          by (intro exI [of _ "[]"]) (simp add: Selects s' moves_def)
      next
        case CardArrives
        with sel obtain ev where ev: "receive (hub_of s) j = (Some ev, h)" "st = events_write (Arrives ev) (ss_streams s ! j)"
          by (auto simp: events_select_def ch split: prod.splits option.splits)
        then have "q = ev # tl q" "h_subs h i = Some (tl q)" using q same by (auto simp: receive_def split: list.splits)
        then show ?thesis using ev(2) assms(2) True quiet same q
          by (intro exI [of _ "[Arrives ev]"]) (auto simp: Selects s' moves_def waiting_def events_write_def writes_def)
      next
        case Ticks
        then show ?thesis using sel assms(2) True quiet same
          by (intro exI [of _ "[Heartbeat]"]) (auto simp: Selects s' [unfolded Ticks] moves_def waiting_def events_select_def events_write_def writes_def)
      qed
    qed
  qed
qed (use assms in \<open>auto intro!: exI [of _ "[]"]
  simp: moves_def broadcast_def waiting_def page_goes_def srv_close_def nth_list_update\<close>)

text \<open>
  What a stream was given of what was due to it, with the rest still in its channel while it is live: nothing
  twice, nothing out of order, and nothing lost while no more than sixteen were due.
\<close>

definition follows :: "bool \<Rightarrow> 'a list \<Rightarrow> 'a list \<Rightarrow> 'a list \<Rightarrow> bool" where
  "follows running got rest due \<longleftrightarrow>
     (if running then subseq (got @ rest) due \<and> (length due \<le> 16 \<longrightarrow> got @ rest = due)
      else subseq got due \<and> (length due \<le> 16 \<longrightarrow> prefix got due))"

lemma follows_prepend: "follows running got rest due \<Longrightarrow> follows running (p @ got) rest (p @ due)"
  by (auto simp: follows_def subseq_append')

lemma follows_subseq: "follows running got rest due \<Longrightarrow> subseq got due"
  using subseq_order.trans [of got "got @ rest" due] by (auto simp: follows_def prefix_imp_subseq split: if_splits)

lemma follows_small: "follows True got rest due \<Longrightarrow> length due \<le> 16 \<Longrightarrow> got @ rest = due"
  by (simp add: follows_def)

lemma follows_lost:
  assumes "follows running got rest (w @ due)" "16 \<le> length w" "length b = 1"
  shows "follows running got rest (w @ b @ due)"
proof -
  have "subseq (w @ due) (w @ b @ due)" by (simp add: subseq_append' list_emb_append2)
  then show ?thesis using assms by (auto simp: follows_def intro: subseq_order.trans)
qed

lemma stream_run:
  assumes "service_inv s" "i < length (ss_streams s)"
  shows "\<exists>xs. i < length (ss_streams (after_ops quoted s ops))
    \<and> st_body (ss_streams (after_ops quoted s ops) ! i) = st_body (ss_streams s ! i) @ writes xs
    \<and> (if live s i then follows (live (after_ops quoted s ops) i) (arrived xs) (waiting (after_ops quoted s ops) i)
           (waiting s i @ broadcasts quoted s ops)
       else xs = [] \<and> \<not> live (after_ops quoted s ops) i)"
  using assms
proof (induction ops arbitrary: s)
  case Nil
  then show ?case by (intro exI [of _ "[]"]) (simp add: follows_def)
next
  case (Cons op ops)
  let ?s = "http_step quoted s op"
  obtain xs where x: "i < length (ss_streams ?s)" "st_body (ss_streams ?s ! i) = st_body (ss_streams s ! i) @ writes xs"
    "moves s op ?s i xs" using stream_step [OF Cons.prems] by blast
  obtain ys where y: "i < length (ss_streams (after_ops quoted ?s ops))"
    "st_body (ss_streams (after_ops quoted ?s ops) ! i) = st_body (ss_streams ?s ! i) @ writes ys"
    "if live ?s i then follows (live (after_ops quoted ?s ops) i) (arrived ys) (waiting (after_ops quoted ?s ops) i)
         (waiting ?s i @ broadcasts quoted ?s ops)
     else ys = [] \<and> \<not> live (after_ops quoted ?s ops) i"
    using Cons.IH [OF http_step_inv [OF Cons.prems(1)] x(1)] by blast
  have "if live s i then follows (live (after_ops quoted ?s ops) i) (arrived (xs @ ys)) (waiting (after_ops quoted ?s ops) i)
           (waiting s i @ broadcast s op @ broadcasts quoted ?s ops)
       else xs @ ys = [] \<and> \<not> live (after_ops quoted ?s ops) i"
  proof (cases "live s i \<and> live ?s i")
    case True
    then have f: "follows (live (after_ops quoted ?s ops) i) (arrived ys) (waiting (after_ops quoted ?s ops) i)
         (waiting ?s i @ broadcasts quoted ?s ops)" using y(3) by simp
    from True x(3) consider (through) "arrived xs @ waiting ?s i = waiting s i @ broadcast s op"
      | (lost) "xs = []" "16 \<le> length (waiting s i)" "waiting ?s i = waiting s i" "length (broadcast s op) = 1"
      by (auto simp: moves_def)
    then show ?thesis
    proof cases
      case through
      from follows_prepend [OF f, of "arrived xs"] have
        "follows (live (after_ops quoted ?s ops) i) (arrived xs @ arrived ys) (waiting (after_ops quoted ?s ops) i)
          ((arrived xs @ waiting ?s i) @ broadcasts quoted ?s ops)" by simp
      then show ?thesis using True unfolding through by simp
    next
      case lost
      from f have "follows (live (after_ops quoted ?s ops) i) (arrived ys) (waiting (after_ops quoted ?s ops) i)
          (waiting s i @ broadcasts quoted ?s ops)" by (simp add: lost(3))
      from follows_lost [OF this lost(2,4)] show ?thesis using True lost(1) by simp
    qed
  next
    case False
    then show ?thesis using x(3) y(3) by (auto simp: moves_def follows_def split: if_splits)
  qed
  then show ?case using x(2) y(1,2) by (intro exI [of _ "xs @ ys"]) (simp split: if_splits)
qed

section \<open>What a page reads\<close>

text \<open>The page's side: the blocks of the stream that are card events, read as JSON.\<close>

definition page_events :: "string \<Rightarrow> BridgeEvent list" where
  "page_events body =
     List.map_filter (\<lambda>block. Option.bind (strip (''event: card'' @ [CHR 0x0A] @ ''data: '') block)
       (\<lambda>json. map_option fst (read_event json))) (blocks body)"

lemma body_is_response: "sse_hello quoted @ blank_line @ writes xs = re_body (handle_events True quoted xs)"
  by (simp add: handle_events_def writes_def comp_def)

lemma page_reads_stream:
  assumes "CHR 0x0A \<notin> set quoted" "list_all ascii_event (arrived xs)"
  shows "page_events (sse_hello quoted @ blank_line @ writes xs) = arrived xs"
proof -
  let ?read = "\<lambda>block. Option.bind (strip (''event: card'' @ [CHR 0x0A] @ ''data: '') block)
       (\<lambda>json. map_option fst (read_event json))"
  have card: "?read (sse_body (Arrives ev)) = Some ev" if "ascii_event ev" for ev
    using read_event_json [OF that, of "[]"] strip_append [of "''event: card'' @ [CHR 0x0A] @ ''data: ''" "event_json ev"]
    by simp
  have rest: "?read (sse_body Heartbeat) = None" "?read (sse_hello quoted) = None"
    by (simp_all add: strip_def sse_hello_def)
  have "List.map_filter ?read (map sse_body xs) = arrived xs"
    using assms(2)
  proof (induction xs rule: arrived.induct)
    case (2 ev xs)
    then show ?case using card [of ev] by (simp add: map_filter_simps del: sse_body.simps)
  next
    case (3 xs)
    then show ?case using rest(1) by (simp add: map_filter_simps del: sse_body.simps)
  qed (simp add: map_filter_simps)
  then show ?thesis
    using rest(2) stream_splits [OF assms(1)] by (simp add: body_is_response page_events_def map_filter_simps)
qed

lemma next_after: "h_next (hub_of s) = word_of_nat n \<Longrightarrow>
  h_next (hub_of (after_ops quoted s ops)) = word_of_nat (n + length (broadcasts quoted s ops))"
proof (induction ops arbitrary: s n)
  case (Cons op ops)
  have "h_next (hub_of (http_step quoted s op)) = word_of_nat (n + length (broadcast s op))"
  proof (cases "\<exists>now ev. op = Feeds now ev")
    case False
    then show ?thesis using not_feeding [where op = op and s = s and quoted = quoted and ops = "[]"] Cons.prems by auto
  next
    case True
    then show ?thesis using Cons.prems
      by (auto simp: broadcast_def Feed_cases add_def Let_def add.commute split: option.splits)
  qed
  from Cons.IH [OF this] show ?case by (simp add: add.assoc)
qed simp

section \<open>The shutdown\<close>

text \<open>A run of the service under an endless schedule.\<close>

primrec run_of :: "string \<Rightarrow> service \<Rightarrow> (nat \<Rightarrow> http_op) \<Rightarrow> nat \<Rightarrow> service" where
  "run_of quoted s ops 0 = s"
| "run_of quoted s ops (Suc n) = http_step quoted (run_of quoted s ops n) (ops n)"

lemma run_of_keeps:
  assumes "P (run_of quoted s ops n)" "\<And>t op. P t \<Longrightarrow> P (http_step quoted t op)" "n \<le> m"
  shows "P (run_of quoted s ops m)"
  using assms(3,1) by (induction rule: dec_induct) (simp_all add: assms(2))

text \<open>Weak fairness of the runtime: what can happen, and stays possible, happens: the case of the select
  in \<open>ServeListener\<close>, the return of \<open>Shutdown\<close>, and in a handler the case of a request whose context is
  done. Nothing is said of the pages, of the feeding loop, or of the other cases of a handler.\<close>

definition fair :: "string \<Rightarrow> service \<Rightarrow> (nat \<Rightarrow> http_op) \<Rightarrow> bool" where
  "fair quoted s ops \<longleftrightarrow> (\<forall>n. let t = run_of quoted s ops n in
     (ss_state t = Accepting \<and> ss_done t \<longrightarrow> (\<exists>m \<ge> n. ops m = Shuts))
     \<and> (ss_state t = ShuttingDown \<and> list_all (\<lambda>st. \<not> st_open st) (ss_streams t) \<longrightarrow> (\<exists>m \<ge> n. ops m = Drained))
     \<and> (\<forall>i < length (ss_streams t). live t i \<and> (request_done t \<or> st_gone (ss_streams t ! i)) \<longrightarrow>
          (\<exists>m \<ge> n. ops m = Selects i RequestDone)))"

lemma done_kept: "ss_done s \<and> ss_base s \<Longrightarrow> ss_done (http_step quoted s op) \<and> ss_base (http_step quoted s op)"
  by (cases op) (auto simp: select_at_def open_stream_def page_goes_def srv_close_def split: option.split prod.split)

lemma base_kept: "ss_base (http_step quoted s op) = ss_base s"
  by (cases op) (auto simp: select_at_def open_stream_def page_goes_def srv_close_def split: option.split prod.split)

lemma left_accepting:
  "ss_state s \<noteq> Accepting \<Longrightarrow> ss_state (http_step quoted s op) \<noteq> Accepting
     \<and> length (ss_streams (http_step quoted s op)) = length (ss_streams s)"
  by (cases op) (auto simp: select_at_def page_goes_def srv_close_def split: option.split)

lemma streams_settled:
  assumes "ss_state (run_of quoted s ops n) \<noteq> Accepting" "n \<le> m"
  shows "length (ss_streams (run_of quoted s ops m)) = length (ss_streams (run_of quoted s ops n))"
proof -
  let ?settled = "\<lambda>t. ss_state t \<noteq> Accepting \<and> length (ss_streams t) = length (ss_streams (run_of quoted s ops n))"
  have "?settled (run_of quoted s ops m)"
  proof (rule run_of_keeps [where P = ?settled, OF _ _ assms(2)])
    fix t :: service and op assume t: "?settled t"
    from left_accepting [of t quoted op] t show "?settled (http_step quoted t op)" by presburger
  qed (use assms(1) in blast)
  then show ?thesis by (rule conjunct2)
qed

lemma cancelled_later:
  assumes "ss_done s" "ss_base s"
  shows "ss_done (run_of quoted s ops m) \<and> ss_base (run_of quoted s ops m)"
  by (rule run_of_keeps [where n = 0]) (use assms done_kept in auto)

lemma returned_kept: "ss_state s = Returned e \<Longrightarrow> ss_state (http_step quoted s op) = Returned e"
  by (cases op) (auto simp: select_at_def page_goes_def split: option.split)

lemma closed_kept:
  "i < length (ss_streams s) \<and> \<not> live s i \<Longrightarrow>
   i < length (ss_streams (http_step quoted s op)) \<and> \<not> live (http_step quoted s op) i"
  by (cases op) (auto simp: select_at_def open_stream_def page_goes_def srv_close_def nth_append nth_list_update
      split: option.split prod.split)

lemma select_leaves:
  assumes "i < length (ss_streams s)" "request_done s"
  shows "\<not> live (http_step quoted s (Selects i RequestDone)) i"
  using assms by (simp add: select_at_def events_select_def)

text \<open>Under a fair schedule, once the context is done, \<open>ServeListener\<close> leaves its select, every handler
  leaves its loop, and \<open>ServeListener\<close> returns.\<close>

lemma shutdown_starts:
  assumes "fair quoted s ops" "ss_done s" "ss_base s"
  shows "\<exists>n. \<forall>m \<ge> n. ss_state (run_of quoted s ops m) \<noteq> Accepting"
proof -
  have later: "\<forall>m \<ge> n. ss_state (run_of quoted s ops m) \<noteq> Accepting" if "ss_state (run_of quoted s ops n) \<noteq> Accepting" for n
    using run_of_keeps [where P = "\<lambda>t. ss_state t \<noteq> Accepting", OF that] left_accepting by blast
  show ?thesis
  proof (cases "ss_state s = Accepting")
    case True
    then obtain m where m: "ops m = Shuts" using assms(1,2) unfolding fair_def Let_def by (metis run_of.simps(1))
    have "ss_done (run_of quoted s ops m)" using cancelled_later [OF assms(2,3)] by simp
    then have "ss_state (run_of quoted s ops (Suc m)) \<noteq> Accepting" by (simp add: m)
    then show ?thesis using later by blast
  qed (use later [of 0] in auto)
qed

lemma handlers_leave:
  assumes "fair quoted s ops" "ss_done s" "ss_base s" "ss_state (run_of quoted s ops n) \<noteq> Accepting"
    and "k \<le> length (ss_streams (run_of quoted s ops n))"
  shows "\<exists>N \<ge> n. \<forall>m \<ge> N. \<forall>i < k. i < length (ss_streams (run_of quoted s ops m)) \<and> \<not> live (run_of quoted s ops m) i"
  using assms(5)
proof (induction k)
  case (Suc k)
  then obtain N where N: "n \<le> N" "\<forall>m \<ge> N. \<forall>i < k. i < length (ss_streams (run_of quoted s ops m)) \<and> \<not> live (run_of quoted s ops m) i"
    by auto
  note len = streams_settled [OF assms(4)]
  have due: "request_done (run_of quoted s ops m)" for m
    using cancelled_later [OF assms(2,3)] by (simp add: request_done_def)
  have "\<exists>M \<ge> n. \<not> live (run_of quoted s ops M) k"
  proof (cases "live (run_of quoted s ops n) k")
    case True
    then obtain m where m: "n \<le> m" "ops m = Selects k RequestDone"
      using assms(1) due [of n] Suc.prems unfolding fair_def Let_def by (meson Suc_le_lessD)
    have "k < length (ss_streams (run_of quoted s ops m))" using Suc.prems unfolding len [OF m(1)] by simp
    from select_leaves [OF this due, of quoted] m show ?thesis by (intro exI [of _ "Suc m"]) simp
  qed auto
  then obtain M where M: "n \<le> M" "\<not> live (run_of quoted s ops M) k" by blast
  have "k < length (ss_streams (run_of quoted s ops M))" using Suc.prems unfolding len [OF M(1)] by simp
  with M(2) have "k < length (ss_streams (run_of quoted s ops M)) \<and> \<not> live (run_of quoted s ops M) k" by blast
  from run_of_keeps [where P = "\<lambda>t. k < length (ss_streams t) \<and> \<not> live t k", OF this closed_kept]
  have "k < length (ss_streams (run_of quoted s ops m)) \<and> \<not> live (run_of quoted s ops m) k" if "M \<le> m" for m
    using that by blast
  with N M show ?case by (intro exI [of _ "max N M"]) (auto simp: less_Suc_eq)
qed auto

lemma live_channels:
  assumes "service_inv s" "list_all (\<lambda>st. \<not> st_open st) (ss_streams s)"
  shows "h_subs (hub_of s) = Map.empty"
proof
  fix ch
  show "h_subs (hub_of s) ch = None"
    using assms by (cases "ch < length (ss_streams s)") (auto simp: service_inv_def list_all_length)
qed

section \<open>Properties\<close>

text \<open>C4. What a page sees of the bridge, whatever else goes on: other pages, polls, a shutdown. A page that
  opens the stream and reads its JSON blocks gets only presentations the specification grants, none of
  them earlier than its connection, none twice, in order and with their numbers and signatures; and while
  no more than sixteen follow its connection, it has all of them but those still in its channel.\<close>

theorem page_sees_presentations:
  assumes "s1 = after_ops quoted (ServeListener (NewBridge (Some opts) start)) before" "ss_state s1 = Accepting"
    and "s2 = after_ops quoted s1 (Opens # afterwards)" "i = length (ss_streams s1)"
    and "calls = calls_of (feeds_of (before @ afterwards))" "length calls < 2 ^ 63"
    and "clock_ok start calls" "card (pairs_of calls) \<le> 1024"
    and "dd = b_dd (NewBridge (Some opts) start)"
    and "served_all = numbered 0 (granted (o_Signer opts) (spec_allow start (sint (d_grace dd)) (sint (d_window dd)) [] calls) calls)"
    and "list_all ascii_event served_all" "CHR 0x0A \<notin> set quoted"
  shows "follows (live s2 i) (page_events (st_body (ss_streams s2 ! i))) (waiting s2 i)
    (drop (nat (sint (h_next (hub_of s1)))) served_all)"
proof -
  let ?fresh = "ServeListener (NewBridge (Some opts) start)" and ?s = "http_step quoted s1 Opens"
  let ?past = "broadcasts quoted ?fresh before"
  have zero: "h_next (hub_of ?fresh) = word_of_nat 0"
    by (simp add: ServeListener_def NewBridge_parts newBridgeHub_def)
  have "fst (allow_all (b_dd (ss_bridge ?fresh)) calls) = spec_allow start (sint (d_grace dd)) (sint (d_window dd)) [] calls"
    using allow_all_new [OF assms(7)] assms(8)
    by (simp add: ServeListener_def assms(9) NewBridge_parts newBridgeDedup_def bridgeDedupMax_def)
  moreover have "feeds_of (before @ Opens # afterwards) = feeds_of (before @ afterwards)" by simp
  ultimately have "broadcasts quoted ?fresh (before @ Opens # afterwards) = served_all"
    using broadcasts_granted [OF zero, of quoted "before @ Opens # afterwards"] assms(5,10)
    by (simp add: ServeListener_def NewBridge_parts)
  then have parts: "served_all = ?past @ broadcasts quoted ?s afterwards"
    by (simp add: broadcasts_append assms(1) broadcast_def)
  have "length served_all \<le> length calls"
    using length_filter_le [of fst "zip (spec_allow start (sint (d_grace dd)) (sint (d_window dd)) [] calls) calls"]
    by (simp add: assms(10) granted_def)
  then have small: "length ?past < 2 ^ 63" using parts assms(6) by simp
  have "h_next (hub_of s1) = word_of_nat (length ?past)" using next_after [OF zero] assms(1) by simp
  then have due: "drop (nat (sint (h_next (hub_of s1)))) served_all = broadcasts quoted ?s afterwards"
    using small by (simp add: parts sint_word_of_nat)
  have s: "?s = open_stream quoted s1" using assms(2) by simp
  have inv: "service_inv s1" "service_inv ?s" unfolding assms(1) by (rule served.reachable_inv, rule http_step_inv, rule served.reachable_inv)
  then have ch: "h_made (hub_of s1) = i" by (simp add: service_inv_def assms(4))
  have new: "i < length (ss_streams ?s)" "ss_streams ?s ! i = \<lparr>st_channel = i, st_body = sse_hello quoted @ blank_line, st_open = True, st_gone = False\<rparr>"
    "waiting ?s i = []"
    unfolding s using ch by (simp_all add: open_stream_def events_open_def subscribe_def nth_append assms(4) waiting_def)
  obtain xs where x: "st_body (ss_streams s2 ! i) = (sse_hello quoted @ blank_line) @ writes xs"
    "follows (live s2 i) (arrived xs) (waiting s2 i) (broadcasts quoted ?s afterwards)"
    using stream_run [OF inv(2) new(1), of quoted afterwards] assms(3) unfolding new by auto
  have "subseq (arrived xs) (broadcasts quoted ?s afterwards)"
    using x(2) by (rule follows_subseq)
  then have "set (arrived xs) \<subseteq> set (broadcasts quoted ?s afterwards)" by (blast dest: list_emb_set)
  then have "set (arrived xs) \<subseteq> set served_all" unfolding parts set_append by blast
  then have "list_all ascii_event (arrived xs)" using assms(11) unfolding list_all_iff by blast
  from page_reads_stream [OF assms(12) this] x show ?thesis unfolding due by simp
qed

text \<open>C26. The service shuts down. Once the context of \<open>ServeListener\<close> is done, in whatever state that
  finds it, whatever pages are connected, whatever waits in their channels and whatever else goes on, under
  every fair schedule there is a moment after which \<open>ServeListener\<close> has returned, every stream handler
  has left its loop, and no subscription is left in the hub. The handlers learn of it through the parent
  context alone: their pages may stay connected for good.\<close>

theorem serving_ends:
  assumes "s = after_ops quoted (ServeListener (NewBridge opts start)) before" "ss_done s" "fair quoted s ops"
  shows "\<exists>n. \<forall>m \<ge> n. (\<exists>e. ss_state (run_of quoted s ops m) = Returned e)
    \<and> list_all (\<lambda>st. \<not> st_open st) (ss_streams (run_of quoted s ops m)) \<and> h_subs (hub_of (run_of quoted s ops m)) = Map.empty"
proof -
  let ?at = "run_of quoted s ops"
  have inv: "service_inv (?at m)" for m
    using run_of_keeps [of service_inv quoted s ops 0 m] served.reachable_inv [of quoted opts start before] http_step_inv
    by (simp add: assms(1))
  have "ss_base (foldl (http_step quoted) t ops)" if "ss_base t" for t ops
    using that by (induction ops arbitrary: t) (simp_all add: base_kept)
  then have base: "ss_base s" by (simp add: assms(1) ServeListener_def)
  obtain n0 where n0: "\<forall>m \<ge> n0. ss_state (?at m) \<noteq> Accepting" using shutdown_starts [OF assms(3,2) base] by blast
  from handlers_leave [OF assms(3,2) base, of n0 "length (ss_streams (?at n0))"] n0 obtain n1 where
    n1: "n0 \<le> n1" "\<forall>m \<ge> n1. \<forall>i < length (ss_streams (?at n0)). \<not> live (?at m) i" by auto
  have gone: "list_all (\<lambda>st. \<not> st_open st) (ss_streams (?at m))" if "n1 \<le> m" for m
  proof -
    have "n0 \<le> m" using n1(1) that by simp
    then have "length (ss_streams (?at m)) = length (ss_streams (?at n0))" using streams_settled n0 by blast
    then show ?thesis using n1(2) that unfolding list_all_length by simp
  qed
  have "\<exists>n2 \<ge> n1. \<exists>e. ss_state (?at n2) = Returned e"
  proof (cases "ss_state (?at n1)")
    case ShuttingDown
    then obtain m where m: "n1 \<le> m" "ops m = Drained"
      using assms(3) gone [of n1] unfolding fair_def Let_def by blast
    have "ss_state (?at m) \<noteq> Accepting" using n0 n1(1) m(1) by simp
    then have "\<exists>e. ss_state (?at (Suc m)) = Returned e" using gone [OF m(1)] m(2) by (cases "ss_state (?at m)") auto
    then show ?thesis using m(1) by (intro exI [of _ "Suc m"]) simp
  qed (use n0 n1(1) in auto)
  then obtain n2 e where n2: "n1 \<le> n2" "ss_state (?at n2) = Returned e" by blast
  have "ss_state (?at m) = Returned e" if "n2 \<le> m" for m
    by (rule run_of_keeps [where P = "\<lambda>t. ss_state t = Returned e", OF n2(2) _ that]) (rule returned_kept)
  with gone n2(1) live_channels [OF inv gone] show ?thesis by (intro exI [of _ n2]) auto
qed

section \<open>Witnesses\<close>

text \<open>A page connects before the first presentation, reads it, misses nothing, and the service is shut down.\<close>

definition sample_ops :: "http_op list" where
  "sample_ops = [Feeds 6 (shown ''r'' ''a''), Selects 0 CardArrives, Selects 0 Ticks, Feeds 9 (shown ''r'' ''b'')]"

abbreviation sample_quoted :: string where
  "sample_quoted \<equiv> [CHR 0x22, CHR ''v'', CHR 0x22]"

abbreviation sample_service :: service where
  "sample_service \<equiv> ServeListener (NewBridge (Some example_options) 0)"

lemma sample_calls: "calls_of (feeds_of ([] @ sample_ops)) = [(6, ''r'', ''a''), (9, ''r'', ''b'')]"
  by (simp add: sample_ops_def feed_call_def shown_def)

abbreviation sample_card :: "nat \<Rightarrow> string \<Rightarrow> BridgeEvent" where
  "sample_card n btag \<equiv> presentation n (''r'', btag, [])"

lemma page_sees_presentations_witness:
  "page_events (st_body (ss_streams (after_ops sample_quoted sample_service (Opens # sample_ops)) ! 0))
       @ waiting (after_ops sample_quoted sample_service (Opens # sample_ops)) 0
     = [sample_card 1 ''a'', sample_card 2 ''b'']"
proof -
  let ?s = "after_ops sample_quoted sample_service (Opens # sample_ops)"
  let ?dd = "b_dd (NewBridge (Some example_options) 0)"
  let ?all = "numbered 0 (granted (o_Signer example_options)
    (spec_allow 0 (sint (d_grace ?dd)) (sint (d_window ?dd)) [] [(6, ''r'', ''a''), (9, ''r'', ''b'')]) [(6, ''r'', ''a''), (9, ''r'', ''b'')])"
  have s: "sint (10 :: i64) = 10" "sint (5 :: i64) = 5" "0 <s (10 :: i64)" "0 <s (5 :: i64)"
    by (simp_all add: word_sless_alt)
  have all: "?all = [sample_card 1 ''a'', sample_card 2 ''b'']"
    by (simp add: NewBridge_parts example_options_def s newBridgeDedup_def seen_within_def granted_def signature_of_def
        numbered_def Let_def numeral_2_eq_2)
  then have ascii: "list_all ascii_event ?all" by (simp add: presentation_def ascii_event_def ascii_def)
  have new: "sample_service = after_ops sample_quoted sample_service []" "ss_state sample_service = Accepting"
    "0 = length (ss_streams sample_service)" "h_next (hub_of sample_service) = 0"
    by (simp_all add: ServeListener_def NewBridge_parts newBridgeHub_def)
  have pre: "length [(6 :: int, ''r'', ''a''), (9, ''r'', ''b'')] < 2 ^ 63" "clock_ok 0 [(6, ''r'', ''a''), (9, ''r'', ''b'')]"
    "card (pairs_of [(6, ''r'', ''a''), (9, ''r'', ''b'')]) \<le> 1024" "CHR 0x0A \<notin> set sample_quoted"
    by (simp_all add: barless_def pairs_of_def card_insert_if)
  have live: "live ?s 0" by code_simp
  have "follows (live ?s 0) (page_events (st_body (ss_streams ?s ! 0))) (waiting ?s 0) (drop (nat (sint (0 :: i64))) ?all)"
    using page_sees_presentations [OF new(1,2) refl new(3) sample_calls [symmetric] pre(1-3) refl refl ascii pre(4)]
    unfolding new(4) .
  then have "follows True (page_events (st_body (ss_streams ?s ! 0))) (waiting ?s 0) [sample_card 1 ''a'', sample_card 2 ''b'']"
    unfolding all using live by (simp only: sint_0 nat_0 drop_0)
  then show ?thesis by (rule follows_small) simp
qed

text \<open>One page is connected, and stays; the runtime tries the three things it owes in turn.\<close>

definition sample_schedule :: "nat \<Rightarrow> http_op" where
  "sample_schedule n = (if n mod 3 = 0 then Shuts else if n mod 3 = 1 then Selects 0 RequestDone else Drained)"

lemma sample_schedule_due: "\<exists>m \<ge> n. sample_schedule m = Shuts" "\<exists>m \<ge> n. sample_schedule m = Selects 0 RequestDone"
  "\<exists>m \<ge> n. sample_schedule m = Drained"
proof -
  show "\<exists>m \<ge> n. sample_schedule m = Shuts" by (rule exI [of _ "3 * n"]) (simp add: sample_schedule_def)
  show "\<exists>m \<ge> n. sample_schedule m = Selects 0 RequestDone"
    by (rule exI [of _ "3 * n + 1"]) (simp add: sample_schedule_def)
  have "(3 * n + 2) mod 3 = 2" by presburger
  then show "\<exists>m \<ge> n. sample_schedule m = Drained"
    by (intro exI [of _ "3 * n + 2"]) (simp add: sample_schedule_def del: add_2_eq_Suc')
qed

theorem serving_ends_witness:
  "\<exists>n e. ss_state (run_of sample_quoted (after_ops sample_quoted sample_service (Opens # sample_ops @ [Cancels]))
     sample_schedule n) = Returned e"
proof -
  let ?s = "after_ops sample_quoted sample_service (Opens # sample_ops @ [Cancels])"
  have s: "ss_done ?s" "length (ss_streams ?s) = 1" by code_simp+
  have "length (ss_streams (http_step sample_quoted t (sample_schedule n))) = length (ss_streams t)" for t n
    by (simp add: sample_schedule_def select_at_def split: option.split)
  then have "length (ss_streams (run_of sample_quoted ?s sample_schedule n)) = 1" for n
    by (induction n) (simp_all only: run_of.simps s(2))
  then have "fair sample_quoted ?s sample_schedule"
    using sample_schedule_due unfolding fair_def Let_def by (simp only: less_one) blast
  from serving_ends [OF refl s(1) this] show ?thesis by blast
qed

end
