(* ===== verification/Loopback.thy ===== *)
theory Loopback
  imports GoText
begin

text \<open>
  The guard of the bridge's listen address (\<open>bridge.go\<close>, \<open>RequireLoopback\<close>) with the functions of
  Go's \<open>net\<close> package it rests on: \<open>SplitHostPort\<close>, \<open>ParseIP\<close> (dotted IPv4 and IPv6 with an
  ellipsis or an embedded IPv4 tail; a zone is refused) and \<open>IsLoopback\<close>. An address is its sixteen
  bytes, IPv4 in the mapped form; the error values keep the step that failed.
\<close>

section \<open>Host and port\<close>

definition SplitHostPort :: "string \<Rightarrow> (string \<times> string) option" where
  "SplitHostPort hostport =
     (case LastIndexByte hostport CHR '':'' of
        None \<Rightarrow> None
      | Some i \<Rightarrow>
          (case (if hd hostport = CHR ''['' then
                   (case IndexByte hostport CHR '']'' of
                      None \<Rightarrow> None
                    | Some e \<Rightarrow> if e + 1 = length hostport then None
                        else if e + 1 = i then Some (take (e - 1) (drop 1 hostport), 1, e + 1)
                        else None)
                 else if CHR '':'' \<in> set (take i hostport) then None
                 else Some (take i hostport, 0, 0)) of
             None \<Rightarrow> None
           | Some (host, j, k) \<Rightarrow>
               if CHR ''['' \<in> set (drop j hostport) then None
               else if CHR '']'' \<in> set (drop k hostport) then None
               else Some (host, drop (i + 1) hostport)))"

section \<open>IPv4\<close>

definition is_digit :: "char \<Rightarrow> bool" where
  "is_digit c \<longleftrightarrow> 48 \<le> (of_char c :: nat) \<and> (of_char c :: nat) \<le> 57"

definition digit_value :: "char \<Rightarrow> nat" where
  "digit_value c = of_char c - 48"

text \<open>The loop of \<open>parseIPv4Fields\<close>: \<open>start\<close> holds at the first byte and behind a dot.\<close>

fun v4_from :: "bool \<Rightarrow> nat \<Rightarrow> nat \<Rightarrow> nat list \<Rightarrow> string \<Rightarrow> nat list option" where
  "v4_from start digLen val fields [] = (if length fields < 3 then None else Some (fields @ [val]))"
| "v4_from start digLen val fields (c # s) =
     (if is_digit c then
        if digLen = 1 \<and> val = 0 then None
        else let val = val * 10 + digit_value c in
          if 255 < val then None else v4_from False (digLen + 1) val fields s
      else if c = CHR ''.'' then
        if start \<or> s = [] then None
        else if length fields = 3 then None
        else v4_from True 0 0 (fields @ [val]) s
      else None)"

definition parseIPv4Fields :: "string \<Rightarrow> nat list option" where
  "parseIPv4Fields s = v4_from True 0 0 [] s"

section \<open>IPv6\<close>

definition hex_value :: "char \<Rightarrow> nat option" where
  "hex_value c = (let n = (of_char c :: nat) in
     if 48 \<le> n \<and> n \<le> 57 then Some (n - 48)
     else if 97 \<le> n \<and> n \<le> 102 then Some (n - 97 + 10)
     else if 65 \<le> n \<and> n \<le> 70 then Some (n - 65 + 10)
     else None)"

definition hex_group :: "string \<Rightarrow> nat" where
  "hex_group ds = foldl (\<lambda>acc c. case hex_value c of Some d \<Rightarrow> acc * 16 + d | None \<Rightarrow> acc) 0 ds"

text \<open>The loop of \<open>parseIPv6\<close>: the bytes so far, where the ellipsis is, the rest of the text.\<close>

function v6_from :: "nat list \<Rightarrow> nat option \<Rightarrow> string \<Rightarrow> (nat list \<times> nat option \<times> string) option" where
  "v6_from ip ellipsis s =
     (if 16 \<le> length ip then Some (ip, ellipsis, s)
      else let ds = takeWhile (\<lambda>c. hex_value c \<noteq> None) s;
               rest = drop (length ds) s;
               ip' = ip @ [hex_group ds div 256, hex_group ds mod 256] in
        if 4 < length ds \<or> ds = [] then None
        else case rest of
          [] \<Rightarrow> Some (ip', ellipsis, [])
        | c # more \<Rightarrow>
            if c = CHR ''.'' then
              if ellipsis = None \<and> length ip \<noteq> 12 \<or> 16 < length ip + 4 then None
              else map_option (\<lambda>fields. (ip @ fields, ellipsis, [])) (parseIPv4Fields s)
            else if c \<noteq> CHR '':'' \<or> more = [] then None
            else if hd more = CHR '':'' then
              if ellipsis \<noteq> None then None
              else if tl more = [] then Some (ip', Some (length ip'), [])
              else v6_from ip' (Some (length ip')) (tl more)
            else v6_from ip' ellipsis more)"
  by pat_completeness auto
termination
proof (relation "measure (\<lambda>(_, _, s). length s)")
  fix ip :: "nat list" and ellipsis :: "nat option" and s more :: string and ds rest ip' c
  assume rest: "rest = drop (length ds) s" "rest = c # more"
  from arg_cong [OF rest(2), of length] rest(1) have "length more < length s" by simp
  then show "((ip', Some (length ip'), tl more), ip, ellipsis, s) \<in> measure (\<lambda>(_, _, s). length s)"
    and "((ip', ellipsis, more), ip, ellipsis, s) \<in> measure (\<lambda>(_, _, s). length s)" by auto
qed simp_all

declare v6_from.simps [simp del]

text \<open>\<open>parseIPv6\<close> without its zone, which \<open>ParseIP\<close> refuses.\<close>

definition parseIPv6 :: "string \<Rightarrow> nat list option" where
  "parseIPv6 s =
     (let lead = take 2 s = ''::''; s' = (if lead then drop 2 s else s) in
      if lead \<and> s' = [] then Some (replicate 16 0)
      else case v6_from [] (if lead then Some 0 else None) s' of
        None \<Rightarrow> None
      | Some (ip, ellipsis, rest) \<Rightarrow>
          if rest \<noteq> [] then None
          else if length ip < 16 then
            (case ellipsis of None \<Rightarrow> None
             | Some e \<Rightarrow> Some (take e ip @ replicate (16 - length ip) 0 @ drop e ip))
          else if ellipsis \<noteq> None then None
          else Some ip)"

text \<open>\<open>ParseAddr\<close> decides by the first dot, colon or percent sign; a zone gives no \<open>IP\<close>.\<close>

definition ParseIP :: "string \<Rightarrow> nat list option" where
  "ParseIP s =
     (case dropWhile (\<lambda>c. c \<notin> set ''.:%'') s of
        [] \<Rightarrow> None
      | c # _ \<Rightarrow>
          if c = CHR ''.'' then map_option (\<lambda>fields. replicate 10 0 @ [255, 255] @ fields) (parseIPv4Fields s)
          else if c = CHR ''%'' \<or> CHR ''%'' \<in> set s then None
          else parseIPv6 s)"

definition To4 :: "nat list \<Rightarrow> nat list option" where
  "To4 ip = (if length ip = 16 \<and> take 10 ip = replicate 10 0 \<and> ip ! 10 = 255 \<and> ip ! 11 = 255
     then Some (drop 12 ip) else None)"

definition IsLoopback :: "nat list \<Rightarrow> bool" where
  "IsLoopback ip = (case To4 ip of Some ip4 \<Rightarrow> ip4 ! 0 = 127 | None \<Rightarrow> ip = replicate 15 0 @ [1])"

section \<open>The guard\<close>

datatype listen_error = BadListenAddress | NotLoopback

definition RequireLoopback :: "string \<Rightarrow> bool \<Rightarrow> listen_error option" where
  "RequireLoopback addr allowRemote =
     (if allowRemote then None
      else case SplitHostPort addr of
        None \<Rightarrow> Some BadListenAddress
      | Some (host, _) \<Rightarrow>
          if host = ''localhost'' then None
          else case ParseIP host of
            None \<Rightarrow> Some NotLoopback
          | Some ip \<Rightarrow> if IsLoopback ip then None else Some NotLoopback)"

section \<open>Dotted addresses\<close>

text \<open>The canonical text of four octets.\<close>

definition dotted :: "nat list \<Rightarrow> string" where
  "dotted octets = Join ''.'' (map Itoa octets)"

fun dot_tail :: "nat list \<Rightarrow> string" where
  "dot_tail [] = []"
| "dot_tail (n # ns) = CHR ''.'' # Itoa n @ dot_tail ns"

lemma dotted_Cons: "dotted (n # ns) = Itoa n @ dot_tail ns"
  unfolding dotted_def by (induction ns arbitrary: n) simp_all

lemma is_digit_char: "d < 10 \<Longrightarrow> is_digit (char_of (48 + d)) \<and> digit_value (char_of (48 + d)) = d"
  by (simp add: is_digit_def digit_value_def)

lemma digit_char: "is_digit c \<Longrightarrow> char_of (48 + digit_value c) = c \<and> digit_value c < 10"
  by (auto simp: is_digit_def digit_value_def)

lemma Itoa_digit: "n < 10 \<Longrightarrow> Itoa n = [char_of (48 + n)]"
  by (simp add: Itoa.simps)

lemma Itoa_snoc: "0 < n \<Longrightarrow> d < 10 \<Longrightarrow> Itoa (n * 10 + d) = Itoa n @ [char_of (48 + d)]"
  by (subst Itoa.simps) simp

lemma Itoa_not_nil: "Itoa n \<noteq> []"
  by (subst Itoa.simps) simp

lemma length_Itoa_1: "length (Itoa n) = 1 \<longleftrightarrow> n < 10"
  by (subst Itoa.simps) (simp add: Itoa_not_nil)

text \<open>Reading a canonical octet.\<close>

lemma v4_from_octet:
  "n \<le> 255 \<Longrightarrow> v4_from start 0 0 fields (Itoa n @ rest) = v4_from False (length (Itoa n)) n fields rest"
proof (induction n arbitrary: rest rule: Itoa.induct)
  case (1 n)
  show ?case
  proof (cases "n < 10")
    case True
    then show ?thesis using is_digit_char [OF True] 1(2) by (simp add: Itoa_digit Let_def)
  next
    case False
    have split: "Itoa n = Itoa (n div 10) @ [char_of (48 + n mod 10)]"
      using False by (subst Itoa.simps) simp
    have "v4_from start 0 0 fields (Itoa n @ rest) =
        v4_from False (length (Itoa (n div 10))) (n div 10) fields (char_of (48 + n mod 10) # rest)"
      using 1(1) [OF False, of "char_of (48 + n mod 10) # rest"] 1(2) by (simp add: split)
    moreover have "n div 10 * 10 + n mod 10 = n" by simp
    moreover have "0 < n div 10" using False by simp
    ultimately show ?thesis
      using is_digit_char [of "n mod 10"] 1(2) by (simp add: split Let_def)
  qed
qed

lemma v4_from_complete:
  assumes "list_all (\<lambda>n. n \<le> 255) (n # ns)" "length fields + length ns = 3"
  shows "v4_from start 0 0 fields (Itoa n @ dot_tail ns) = Some (fields @ n # ns)"
  using assms
proof (induction ns arbitrary: n fields start)
  case Nil
  then show ?case using v4_from_octet [of n start fields "[]"] by simp
next
  case (Cons m ns)
  then show ?case
    using v4_from_octet [of n start fields "dot_tail (m # ns)"]
    by (simp add: Itoa_not_nil is_digit_def)
qed

text \<open>Conversely, an accepted text is the canonical text of its octets.\<close>

definition read_so_far :: "nat \<Rightarrow> nat \<Rightarrow> string" where
  "read_so_far digLen val = (if digLen = 0 then [] else Itoa val)"

lemma v4_from_sound:
  assumes "v4_from start digLen val fields s = Some ip"
    and "start \<longleftrightarrow> digLen = 0" "digLen = 0 \<longrightarrow> val = 0 \<and> s \<noteq> []" "digLen \<noteq> 0 \<longrightarrow> digLen = length (Itoa val)"
    and "val \<le> 255" "length fields \<le> 3"
  shows "\<exists>n ns. ip = fields @ n # ns \<and> length ip = 4 \<and> list_all (\<lambda>n. n \<le> 255) (n # ns)
    \<and> read_so_far digLen val @ s = Itoa n @ dot_tail ns"
  using assms
proof (induction s arbitrary: start digLen val fields)
  case Nil
  then show ?case
    by (intro exI [of _ val] exI [of _ "[]"]) (auto simp: read_so_far_def split: if_splits)
next
  case (Cons c s)
  show ?case
  proof (cases "is_digit c")
    case True
    let ?d = "digit_value c" and ?val = "val * 10 + digit_value c"
    have d: "char_of (48 + ?d) = c" "?d < 10" using digit_char [OF True] by simp_all
    have ok: "\<not> (digLen = 1 \<and> val = 0)" "?val \<le> 255" and more_ok: "v4_from False (digLen + 1) ?val fields s = Some ip"
      using Cons.prems(1) True by (auto simp: Let_def split: if_splits)
    have canon: "Itoa ?val = read_so_far digLen val @ [c]"
    proof (cases "digLen = 0")
      case True
      then show ?thesis using Cons.prems(3) d Itoa_digit [of ?d] by (simp add: read_so_far_def)
    next
      case False
      then have "0 < val" using Cons.prems(4) ok(1) length_Itoa_1 [of val] by (cases val) (auto simp: Itoa_digit)
      then show ?thesis using False d Itoa_snoc [of val ?d] by (simp add: read_so_far_def)
    qed
    have "digLen + 1 = length (Itoa ?val)"
      unfolding canon using Cons.prems(4) by (simp add: read_so_far_def)
    with Cons.IH [OF more_ok] ok(2) Cons.prems(6)
    show ?thesis by (auto simp: read_so_far_def canon)
  next
    case False
    have dot: "c = CHR ''.''" "\<not> start" "s \<noteq> []" "length fields \<noteq> 3"
      and more_ok: "v4_from True 0 0 (fields @ [val]) s = Some ip"
      using Cons.prems(1) False by (auto split: if_splits)
    from Cons.IH [OF more_ok] dot Cons.prems(6)
    obtain n ns where "ip = (fields @ [val]) @ n # ns" "length ip = 4" "list_all (\<lambda>n. n \<le> 255) (n # ns)"
      "s = Itoa n @ dot_tail ns" by (auto simp: read_so_far_def)
    then show ?thesis using dot Cons.prems(2,5)
      by (intro exI [of _ val] exI [of _ "n # ns"]) (auto simp: read_so_far_def)
  qed
qed

lemma parseIPv4Fields_iff:
  "parseIPv4Fields s = Some ip \<longleftrightarrow> length ip = 4 \<and> list_all (\<lambda>n. n \<le> 255) ip \<and> s = dotted ip"
proof
  assume p: "parseIPv4Fields s = Some ip"
  then have "s \<noteq> []" by (auto simp: parseIPv4Fields_def)
  with p v4_from_sound [of True 0 0 "[]" s ip] show "length ip = 4 \<and> list_all (\<lambda>n. n \<le> 255) ip \<and> s = dotted ip"
    by (auto simp: parseIPv4Fields_def read_so_far_def dotted_Cons)
next
  assume "length ip = 4 \<and> list_all (\<lambda>n. n \<le> 255) ip \<and> s = dotted ip"
  then show "parseIPv4Fields s = Some ip"
    using v4_from_complete [of "hd ip" "tl ip" "[]" True]
    by (cases ip) (auto simp: parseIPv4Fields_def dotted_Cons)
qed

lemma Itoa_digits: "list_all is_digit (Itoa n)"
proof (induction n rule: Itoa.induct)
  case (1 n)
  then show ?case
    using is_digit_char [of n] is_digit_char [of "n mod 10"] by (subst Itoa.simps) auto
qed

lemma digit_plain: "is_digit c \<Longrightarrow> c \<notin> set ''.:%''"
  by (auto simp: is_digit_def)

lemma first_special: "list_all is_digit p \<Longrightarrow> dropWhile (\<lambda>c. c \<notin> set ''.:%'') (p @ s) = dropWhile (\<lambda>c. c \<notin> set ''.:%'') s"
  by (induction p) (auto dest: digit_plain)

lemma dropWhile_head: "dropWhile P s = c # t \<Longrightarrow> \<not> P c \<and> c \<in> set s"
  by (metis dropWhile_eq_Cons_conv set_dropWhileD list.set_intros(1))

text \<open>A host without a colon is an address exactly when it is the canonical text of four octets.\<close>

lemma ParseIP_dotted:
  assumes "CHR '':'' \<notin> set host"
  shows "ParseIP host = Some ip \<longleftrightarrow>
    (\<exists>fields. length fields = 4 \<and> list_all (\<lambda>n. n \<le> 255) fields \<and> host = dotted fields
       \<and> ip = replicate 10 0 @ [255, 255] @ fields)"
proof
  assume p: "ParseIP host = Some ip"
  then obtain c t where c: "dropWhile (\<lambda>c. c \<notin> set ''.:%'') host = c # t" by (auto simp: ParseIP_def split: list.splits)
  with dropWhile_head [OF c] assms p show "\<exists>fields. length fields = 4 \<and> list_all (\<lambda>n. n \<le> 255) fields \<and> host = dotted fields
       \<and> ip = replicate 10 0 @ [255, 255] @ fields"
    by (auto simp: ParseIP_def parseIPv4Fields_iff split: if_splits)
next
  assume "\<exists>fields. length fields = 4 \<and> list_all (\<lambda>n. n \<le> 255) fields \<and> host = dotted fields
       \<and> ip = replicate 10 0 @ [255, 255] @ fields"
  then obtain fields where f: "length fields = 4" "list_all (\<lambda>n. n \<le> 255) fields" "host = dotted fields"
    "ip = replicate 10 0 @ [255, 255] @ fields" by blast
  then obtain n m ns where "fields = n # m # ns" by (auto simp: numeral_eq_Suc length_Suc_conv)
  moreover have "CHR ''.'' \<in> set ''.:%''" by simp
  ultimately have "dropWhile (\<lambda>c. c \<notin> set ''.:%'') host = CHR ''.'' # Itoa m @ dot_tail ns"
    using f(3) by (simp add: dotted_Cons first_special [OF Itoa_digits] del: list.set)
  moreover have "parseIPv4Fields host = Some fields" using f parseIPv4Fields_iff by blast
  ultimately show "ParseIP host = Some ip" by (simp add: ParseIP_def f(4))
qed

lemma four_octets: "(\<exists>fields. length fields = 4 \<and> P fields) \<longleftrightarrow> (\<exists>a b c d. P [a, b, c, d])"
proof
  assume "\<exists>fields. length fields = 4 \<and> P fields"
  then obtain fields where f: "length fields = 4" "P fields" by blast
  with length_4_cases [OF f(1)] show "\<exists>a b c d. P [a, b, c, d]" by auto
next
  assume "\<exists>a b c d. P [a, b, c, d]"
  then obtain a b c d where "P [a, b, c, d]" by blast
  then show "\<exists>fields. length fields = 4 \<and> P fields" by (intro exI [of _ "[a, b, c, d]"]) simp
qed

lemma To4_mapped: "length fields = 4 \<Longrightarrow> To4 (replicate 10 0 @ [255, 255] @ fields) = Some fields"
  by (simp add: To4_def nth_append)

lemma LastIndexByte_absent: "c \<notin> set s \<Longrightarrow> LastIndexByte s c = None"
  by (induction s) auto

lemma LastIndexByte_here: "c \<notin> set t \<Longrightarrow> LastIndexByte (s @ c # t) c = Some (length s)"
  by (induction s) (auto simp: LastIndexByte_absent)

definition plain_part :: "string \<Rightarrow> bool" where
  "plain_part s \<longleftrightarrow> CHR '':'' \<notin> set s \<and> CHR ''['' \<notin> set s \<and> CHR '']'' \<notin> set s"

lemma SplitHostPort_plain:
  assumes "plain_part host" "plain_part port"
  shows "SplitHostPort (host @ '':'' @ port) = Some (host, port)"
proof -
  have "hd (host @ '':'' @ port) \<noteq> CHR ''[''" using assms(1) by (cases host) (auto simp: plain_part_def)
  with assms show ?thesis
    by (auto simp: SplitHostPort_def LastIndexByte_here plain_part_def)
qed

section \<open>Properties\<close>

text \<open>C29. Without the override, a listen address with a plain host is admitted exactly when the host is
  \<open>localhost\<close> or the canonical text of an address of the network 127: no host name that merely looks like
  one, no shortened or zero padded address, and not the empty host.\<close>

theorem loopback_hosts:
  assumes "plain_part host" "plain_part port"
  shows "RequireLoopback (host @ '':'' @ port) False = None \<longleftrightarrow>
    host = ''localhost'' \<or> (\<exists>b c d. b \<le> 255 \<and> c \<le> 255 \<and> d \<le> 255 \<and> host = dotted [127, b, c, d])"
proof -
  have colon: "CHR '':'' \<notin> set host" using assms(1) by (simp add: plain_part_def)
  have "(case ParseIP host of None \<Rightarrow> Some NotLoopback
      | Some ip \<Rightarrow> if IsLoopback ip then None else Some NotLoopback) = None \<longleftrightarrow> (\<exists>ip. ParseIP host = Some ip \<and> IsLoopback ip)"
    by (simp split: option.split)
  also have "\<dots> \<longleftrightarrow> (\<exists>fields. length fields = 4 \<and> list_all (\<lambda>n. n \<le> 255) fields \<and> host = dotted fields
      \<and> IsLoopback (replicate 10 0 @ [255, 255] @ fields))"
    unfolding ParseIP_dotted [OF colon] by blast
  also have "\<dots> \<longleftrightarrow> (\<exists>fields. length fields = 4 \<and> list_all (\<lambda>n. n \<le> 255) fields \<and> host = dotted fields \<and> fields ! 0 = 127)"
    using To4_mapped by (fastforce simp: IsLoopback_def)
  also have "\<dots> \<longleftrightarrow> (\<exists>b c d. b \<le> 255 \<and> c \<le> 255 \<and> d \<le> 255 \<and> host = dotted [127, b, c, d])"
  proof -
    have net: "(127 :: nat) \<le> 255" by simp
    show ?thesis unfolding four_octets by simp (use net in blast)
  qed
  finally show ?thesis using SplitHostPort_plain [OF assms] by (simp add: RequireLoopback_def)
qed

theorem loopback_hosts_witness:
  "RequireLoopback ''127.0.0.1:8976'' False = None
   \<and> RequireLoopback ''0.0.0.0:8976'' False \<noteq> None
   \<and> RequireLoopback ''[::1]:8976'' False = None \<and> RequireLoopback ''[::ffff:127.0.0.1]:8976'' False = None
   \<and> RequireLoopback ''[::]:8976'' False = Some NotLoopback \<and> RequireLoopback '':8976'' False = Some NotLoopback"
proof -
  have a: "dotted [127, 0, 0, 1] = ''127.0.0.1''" by code_simp
  have "\<exists>b c d. b \<le> 255 \<and> c \<le> 255 \<and> d \<le> 255 \<and> ''127.0.0.1'' = dotted [127, b, c, d]"
    by (rule exI [of _ 0], rule exI [of _ 0], rule exI [of _ 1]) (simp add: a del: One_nat_def)
  moreover have "plain_part ''127.0.0.1''" "plain_part ''8976''" by (simp_all add: plain_part_def)
  ultimately have quad: "RequireLoopback (''127.0.0.1'' @ '':'' @ ''8976'') False = None"
    using loopback_hosts by blast
  have wide: "RequireLoopback ''0.0.0.0:8976'' False \<noteq> None" by code_simp
  have six: "RequireLoopback ''[::1]:8976'' False = None" by code_simp
  have "SplitHostPort ''[::ffff:127.0.0.1]:8976'' = Some (''::ffff:127.0.0.1'', ''8976'')"
    by (simp add: SplitHostPort_def)
  moreover have "ParseIP ''::ffff:127.0.0.1'' = Some (replicate 10 0 @ [255, 255] @ [127, 0, 0, 1])"
  proof -
    have zeros: "replicate 10 (0 :: nat) = [0, 0, 0, 0, 0, 0, 0, 0, 0, 0]" by (simp add: numeral_eq_Suc)
    show ?thesis
      unfolding zeros
      by (simp add: ParseIP_def parseIPv6_def v6_from.simps hex_value_def hex_group_def parseIPv4Fields_def
          is_digit_def digit_value_def zeros)
  qed
  ultimately have mapped: "RequireLoopback ''[::ffff:127.0.0.1]:8976'' False = None"
    using To4_mapped [of "[127, 0, 0, 1]"] by (simp add: RequireLoopback_def IsLoopback_def del: replicate.simps)
  have any: "RequireLoopback ''[::]:8976'' False = Some NotLoopback" "RequireLoopback '':8976'' False = Some NotLoopback"
    by code_simp+
  from quad wide six mapped any show ?thesis by simp
qed

end
