(* ===== verification/Ipc.thy ===== *)
theory Ipc
  imports "HOL-Library.Signed_Division" Wire
begin

text \<open>
  The pcscd client (\<open>pcsc/ipc.go\<close>, \<open>pcsc/pcsc.go\<close>): the version handshake, the framed exchanges, the
  two protocols of the reader state wait, and the card operations.

  The socket is a parameter: a value of \<open>net\<close> holds the operations of \<open>net.Conn\<close> the client uses,
  as functions on a world of any type. \<open>n_read\<close> is \<open>io.ReadFull\<close> on the connection; that it returns
  exactly the requested bytes when it does not fail is its documented behaviour, stated as
  \<open>reads_exact\<close> and assumed only where it is used. A decoder that would panic gives the error
  \<open>Panic\<close>. The client's \<open>body\<close> field only carries the response of an exchange to its caller, so the
  response is the result of \<open>exchange\<close>. Durations are nanoseconds.
\<close>

section \<open>The connection\<close>

datatype net_error = NetTimeout | NetEOF | NetFailure

record 'w net =
  n_dial :: "string \<Rightarrow> 'w \<Rightarrow> net_error option \<times> 'w"
  n_deadline :: "int \<Rightarrow> 'w \<Rightarrow> net_error option \<times> 'w"
  n_write :: "byte list \<Rightarrow> 'w \<Rightarrow> net_error option \<times> 'w"
  n_read :: "nat \<Rightarrow> 'w \<Rightarrow> (net_error + byte list) \<times> 'w"
  n_close :: "'w \<Rightarrow> net_error option \<times> 'w"

text \<open>The errors of the client; \<open>Code\<close> is the type \<open>Error\<close>, a wrapped connection error keeps a label
  of the step it failed in.\<close>

datatype perror = Code u32 | NetErr string net_error | BadProtocol u32 u32
  | SocketUnavailable "net_error option" | NameTooLong | EmptyAPDU
  | ResponseTooLong u32 | Panic

definition dialTimeout :: int where "dialTimeout = 2 * 10 ^ 9"
definition commandTimeout :: int where "commandTimeout = 30 * 10 ^ 9"
definition waitSlack :: int where "waitSlack = 15 * 10 ^ 9"
definition waitMargin :: int where "waitMargin = 100 * 10 ^ 6"

definition defaultSockets :: "string list" where
  "defaultSockets = [''/run/pcscd/pcscd.comm'', ''/var/run/pcscd/pcscd.comm'']"

definition ErrTimeout :: perror where "ErrTimeout = Code errTimeout"
definition ErrProtoMismatch :: perror where "ErrProtoMismatch = Code errProtoMismatch"
definition ErrUnsupportedFeature :: perror where "ErrUnsupportedFeature = Code errUnsupportedFeat"

record ipcClient =
  cl_context :: u32
  cl_major :: u32
  cl_minor :: u32

record ipcCard =
  ca_handle :: u32
  ca_protocol :: u32

section \<open>Frames\<close>

definition setDeadline :: "'w net \<Rightarrow> int \<Rightarrow> 'w \<Rightarrow> net_error option \<times> 'w" where
  "setDeadline net d w = n_deadline net d w"

definition writeMessage :: "'w net \<Rightarrow> u32 \<Rightarrow> byte list \<Rightarrow> 'w \<Rightarrow> net_error option \<times> 'w" where
  "writeMessage net command body w = n_write net (message command body) w"

definition readRaw :: "'w net \<Rightarrow> nat \<Rightarrow> 'w \<Rightarrow> (net_error + byte list) \<times> 'w" where
  "readRaw net n w = n_read net n w"

definition exchange :: "'w net \<Rightarrow> u32 \<Rightarrow> byte list \<Rightarrow> nat \<Rightarrow> 'w \<Rightarrow> (perror + byte list) \<times> 'w" where
  "exchange net command body expectResp w =
     (case setDeadline net commandTimeout w of
        (Some e, w) \<Rightarrow> (Inl (NetErr ''deadline'' e), w)
      | (None, w) \<Rightarrow>
     (case writeMessage net command body w of
        (Some e, w) \<Rightarrow> (Inl (NetErr ''send'' e), w)
      | (None, w) \<Rightarrow>
     (case readRaw net expectResp w of
        (Inl e, w) \<Rightarrow> (Inl (NetErr ''receive'' e), w)
      | (Inr b, w) \<Rightarrow> (Inr b, w))))"

text \<open>Decoding a response and testing its \<open>rv\<close>.\<close>

definition decoded :: "(byte list \<Rightarrow> 'm option) \<Rightarrow> ('m \<Rightarrow> u32) \<Rightarrow> ('m \<Rightarrow> perror + 'a) \<Rightarrow> byte list \<Rightarrow> perror + 'a" where
  "decoded decode rv ok b =
     (case decode b of None \<Rightarrow> Inl Panic
      | Some m \<Rightarrow> if rv m \<noteq> 0 then Inl (Code (rv m)) else ok m)"

section \<open>Connecting to the daemon\<close>

definition socketCandidates :: "string \<Rightarrow> string \<Rightarrow> string list" where
  "socketCandidates env socketPath =
     (if socketPath \<noteq> [] then [socketPath] else if env \<noteq> [] then [env] else defaultSockets)"

fun handshake_from :: "nat \<Rightarrow> 'w net \<Rightarrow> u32 \<Rightarrow> u32 \<Rightarrow> 'w \<Rightarrow> (perror + u32 \<times> u32) \<times> 'w" where
  "handshake_from 0 net major minor w = (Inl (Code errServiceStopped), w)"
| "handshake_from (Suc n) net major minor w =
     (case writeMessage net cmdVersion (encodeVersion \<lparr>v_major = major, v_minor = minor, v_rv = 0\<rparr>) w of
        (Some e, w) \<Rightarrow> (Inl (NetErr ''sending version'' e), w)
      | (None, w) \<Rightarrow>
     (case readRaw net 12 w of
        (Inl e, w) \<Rightarrow> (Inl (NetErr ''receiving version'' e), w)
      | (Inr body, w) \<Rightarrow>
     (case decodeVersion body of
        None \<Rightarrow> (Inl Panic, w)
      | Some resp \<Rightarrow>
          if v_rv resp = 0 then
            (if v_major resp \<noteq> protocolVersionMajor then (Inl (BadProtocol (v_major resp) (v_minor resp)), w)
             else (Inr (v_major resp, v_minor resp), w))
          else if v_rv resp = errServiceStopped \<and> v_major resp = protocolVersionMajor
              \<and> protocolVersionMinorBackward \<le> v_minor resp
          then handshake_from n net (v_major resp) (v_minor resp) w
          else (Inl (Code (v_rv resp)), w))))"

definition handshake :: "'w net \<Rightarrow> 'w \<Rightarrow> (perror + u32 \<times> u32) \<times> 'w" where
  "handshake net w = handshake_from 2 net protocolVersionMajor protocolVersionMinor w"

definition establish :: "'w net \<Rightarrow> 'w \<Rightarrow> (perror + u32) \<times> 'w" where
  "establish net w =
     (case exchange net cmdEstablishContext
         (encodeEstablish \<lparr>e_scope = ScopeUser, e_context = 0, e_rv = 0\<rparr>) 12 w of
        (Inl e, w) \<Rightarrow> (Inl e, w)
      | (Inr body, w) \<Rightarrow> (decoded decodeEstablish e_rv (\<lambda>resp. Inr (e_context resp)) body, w))"

fun dial_first :: "'w net \<Rightarrow> string list \<Rightarrow> net_error option \<Rightarrow> 'w \<Rightarrow> (net_error option + unit) \<times> 'w" where
  "dial_first net [] lastErr w = (Inl lastErr, w)"
| "dial_first net (candidate # rest) lastErr w =
     (case n_dial net candidate w of
        (Some e, w) \<Rightarrow> dial_first net rest (Some e) w
      | (None, w) \<Rightarrow> (Inr (), w))"

definition dialIPC :: "'w net \<Rightarrow> string \<Rightarrow> string \<Rightarrow> 'w \<Rightarrow> (perror + ipcClient) \<times> 'w" where
  "dialIPC net env socketPath w =
     (case dial_first net (socketCandidates env socketPath) None w of
        (Inl lastErr, w) \<Rightarrow> (Inl (SocketUnavailable lastErr), w)
      | (Inr _, w) \<Rightarrow>
     (case handshake net w of
        (Inl e, w) \<Rightarrow> (Inl e, snd (n_close net w))
      | (Inr (major, minor), w) \<Rightarrow>
     (case establish net w of
        (Inl e, w) \<Rightarrow> (Inl e, snd (n_close net w))
      | (Inr context', w) \<Rightarrow> (Inr \<lparr>cl_context = context', cl_major = major, cl_minor = minor\<rparr>, w))))"

section \<open>Reader states\<close>

text \<open>\<open>decodeReaderState(raw[i*readerStateWireSz:])\<close> for all slots, dropping the empty ones.\<close>

definition decode_states :: "byte list \<Rightarrow> reader_state list option" where
  "decode_states raw =
     map_option (filter (\<lambda>entry. rs_reader entry \<noteq> []))
       (those (map (\<lambda>i. decodeReaderState (drop (i * readerStateWireSz) raw)) [0..<maxReaders]))"

definition states :: "'w net \<Rightarrow> 'w \<Rightarrow> (perror + reader_state list) \<times> 'w" where
  "states net w =
     (case setDeadline net commandTimeout w of
        (Some e, w) \<Rightarrow> (Inl (NetErr ''deadline'' e), w)
      | (None, w) \<Rightarrow>
     (case writeMessage net cmdGetReadersState [] w of
        (Some e, w) \<Rightarrow> (Inl (NetErr ''send get readers state'' e), w)
      | (None, w) \<Rightarrow>
     (case readRaw net (maxReaders * readerStateWireSz) w of
        (Inl e, w) \<Rightarrow> (Inl (NetErr ''receive readers state'' e), w)
      | (Inr raw, w) \<Rightarrow>
          ((case decode_states raw of None \<Rightarrow> Inl Panic | Some sts \<Rightarrow> Inr sts), w))))"

section \<open>Waiting for a change\<close>

definition isNetTimeout :: "net_error \<Rightarrow> bool" where
  "isNetTimeout e \<longleftrightarrow> e = NetTimeout"

text \<open>The result of a wait signal: \<open>None\<close> is success.\<close>

definition wait_result :: "byte list \<Rightarrow> perror option" where
  "wait_result b =
     (case decodeWait b of None \<Rightarrow> Some Panic
      | Some m \<Rightarrow> if w_rv m \<noteq> 0 then Some (Code (w_rv m)) else None)"

text \<open>The tail both protocols share: withdraw the registration and take its one answer.\<close>

definition stop_waiting :: "'w net \<Rightarrow> byte list \<Rightarrow> 'w \<Rightarrow> perror option \<times> 'w" where
  "stop_waiting net body w =
     (case setDeadline net waitSlack w of
        (Some e, w) \<Rightarrow> (Some (NetErr ''deadline'' e), w)
      | (None, w) \<Rightarrow>
     (case writeMessage net cmdStopWaitingReaderStateChange body w of
        (Some e, w) \<Rightarrow> (Some (NetErr ''send stop wait'' e), w)
      | (None, w) \<Rightarrow>
     (case readRaw net 8 w of
        (Inl e, w) \<Rightarrow> (Some ErrTimeout, w)
      | (Inr signal, w) \<Rightarrow>
          (case wait_result signal of Some e \<Rightarrow> (Some e, w) | None \<Rightarrow> (Some ErrTimeout, w)))))"

definition waitChangeNew :: "'w net \<Rightarrow> int \<Rightarrow> 'w \<Rightarrow> perror option \<times> 'w" where
  "waitChangeNew net timeout w =
     (case setDeadline net commandTimeout w of
        (Some e, w) \<Rightarrow> (Some (NetErr ''deadline'' e), w)
      | (None, w) \<Rightarrow>
     (case writeMessage net cmdWaitReaderStateChange [] w of
        (Some e, w) \<Rightarrow> (Some (NetErr ''send wait'' e), w)
      | (None, w) \<Rightarrow>
     (case readRaw net (maxReaders * readerStateWireSz) w of
        (Inl e, w) \<Rightarrow> (Some (NetErr ''receive wait registration'' e), w)
      | (Inr _, w) \<Rightarrow>
     (case setDeadline net (timeout + waitMargin) w of
        (Some e, w) \<Rightarrow> (Some (NetErr ''deadline'' e), w)
      | (None, w) \<Rightarrow>
     (case readRaw net 8 w of
        (Inr signal, w) \<Rightarrow> (wait_result signal, w)
      | (Inl e, w) \<Rightarrow>
          if \<not> isNetTimeout e then (Some (NetErr ''receive wait signal'' e), w)
          else stop_waiting net [] w)))))"

definition waitChangeOld :: "'w net \<Rightarrow> int \<Rightarrow> 'w \<Rightarrow> perror option \<times> 'w" where
  "waitChangeOld net timeout w =
     (let ms = (word_of_int (timeout sdiv 1000000) :: u32);
          ms = (if ms = 0 then 1 else ms);
          req = encodeWait \<lparr>w_timeoutMS = ms, w_rv = 0\<rparr>
      in case setDeadline net (timeout + waitMargin) w of
        (Some e, w) \<Rightarrow> (Some (NetErr ''deadline'' e), w)
      | (None, w) \<Rightarrow>
     (case writeMessage net cmdWaitReaderStateChange req w of
        (Some e, w) \<Rightarrow> (Some (NetErr ''send wait'' e), w)
      | (None, w) \<Rightarrow>
     (case readRaw net 8 w of
        (Inr signal, w) \<Rightarrow> (wait_result signal, w)
      | (Inl e, w) \<Rightarrow>
          if \<not> isNetTimeout e then (Some (NetErr ''receive wait'' e), w)
          else stop_waiting net req w)))"

definition waitChange :: "'w net \<Rightarrow> ipcClient \<Rightarrow> int \<Rightarrow> 'w \<Rightarrow> perror option \<times> 'w" where
  "waitChange net c timeout w =
     (if 4 \<le> cl_minor c then waitChangeNew net timeout w else waitChangeOld net timeout w)"

section \<open>Cards\<close>

definition connect :: "'w net \<Rightarrow> ipcClient \<Rightarrow> string \<Rightarrow> u32 \<Rightarrow> 'w \<Rightarrow> (perror + ipcCard) \<times> 'w" where
  "connect net c reader preferred w =
     (if maxReaderName \<le> length reader then (Inl NameTooLong, w)
      else case exchange net cmdConnect (encodeConnect \<lparr>c_context = cl_context c, c_reader = reader,
          c_shareMode = ShareShared, c_preferredProtocols = preferred, c_card = 0, c_activeProtocol = 0,
          c_rv = 0\<rparr>) 152 w of
        (Inl e, w) \<Rightarrow> (Inl e, w)
      | (Inr body, w) \<Rightarrow> (decoded decodeConnect c_rv
          (\<lambda>resp. Inr \<lparr>ca_handle = c_card resp, ca_protocol = c_activeProtocol resp\<rparr>) body, w))"

definition close :: "'w net \<Rightarrow> ipcClient \<Rightarrow> 'w \<Rightarrow> net_error option \<times> 'w" where
  "close net c w =
     (let w = (if 4 \<le> cl_minor c
               then snd (writeMessage net cmdStopWaitingReaderStateChange [] (snd (setDeadline net (2 * 10 ^ 9) w)))
               else w);
          w = snd (setDeadline net (2 * 10 ^ 9) w);
          w = snd (writeMessage net cmdReleaseContext (encodeRelease \<lparr>r_context = cl_context c, r_rv = 0\<rparr>) w)
      in n_close net w)"

definition transmit :: "'w net \<Rightarrow> ipcCard \<Rightarrow> byte list \<Rightarrow> int \<Rightarrow> 'w \<Rightarrow> (perror + byte list) \<times> 'w" where
  "transmit net c apdu maxResp w =
     (if apdu = [] then (Inl EmptyAPDU, w)
      else let maxResp = (if maxResp \<le> 0 \<or> int maxBufferSize < maxResp then int maxBufferSize else maxResp);
               req = \<lparr>t_card = ca_handle c, t_sendPciProto = ca_protocol c, t_sendPciLen = 8,
                      t_sendLength = word_of_nat (length apdu), t_recvPciProto = ca_protocol c,
                      t_recvPciLen = 8, t_recvLength = word_of_int maxResp, t_rv = 0\<rparr>
      in case setDeadline net commandTimeout w of
        (Some e, w) \<Rightarrow> (Inl (NetErr ''deadline'' e), w)
      | (None, w) \<Rightarrow>
     (case writeMessage net cmdTransmit (encodeTransmit req) w of
        (Some e, w) \<Rightarrow> (Inl (NetErr ''send transmit'' e), w)
      | (None, w) \<Rightarrow>
     (case n_write net apdu w of
        (Some e, w) \<Rightarrow> (Inl (NetErr ''send transmit buffer'' e), w)
      | (None, w) \<Rightarrow>
     (case readRaw net 32 w of
        (Inl e, w) \<Rightarrow> (Inl (NetErr ''receive transmit'' e), w)
      | (Inr rspBody, w) \<Rightarrow>
     (case decodeTransmit rspBody of
        None \<Rightarrow> (Inl Panic, w)
      | Some resp \<Rightarrow>
          if t_rv resp \<noteq> 0 then (Inl (Code (t_rv resp)), w)
          else if word_of_nat maxBufferSize < t_recvLength resp
          then (Inl (ResponseTooLong (t_recvLength resp)), w)
          else (case readRaw net (unat (t_recvLength resp)) w of
                  (Inl e, w) \<Rightarrow> (Inl (NetErr ''receive transmit buffer'' e), w)
                | (Inr data, w) \<Rightarrow> (Inr data, w)))))))"

definition getAttrib :: "'w net \<Rightarrow> ipcCard \<Rightarrow> u32 \<Rightarrow> 'w \<Rightarrow> (perror + byte list) \<times> 'w" where
  "getAttrib net c attr w =
     (case exchange net cmdGetAttrib (encodeGetset \<lparr>g_card = ca_handle c, g_attrID = attr, g_attr = [],
          g_attrLen = word_of_nat maxAttrSize, g_rv = 0\<rparr>) (8 + maxAttrSize + 8) w of
        (Inl e, w) \<Rightarrow> (Inl e, w)
      | (Inr body, w) \<Rightarrow> (decoded decodeGetset g_rv (\<lambda>resp. Inr (g_attr resp)) body, w))"

definition disconnect :: "'w net \<Rightarrow> ipcCard \<Rightarrow> u32 \<Rightarrow> 'w \<Rightarrow> perror option \<times> 'w" where
  "disconnect net c disposition w =
     (case exchange net cmdDisconnect (encodeDisconnect \<lparr>d_card = ca_handle c, d_disposition = disposition,
          d_rv = 0\<rparr>) 12 w of
        (Inl e, w) \<Rightarrow> (Some e, w)
      | (Inr body, w) \<Rightarrow> ((case decoded decodeDisconnect d_rv Inr body of Inl e \<Rightarrow> Some e | Inr _ \<Rightarrow> None), w))"

section \<open>The contract of the connection\<close>

definition reads_exact :: "'w net \<Rightarrow> bool" where
  "reads_exact net \<longleftrightarrow> (\<forall>n w b w'. n_read net n w = (Inr b, w') \<longrightarrow> length b = n)"

lemma readRaw_length: "reads_exact net \<Longrightarrow> readRaw net n w = (Inr b, w') \<Longrightarrow> length b = n"
  unfolding reads_exact_def readRaw_def by blast

lemma decodeGetset_total: "length b = 280 \<Longrightarrow> \<exists>g. decodeGetset b = Some g \<and> length (g_attr g) \<le> 264"
proof -
  assume l: "length b = 280"
  have "\<And>off. off + 4 \<le> 280 \<Longrightarrow> \<exists>w. le32_at off b = Some w"
    using l le32_at_in_range by metis
  from this [of 0] this [of 4] this [of 272] this [of 276]
  obtain c i n r where "le32_at 0 b = Some c" "le32_at 4 b = Some i" "le32_at 272 b = Some n" "le32_at 276 b = Some r"
    by auto
  then show ?thesis
    using l by (cases "unat n > 264") (simp_all add: decodeGetset_def maxAttrSize_def go_slice_def)
qed

subsection \<open>The states array\<close>

lemma those_Some: "(\<And>x. x \<in> set xs \<Longrightarrow> \<exists>y. f x = Some y) \<Longrightarrow> \<exists>ys. those (map f xs) = Some ys \<and> length ys = length xs
    \<and> (\<forall>i < length xs. f (xs ! i) = Some (ys ! i))"
proof (induction xs)
  case (Cons x xs)
  from Cons.prems obtain y where "f x = Some y" by auto
  moreover from Cons obtain ys where "those (map f xs) = Some ys" "length ys = length xs"
    "\<forall>i < length xs. f (xs ! i) = Some (ys ! i)" by auto
  ultimately show ?case by (auto simp: nth_Cons split: nat.split)
qed simp

definition slot :: "nat \<Rightarrow> byte list \<Rightarrow> byte list" where
  "slot i raw = take 184 (drop (i * 184) raw)"

lemma decodeReaderState_take: "184 \<le> length b \<Longrightarrow> decodeReaderState (take 184 b) = decodeReaderState b"
proof -
  assume l: "184 \<le> length b"
  have at: "le32_at off (take 184 b) = le32_at off b" if "off + 4 \<le> 184" for off
    using that l by (simp add: le32_at_def go_slice_def drop_take)
  have sl: "go_slice lo hi (take 184 b) = go_slice lo hi b" if "hi \<le> 184" for lo hi
    using that l by (auto simp: go_slice_def drop_take min_def)
  show ?thesis
    by (auto simp: decodeReaderState_def at sl maxATRSize_def Let_def intro!: arg_cong2 [where f = Option.bind])
qed

lemma decode_states_slots:
  assumes "length raw = 2944"
  shows "\<exists>entries. length entries = 16 \<and> (\<forall>i < 16. decodeReaderState (slot i raw) = Some (entries ! i))
    \<and> decode_states raw = Some (filter (\<lambda>entry. rs_reader entry \<noteq> []) entries)"
proof -
  have "\<exists>st. decodeReaderState (drop (i * 184) raw) = Some st" if "i \<in> set [0..<16]" for i
  proof -
    from that have "184 \<le> length (drop (i * 184) raw)" using assms by simp
    from decodeReaderState_total [OF this] show ?thesis by blast
  qed
  from those_Some [of "[0..<16]" "\<lambda>i. decodeReaderState (drop (i * 184) raw)", OF this]
  obtain entries where e: "those (map (\<lambda>i. decodeReaderState (drop (i * 184) raw)) [0..<16]) = Some entries"
    "length entries = 16" "\<forall>i < 16. decodeReaderState (drop (i * 184) raw) = Some (entries ! i)"
    by auto
  have "decodeReaderState (slot i raw) = Some (entries ! i)" if "i < 16" for i
    using decodeReaderState_take [of "drop (i * 184) raw"] assms that e(3) by (simp add: slot_def)
  with e(1,2) show ?thesis
    by (auto simp: decode_states_def readerStateWireSz_def maxReaders_def)
qed

section \<open>A scripted connection\<close>

text \<open>
  A connection whose other end is a script: \<open>sc_rx\<close> holds the bytes that will arrive, \<open>None\<close> where
  the read deadline fires first; \<open>sc_tx\<close> collects what the client wrote. A read that the deadline
  cuts off loses the bytes it had, as \<open>io.ReadFull\<close> does.
\<close>

record script =
  sc_rx :: "byte option list"
  sc_tx :: "byte list list"

definition arrived :: "byte option \<Rightarrow> bool" where
  "arrived x = (case x of Some _ \<Rightarrow> True | None \<Rightarrow> False)"

lemma arrived_simps [simp]: "arrived (Some b)" "\<not> arrived None"
  by (simp_all add: arrived_def)

definition script_read :: "nat \<Rightarrow> script \<Rightarrow> (net_error + byte list) \<times> script" where
  "script_read n s =
     (let got = takeWhile arrived (take n (sc_rx s))
      in if length got = n then (Inr (map the got), s\<lparr>sc_rx := drop n (sc_rx s)\<rparr>)
         else (Inl (if length got < length (sc_rx s) then NetTimeout else NetEOF),
               s\<lparr>sc_rx := drop (Suc (length got)) (sc_rx s)\<rparr>))"

definition script_net :: "script net" where
  "script_net = \<lparr>n_dial = (\<lambda>_ s. (None, s)), n_deadline = (\<lambda>_ s. (None, s)),
     n_write = (\<lambda>b s. (None, s\<lparr>sc_tx := sc_tx s @ [b]\<rparr>)), n_read = script_read, n_close = (\<lambda>s. (None, s))\<rparr>"

lemma script_reads_exact: "reads_exact script_net"
  by (auto simp: reads_exact_def script_net_def script_read_def Let_def split: if_splits)

lemma script_read_data:
  "length b = n \<Longrightarrow> script_read n \<lparr>sc_rx = map Some b @ rest, sc_tx = tx\<rparr> = (Inr b, \<lparr>sc_rx = rest, sc_tx = tx\<rparr>)"
proof -
  assume b: "length b = n"
  have all: "takeWhile arrived (map Some b) = map Some b"
    by (simp add: takeWhile_eq_all_conv)
  from b show ?thesis by (simp add: script_read_def Let_def comp_def all)
qed

lemma script_read_timeout:
  "length b < n \<Longrightarrow> script_read n \<lparr>sc_rx = map Some b @ None # rest, sc_tx = tx\<rparr>
     = (Inl NetTimeout, \<lparr>sc_rx = rest, sc_tx = tx\<rparr>)"
proof -
  assume b: "length b < n"
  have "takeWhile arrived (map Some b @ None # xs) = map Some b" for b :: "byte list" and xs
    by (induction b) simp_all
  moreover have "take n (map Some b @ None # rest) = map Some b @ None # take (n - Suc (length b)) rest"
    using b by (cases "n - length b") (auto simp: Suc_diff_Suc [symmetric] dest!: sym [of "n - length b"])
  ultimately show ?thesis using b by (simp add: script_read_def Let_def)
qed

lemmas script_ops = script_net_def setDeadline_def writeMessage_def readRaw_def

section \<open>No decoder panics\<close>

lemma total_decoders:
  "length b = 12 \<Longrightarrow> (decodeVersion b = None) = False"
  "length b = 12 \<Longrightarrow> (decodeEstablish b = None) = False"
  "length b = 12 \<Longrightarrow> (decodeDisconnect b = None) = False"
  "length b = 32 \<Longrightarrow> (decodeTransmit b = None) = False"
  "length b = 8 \<Longrightarrow> (decodeWait b = None) = False"
  "length b = 152 \<Longrightarrow> (decodeConnect b = None) = False"
  "length b = 280 \<Longrightarrow> (decodeGetset b = None) = False"
  "length b = 2944 \<Longrightarrow> (decode_states b = None) = False"
  using version_codec.no_panic establish_codec.no_panic disconnect_codec.no_panic transmit_codec.no_panic
    wait_codec.no_panic decodeConnect_total [of b] decodeGetset_total [of b] decode_states_slots [of b]
  by auto

lemma exchange_result:
  "reads_exact net \<Longrightarrow> exchange net cmd body n w = (r, w') \<Longrightarrow>
     case r of Inl e \<Rightarrow> e \<noteq> Panic | Inr b \<Rightarrow> length b = n"
  by (auto simp: exchange_def split: prod.splits option.splits sum.splits dest!: readRaw_length)

text \<open>An operation that is one exchange and a decoder that is total on the response.\<close>

lemma exchange_decoded_no_panic:
  assumes "reads_exact net" and "exchange net cmd body n w = (r, w')"
    and "\<And>b. length b = n \<Longrightarrow> decode b \<noteq> None" and "\<And>m. ok m \<noteq> Inl Panic"
  shows "(case r of Inl e \<Rightarrow> Inl e | Inr b \<Rightarrow> decoded decode rv ok b) \<noteq> Inl Panic"
  using exchange_result [OF assms(1,2)] assms(3,4)
  by (cases r) (auto simp: decoded_def split: option.splits)

lemma establish_no_panic: "reads_exact net \<Longrightarrow> fst (establish net w) \<noteq> Inl Panic"
proof -
  assume net: "reads_exact net"
  obtain r w' where ex: "exchange net cmdEstablishContext
      (encodeEstablish \<lparr>e_scope = ScopeUser, e_context = 0, e_rv = 0\<rparr>) 12 w = (r, w')" by force
  show ?thesis
    using exchange_decoded_no_panic [OF net ex, of decodeEstablish "\<lambda>resp. Inr (e_context resp)" e_rv]
      establish_codec.no_panic
    by (cases r) (simp_all add: establish_def ex)
qed

lemma connect_no_panic: "reads_exact net \<Longrightarrow> fst (connect net c reader preferred w) \<noteq> Inl Panic"
proof -
  assume net: "reads_exact net"
  obtain r w' where ex: "exchange net cmdConnect (encodeConnect \<lparr>c_context = cl_context c, c_reader = reader,
      c_shareMode = ShareShared, c_preferredProtocols = preferred, c_card = 0, c_activeProtocol = 0,
      c_rv = 0\<rparr>) 152 w = (r, w')" by force
  show ?thesis
    using exchange_decoded_no_panic [OF net ex, of decodeConnect
        "\<lambda>resp. Inr \<lparr>ca_handle = c_card resp, ca_protocol = c_activeProtocol resp\<rparr>" c_rv] total_decoders(6)
    by (cases r) (simp_all add: connect_def ex)
qed

lemma getAttrib_no_panic: "reads_exact net \<Longrightarrow> fst (getAttrib net crd attr w) \<noteq> Inl Panic"
proof -
  assume net: "reads_exact net"
  obtain r w' where ex: "exchange net cmdGetAttrib (encodeGetset \<lparr>g_card = ca_handle crd, g_attrID = attr,
      g_attr = [], g_attrLen = word_of_nat maxAttrSize, g_rv = 0\<rparr>) (8 + maxAttrSize + 8) w = (r, w')" by force
  show ?thesis
    using exchange_decoded_no_panic [OF net ex, of decodeGetset "\<lambda>resp. Inr (g_attr resp)" g_rv]
      total_decoders(7)
    unfolding getAttrib_def ex by (cases r) (simp_all add: maxAttrSize_def)
qed

lemma disconnect_no_panic: "reads_exact net \<Longrightarrow> fst (disconnect net crd disposition w) \<noteq> Some Panic"
proof -
  assume net: "reads_exact net"
  obtain r w' where ex: "exchange net cmdDisconnect (encodeDisconnect \<lparr>d_card = ca_handle crd,
      d_disposition = disposition, d_rv = 0\<rparr>) 12 w = (r, w')" by force
  show ?thesis
    using exchange_decoded_no_panic [OF net ex, of decodeDisconnect Inr d_rv] disconnect_codec.no_panic
    by (cases r) (auto simp: disconnect_def ex split: sum.splits)
qed

text \<open>Rules that walk through a chain of connection operations without splitting it.\<close>

lemma io_option:
  "(\<And>e w'. x = (Some e, w') \<Longrightarrow> P (f e w')) \<Longrightarrow> (\<And>w'. x = (None, w') \<Longrightarrow> P (g w')) \<Longrightarrow>
   P (case x of (Some e, w) \<Rightarrow> f e w | (None, w) \<Rightarrow> g w)"
  by (auto split: prod.splits option.splits)

lemma io_sum:
  "(\<And>e w'. x = (Inl e, w') \<Longrightarrow> P (f e w')) \<Longrightarrow> (\<And>b w'. x = (Inr b, w') \<Longrightarrow> P (g b w')) \<Longrightarrow>
   P (case x of (Inl e, w) \<Rightarrow> f e w | (Inr b, w) \<Rightarrow> g b w)"
  by (auto split: prod.splits sum.splits)

lemma io_if: "(b \<Longrightarrow> P x) \<Longrightarrow> (\<not> b \<Longrightarrow> P y) \<Longrightarrow> P (if b then x else y)"
  by simp

lemma io_decode: "(a = None \<Longrightarrow> P x) \<Longrightarrow> (\<And>m. a = Some m \<Longrightarrow> P (f m)) \<Longrightarrow> P (case a of None \<Rightarrow> x | Some m \<Rightarrow> f m)"
  by (cases a) auto

lemma states_no_panic: "reads_exact net \<Longrightarrow> fst (states net w) \<noteq> Inl Panic"
  unfolding states_def
  by (intro io_option [where P = "\<lambda>x. fst x \<noteq> Inl Panic"] io_sum [where P = "\<lambda>x. fst x \<noteq> Inl Panic"])
    (auto simp: readerStateWireSz_def maxReaders_def split: option.split dest!: readRaw_length
      dest: decode_states_slots)

lemma transmit_no_panic: "reads_exact net \<Longrightarrow> fst (transmit net crd apdu maxResp w) \<noteq> Inl Panic"
  unfolding transmit_def Let_def
  by (intro io_option [where P = "\<lambda>x. fst x \<noteq> Inl Panic"] io_sum [where P = "\<lambda>x. fst x \<noteq> Inl Panic"]
      io_if [where P = "\<lambda>x. fst x \<noteq> Inl Panic"] io_decode [where P = "\<lambda>x. fst x \<noteq> Inl Panic"])
    (auto simp: total_decoders dest!: readRaw_length)

lemma wait_result_no_panic: "length b = 8 \<Longrightarrow> wait_result b \<noteq> Some Panic"
  by (auto simp: wait_result_def total_decoders split: option.splits)

lemma stop_waiting_no_panic: "reads_exact net \<Longrightarrow> fst (stop_waiting net body w) \<noteq> Some Panic"
  unfolding stop_waiting_def
  by (intro io_option [where P = "\<lambda>x. fst x \<noteq> Some Panic"] io_sum [where P = "\<lambda>x. fst x \<noteq> Some Panic"])
    (auto simp: ErrTimeout_def split: option.split dest!: readRaw_length dest: wait_result_no_panic)

lemma waitChange_no_panic:
  assumes net: "reads_exact net"
  shows "fst (waitChange net c timeout w) \<noteq> Some Panic"
  unfolding waitChange_def waitChangeNew_def waitChangeOld_def Let_def
  by (intro io_option [where P = "\<lambda>x. fst x \<noteq> Some Panic"] io_sum [where P = "\<lambda>x. fst x \<noteq> Some Panic"]
      io_if [where P = "\<lambda>x. fst x \<noteq> Some Panic"])
    (auto simp: stop_waiting_no_panic [OF net] dest!: readRaw_length [OF net] dest: wait_result_no_panic)

lemma handshake_no_panic: "reads_exact net \<Longrightarrow> fst (handshake_from n net major minor w) \<noteq> Inl Panic"
  by (induction n arbitrary: major minor w)
    (auto simp: total_decoders split: prod.splits option.splits sum.splits dest!: readRaw_length)

lemma dial_no_panic:
  assumes "reads_exact net"
  shows "fst (dialIPC net env socketPath w) \<noteq> Inl Panic"
proof -
  have h: "fst x \<noteq> Inl Panic" if "x = handshake net w" for x w
    using handshake_no_panic [OF assms] that by (simp add: handshake_def)
  have e: "fst x \<noteq> Inl Panic" if "x = establish net w" for x w
    using establish_no_panic [OF assms] that by simp
  show ?thesis
    by (auto simp: dialIPC_def split: prod.splits sum.splits dest!: h [OF sym] e [OF sym])
qed

section \<open>Properties\<close>

text \<open>
  C31. No daemon can crash the client: whatever bytes the other end of the socket sends, dialing,
  fetching the reader states, waiting for a change, connecting, transmitting, reading an attribute
  and disconnecting return a result or an error; no decoder ever runs off its buffer.
\<close>

theorem client_never_panics:
  assumes "reads_exact net"
  shows "fst (dialIPC net env socketPath w) \<noteq> Inl Panic
    \<and> fst (states net w) \<noteq> Inl Panic
    \<and> fst (waitChange net c timeout w) \<noteq> Some Panic
    \<and> fst (connect net c reader preferred w) \<noteq> Inl Panic
    \<and> fst (transmit net crd apdu maxResp w) \<noteq> Inl Panic
    \<and> fst (getAttrib net crd attr w) \<noteq> Inl Panic
    \<and> fst (disconnect net crd disposition w) \<noteq> Some Panic"
  using assms by (intro conjI dial_no_panic states_no_panic waitChange_no_panic connect_no_panic
      transmit_no_panic getAttrib_no_panic disconnect_no_panic)

lemma client_never_panics_witness:
  "fst (states script_net \<lparr>sc_rx = replicate 3000 (Some 255), sc_tx = []\<rparr>) \<noteq> Inl Panic"
  using client_never_panics [OF script_reads_exact] by blast

text \<open>
  The reader list is what the daemon's array holds: a successful \<open>states\<close> answers the non-empty
  ones of the sixteen 184 byte slots of one read, in their order, each decoded from its own slot.
\<close>

theorem states_slots:
  assumes "reads_exact net" and "states net w = (Inr sts, w')"
  shows "\<exists>raw w1. readRaw net 2944 w1 = (Inr raw, w') \<and> length sts \<le> 16
    \<and> map Some sts = filter (\<lambda>st. map_option rs_reader st \<noteq> Some []) (map (\<lambda>i. decodeReaderState (slot i raw)) [0..<16])"
proof -
  from assms(2) obtain raw w1 where r: "readRaw net 2944 w1 = (Inr raw, w')" "decode_states raw = Some sts"
    by (auto simp: states_def maxReaders_def readerStateWireSz_def split: prod.splits option.splits sum.splits)
  obtain entries where e: "length entries = 16" "\<forall>i < 16. decodeReaderState (slot i raw) = Some (entries ! i)"
    "sts = filter (\<lambda>entry. rs_reader entry \<noteq> []) entries"
    using decode_states_slots [OF readRaw_length [OF assms(1) r(1)]] r(2) by auto
  have "map (\<lambda>i. decodeReaderState (slot i raw)) [0..<16] = map Some entries"
    using e(1,2) by (intro nth_equalityI) simp_all
  then have "filter (\<lambda>st. map_option rs_reader st \<noteq> Some []) (map (\<lambda>i. decodeReaderState (slot i raw)) [0..<16])
      = map Some sts"
    by (simp add: filter_map comp_def e(3))
  moreover have "length sts \<le> 16" using e(1,3) length_filter_le [of _ entries] by simp
  ultimately show ?thesis using r(1) by metis
qed

lemma states_slots_witness:
  "\<exists>sts w'. states script_net \<lparr>sc_rx = map Some (replicate 2944 7), sc_tx = []\<rparr> = (Inr sts, w') \<and> length sts \<le> 16"
proof -
  let ?raw = "replicate 2944 (7 :: byte)"
  obtain sts where "decode_states ?raw = Some sts" using decode_states_slots [of ?raw] by auto
  then have "states script_net \<lparr>sc_rx = map Some ?raw, sc_tx = []\<rparr>
      = (Inr sts, \<lparr>sc_rx = [], sc_tx = [message cmdGetReadersState []]\<rparr>)"
    using script_read_data [of ?raw 2944 "[]"]
    by (simp add: states_def script_ops maxReaders_def readerStateWireSz_def del: map_replicate)
  with states_slots [OF script_reads_exact this] show ?thesis by blast
qed

text \<open>A connection that also records what is written to it.\<close>

definition logged :: "'w net \<Rightarrow> ('w \<times> byte list list) net" where
  "logged net = \<lparr>n_dial = (\<lambda>p (w, log). let (r, w) = n_dial net p w in (r, w, log)),
     n_deadline = (\<lambda>d (w, log). let (r, w) = n_deadline net d w in (r, w, log)),
     n_write = (\<lambda>b (w, log). let (r, w) = n_write net b w in (r, w, log @ [b])),
     n_read = (\<lambda>n (w, log). let (r, w) = n_read net n w in (r, w, log)),
     n_close = (\<lambda>(w, log). let (r, w) = n_close net w in (r, w, log))\<rparr>"

definition version_request :: "u32 \<Rightarrow> byte list" where
  "version_request minor = message cmdVersion (encodeVersion \<lparr>v_major = 4, v_minor = minor, v_rv = 0\<rparr>)"

lemma handshake_from_log:
  assumes "handshake_from n (logged net) 4 minor (w, log) = (Inr (ma, mi), (w', log'))"
  shows "ma = 4 \<and> (\<exists>minors. log' = log @ map version_request (minor # minors) \<and> length minors < n
    \<and> list_all (\<lambda>m. 2 \<le> m) minors)"
  using assms
proof (induction n arbitrary: minor w log)
  case (Suc n)
  let ?m = "version_request minor"
  obtain e w1 where wr: "n_write net ?m w = (e, w1)" by force
  obtain r w2 where rd: "n_read net 12 w1 = (r, w2)" by force
  have log: "writeMessage (logged net) cmdVersion (encodeVersion \<lparr>v_major = 4, v_minor = minor, v_rv = 0\<rparr>) (w, log)
      = (e, w1, log @ [?m])"
    using wr by (simp add: writeMessage_def logged_def version_request_def)
  have rdl: "readRaw (logged net) 12 (w1, log @ [?m]) = (r, w2, log @ [?m])"
    using rd by (simp add: readRaw_def logged_def)
  from Suc.prems obtain body resp where ok: "e = None" "r = Inr body" "decodeVersion body = Some resp"
    by (auto simp: log rdl split: option.splits sum.splits)
  show ?case
  proof (cases "v_rv resp = 0")
    case True
    then show ?thesis
      using Suc.prems ok by (auto simp: log rdl protocolVersionMajor_def split: if_splits)
  next
    case False
    then have again: "v_major resp = 4" "2 \<le> v_minor resp"
      "handshake_from n (logged net) 4 (v_minor resp) (w2, log @ [?m]) = (Inr (ma, mi), (w', log'))"
      using Suc.prems ok
      by (auto simp: log rdl protocolVersionMajor_def protocolVersionMinorBackward_def split: if_splits)
    from Suc.IH [OF again(3)] obtain minors where "ma = 4" "length minors < n" "list_all (\<lambda>m. 2 \<le> m) minors"
      "log' = (log @ [?m]) @ map version_request (v_minor resp # minors)" by blast
    with again(2) show ?thesis by (intro conjI exI [of _ "v_minor resp # minors"]) simp_all
  qed
qed simp

text \<open>
  The version negotiation: when the handshake succeeds the agreed major version is 4, the first
  offer was 4.4, and there was at most one more, for a minor version the daemon proposed that is
  not older than 4.2.
\<close>

theorem version_negotiation:
  assumes "handshake (logged net) (w, []) = (Inr (major, minor), (w', sent))"
  shows "major = 4 \<and> (sent = [version_request 4] \<or> (\<exists>m \<ge> 2. sent = [version_request 4, version_request m]))"
proof -
  from handshake_from_log [of 2 net 4 w "[]"] assms
  obtain minors where m: "major = 4" "sent = map version_request (4 # minors)" "length minors < 2"
    "list_all (\<lambda>m. 2 \<le> m) minors"
    by (auto simp: handshake_def protocolVersionMajor_def protocolVersionMinor_def)
  from m(3) consider "minors = []" | m where "minors = [m]" by (cases minors; cases "tl minors") auto
  then show ?thesis by cases (use m in auto)
qed

lemma version_negotiation_witness:
  "\<exists>m \<ge> 2. [version_request 4, version_request 3] = [version_request 4, version_request m]"
proof -
  let ?deny = "encodeVersion \<lparr>v_major = 4, v_minor = 3, v_rv = errServiceStopped\<rparr>"
    and ?ok = "encodeVersion \<lparr>v_major = 4, v_minor = 3, v_rv = 0\<rparr>"
  let ?w = "\<lparr>sc_rx = map Some (?deny @ ?ok), sc_tx = []\<rparr>"
  have rd: "script_read 12 \<lparr>sc_rx = map Some b @ rest, sc_tx = tx\<rparr> = (Inr b, \<lparr>sc_rx = rest, sc_tx = tx\<rparr>)"
    if "length b = 12" for b rest tx using script_read_data that by blast
  have "\<exists>w'. handshake (logged script_net) (?w, []) = (Inr (4, 3), (w', [version_request 4, version_request 3]))"
    using rd [of ?ok "[]"]
    by (simp only: handshake_def numeral_2_eq_2)
      (simp add: script_ops logged_def rd version_codec.enc_size version_codec.dec_enc
        protocolVersionMajor_def protocolVersionMinor_def protocolVersionMinorBackward_def errServiceStopped_def
        version_request_def)
  then obtain w' where "handshake (logged script_net) (?w, []) = (Inr (4, 3), (w', [version_request 4, version_request 3]))"
    by blast
  from version_negotiation [OF this] show ?thesis by auto
qed

text \<open>The body of a wait and of a stop request: the new protocol has none, the old one names the timeout.\<close>

definition wait_body :: "ipcClient \<Rightarrow> int \<Rightarrow> byte list" where
  "wait_body cl timeout =
     (if 4 \<le> cl_minor cl then []
      else let ms = word_of_int (timeout sdiv 1000000)
        in encodeWait \<lparr>w_timeoutMS = (if ms = 0 then 1 else ms), w_rv = 0\<rparr>)"

lemma script_read_cut:
  assumes "k < 8" "length b = 8"
  shows "script_read 8 \<lparr>sc_rx = map Some (take k b) @ None # rest, sc_tx = tx\<rparr> = (Inl NetTimeout, \<lparr>sc_rx = rest, sc_tx = tx\<rparr>)"
    and "0 < k \<Longrightarrow> script_read 8 \<lparr>sc_rx = map Some (drop k b) @ None # rest, sc_tx = tx\<rparr>
      = (Inl NetTimeout, \<lparr>sc_rx = rest, sc_tx = tx\<rparr>)"
  using assms script_read_timeout [of "take k b" 8] script_read_timeout [of "drop k b" 8] by simp_all

text \<open>
  C15. The reader state wait keeps the stream in sync, in both protocols. The daemon answers a
  registration once, with eight bytes: the change signal or the answer to its withdrawal. When they
  arrive in time, nothing else is read or sent. When the deadline fires before the first of them, the
  client withdraws the registration and the answer, whichever of the two it is, is read then. And when
  the deadline cuts the answer after some bytes, the rest of it is read after the withdrawal too. Each
  time the next byte on the stream is the first one after the answer, so the next request of the client
  is not answered by a stale signal.
\<close>

theorem wait_in_sync:
  assumes "length dump = (if 4 \<le> cl_minor cl then 2944 else 0)" "0 < k" "k < 8"
  shows "waitChange script_net cl timeout
      \<lparr>sc_rx = map Some (dump @ encodeWait answer) @ rest, sc_tx = []\<rparr>
    = ((if w_rv answer = 0 then None else Some (Code (w_rv answer))),
       \<lparr>sc_rx = rest, sc_tx = [message cmdWaitReaderStateChange (wait_body cl timeout)]\<rparr>)
   \<and> waitChange script_net cl timeout
      \<lparr>sc_rx = map Some dump @ [None] @ map Some (encodeWait answer) @ rest, sc_tx = []\<rparr>
    = (Some (if w_rv answer = 0 then ErrTimeout else Code (w_rv answer)),
       \<lparr>sc_rx = rest, sc_tx = [message cmdWaitReaderStateChange (wait_body cl timeout),
          message cmdStopWaitingReaderStateChange (wait_body cl timeout)]\<rparr>)
   \<and> waitChange script_net cl timeout
      \<lparr>sc_rx = map Some dump @ map Some (take k (encodeWait answer)) @ [None]
          @ map Some (drop k (encodeWait answer)) @ [None] @ rest, sc_tx = []\<rparr>
    = (Some ErrTimeout,
       \<lparr>sc_rx = rest, sc_tx = [message cmdWaitReaderStateChange (wait_body cl timeout),
          message cmdStopWaitingReaderStateChange (wait_body cl timeout)]\<rparr>)"
proof -
  have l8: "length (encodeWait answer) = 8" by (rule wait_codec.enc_size)
  have dump: "4 \<le> cl_minor cl \<Longrightarrow> length dump = 2944" "\<not> 4 \<le> cl_minor cl \<Longrightarrow> dump = []" using assms(1) by simp_all
  note rd = script_read_data [OF l8] script_read_data [OF dump(1)] script_read_timeout [of "[]" 8, simplified]
    script_read_cut [OF assms(3) l8] assms(2)
  show ?thesis
    by (cases "4 \<le> cl_minor cl")
      (simp_all add: waitChange_def waitChangeNew_def waitChangeOld_def stop_waiting_def script_ops rd dump(2)
        wait_body_def maxReaders_def readerStateWireSz_def wait_result_def wait_codec.dec_enc isNetTimeout_def Let_def)
qed

lemma wait_in_sync_witness:
  "waitChange script_net \<lparr>cl_context = 1, cl_major = 4, cl_minor = 4\<rparr> 250 \<lparr>sc_rx = map Some (replicate 2944 0)
      @ map Some (take 3 (encodeWait \<lparr>w_timeoutMS = 0, w_rv = 0\<rparr>)) @ [None]
      @ map Some (drop 3 (encodeWait \<lparr>w_timeoutMS = 0, w_rv = 0\<rparr>)) @ [None] @ [Some 7], sc_tx = []\<rparr>
    = (Some ErrTimeout, \<lparr>sc_rx = [Some 7], sc_tx = [message cmdWaitReaderStateChange [], message cmdStopWaitingReaderStateChange []]\<rparr>)"
  using wait_in_sync [of "replicate 2944 0" "\<lparr>cl_context = 1, cl_major = 4, cl_minor = 4\<rparr>" 3 250
      "\<lparr>w_timeoutMS = 0, w_rv = 0\<rparr>" "[Some 7]"] by (simp add: wait_body_def)

end
