(* ===== verification/Uid.thy ===== *)
theory Uid
  imports Ipc Events
begin

text \<open>
  Reading the UID of a presented card (\<open>uid.go\<close>): the exchange and its classification, the retries
  on one connection, the connect with its raw protocol fallback, and the insistence across card
  resets.

  The code reaches the daemon through the client of \<open>pcsc.go\<close>; \<open>card_api\<close> holds the operations it
  calls, \<open>client_api\<close> is that record for the client of theory \<open>Ipc\<close>. \<open>time.Sleep\<close> is \<open>a_sleep\<close>. The
  loops count their attempts up as the code does, so they end by a measure. A nil UID is the empty
  list, a nil card \<open>None\<close>.
\<close>

section \<open>The client interface\<close>

record 'w card_api =
  a_connect :: "string \<Rightarrow> u32 \<Rightarrow> 'w \<Rightarrow> (perror + ipcCard) \<times> 'w"
  a_transmit :: "ipcCard \<Rightarrow> byte list \<Rightarrow> int \<Rightarrow> 'w \<Rightarrow> (perror + byte list) \<times> 'w"
  a_getAttrib :: "ipcCard \<Rightarrow> u32 \<Rightarrow> 'w \<Rightarrow> (perror + byte list) \<times> 'w"
  a_disconnect :: "ipcCard \<Rightarrow> u32 \<Rightarrow> 'w \<Rightarrow> perror option \<times> 'w"
  a_sleep :: "int \<Rightarrow> 'w \<Rightarrow> 'w"

definition client_api :: "'w net \<Rightarrow> (int \<Rightarrow> 'w \<Rightarrow> 'w) \<Rightarrow> ipcClient \<Rightarrow> 'w card_api" where
  "client_api net sleep cl = \<lparr>a_connect = connect net cl, a_transmit = transmit net,
     a_getAttrib = getAttrib net, a_disconnect = disconnect net, a_sleep = sleep\<rparr>"

section \<open>Constants\<close>

definition uidAPDU :: "byte list" where "uidAPDU = [0xFF, 0xCA, 0x00, 0x00, 0x00]"
definition wedgedSW1 :: byte where "wedgedSW1 = 0x63"
definition wedgedSW2 :: byte where "wedgedSW2 = 0x00"
definition uidReadAttempts :: nat where "uidReadAttempts = 3"
definition uidReadRounds :: nat where "uidReadRounds = 3"
definition uidReadDelay :: int where "uidReadDelay = 60 * 10 ^ 6"
definition resetReopenSettle :: int where "resetReopenSettle = 100 * 10 ^ 6"
definition resetReopenAttempts :: nat where "resetReopenAttempts = 8"
definition resetReopenDelay :: int where "resetReopenDelay = 150 * 10 ^ 6"

section \<open>One exchange\<close>

definition isRandomUID :: "byte list \<Rightarrow> bool" where
  "isRandomUID uid \<longleftrightarrow> length uid = 4 \<and> uid ! 0 = 0x08"

text \<open>\<open>uidExchange\<close> after the transmit: the UID, whether the answer is final, whether it is wedged.\<close>

definition classify :: "perror + byte list \<Rightarrow> byte list \<times> bool \<times> bool" where
  "classify answer =
     (case answer of Inl _ \<Rightarrow> ([], False, False)
      | Inr resp \<Rightarrow>
          if length resp < 2 then ([], False, False)
          else let sw1 = resp ! (length resp - 2); sw2 = resp ! (length resp - 1) in
          if sw1 \<noteq> 0x90 \<or> sw2 \<noteq> 0x00 then ([], False, sw1 = wedgedSW1 \<and> sw2 = wedgedSW2)
          else let uid = take (length resp - 2) resp in
          if length uid = 0 then ([], False, False)
          else if isRandomUID uid then ([], True, False)
          else (uid, True, False))"

definition uidExchange :: "'w card_api \<Rightarrow> ipcCard \<Rightarrow> 'w \<Rightarrow> (byte list \<times> bool \<times> bool) \<times> 'w" where
  "uidExchange api c w =
     (case a_transmit api c uidAPDU 64 w of (answer, w) \<Rightarrow> (classify answer, w))"

function transmitUID_from :: "nat \<Rightarrow> 'w card_api \<Rightarrow> ipcCard \<Rightarrow> 'w \<Rightarrow> (byte list \<times> bool) \<times> 'w" where
  "transmitUID_from attempt api c w =
     (case uidExchange api c w of ((uid, final, wedged), w) \<Rightarrow>
        if final then ((uid, True), w)
        else if wedged then (([], False), w)
        else if uidReadAttempts \<le> attempt then (([], False), w)
        else transmitUID_from (attempt + 1) api c (a_sleep api uidReadDelay w))"
  by pat_completeness auto
termination
  by (relation "measure (\<lambda>(attempt, _). uidReadAttempts - attempt)") auto

definition transmitUID :: "'w card_api \<Rightarrow> ipcCard \<Rightarrow> 'w \<Rightarrow> (byte list \<times> u32 \<times> bool) \<times> 'w" where
  "transmitUID api c w =
     (case transmitUID_from 1 api c w of ((uid, done'), w) \<Rightarrow> ((uid, ca_protocol c, done'), w))"

section \<open>Connecting\<close>

definition connectCard :: "'w card_api \<Rightarrow> string \<Rightarrow> 'w \<Rightarrow> (perror + ipcCard) \<times> 'w" where
  "connectCard api reader w =
     (case a_connect api reader ProtocolAny w of (r, w) \<Rightarrow>
        if r = Inl ErrProtoMismatch then a_connect api reader ProtocolRaw w else (r, w))"

function openCard_from :: "nat \<Rightarrow> 'w card_api \<Rightarrow> string \<Rightarrow> 'w \<Rightarrow> (perror + ipcCard) \<times> 'w" where
  "openCard_from attempt api reader w =
     (case connectCard api reader w of
        (Inr c, w) \<Rightarrow> (Inr c, w)
      | (Inl e, w) \<Rightarrow>
          if uidReadAttempts \<le> attempt then (Inl e, w)
          else openCard_from (attempt + 1) api reader (a_sleep api uidReadDelay w))"
  by pat_completeness auto
termination
  by (relation "measure (\<lambda>(attempt, _). uidReadAttempts - attempt)") auto

definition openCard :: "'w card_api \<Rightarrow> string \<Rightarrow> 'w \<Rightarrow> (perror + ipcCard) \<times> 'w" where
  "openCard api reader w = openCard_from 1 api reader w"

function reopen_from :: "nat \<Rightarrow> 'w card_api \<Rightarrow> string \<Rightarrow> 'w \<Rightarrow> (perror + ipcCard) \<times> 'w" where
  "reopen_from attempt api reader w =
     (case connectCard api reader w of
        (Inr c, w) \<Rightarrow> (Inr c, w)
      | (Inl e, w) \<Rightarrow>
          if resetReopenAttempts \<le> attempt then (Inl e, w)
          else reopen_from (attempt + 1) api reader (a_sleep api resetReopenDelay w))"
  by pat_completeness auto
termination
  by (relation "measure (\<lambda>(attempt, _). resetReopenAttempts - attempt)") auto

definition reopenCardAfterReset :: "'w card_api \<Rightarrow> string \<Rightarrow> 'w \<Rightarrow> (perror + ipcCard) \<times> 'w" where
  "reopenCardAfterReset api reader w = reopen_from 1 api reader (a_sleep api resetReopenSettle w)"

section \<open>Insisting\<close>

function insist_from :: "nat \<Rightarrow> 'w card_api \<Rightarrow> ipcCard \<Rightarrow> string \<Rightarrow> 'w \<Rightarrow>
    (byte list \<times> u32 \<times> ipcCard option) \<times> 'w" where
  "insist_from round api live reader w =
     (case transmitUID api live w of ((uid, protocol, done'), w) \<Rightarrow>
        if done' then ((uid, protocol, Some live), w)
        else if uidReadRounds \<le> round then (([], protocol, Some live), w)
        else (case reopenCardAfterReset api reader (snd (a_disconnect api live ResetCard w)) of
                (Inl e, w) \<Rightarrow> (([], protocol, None), w)
              | (Inr c, w) \<Rightarrow> insist_from (round + 1) api c reader w))"
  by pat_completeness auto
termination
  by (relation "measure (\<lambda>(round, _). uidReadRounds - round)") auto

definition insistUID :: "'w card_api \<Rightarrow> ipcCard \<Rightarrow> string \<Rightarrow> 'w \<Rightarrow>
    (byte list \<times> u32 \<times> ipcCard option) \<times> 'w" where
  "insistUID api c reader w = insist_from 1 api c reader w"

definition protocolName :: "u32 \<Rightarrow> string" where
  "protocolName p =
     (if p = ProtocolT0 then ''T=0'' else if p = ProtocolT1 then ''T=1''
      else if p = ProtocolRaw then ''raw''
      else ''0x'' @ (let digits = dropWhile (\<lambda>c. c = CHR ''0'') (hex8 p)
                     in replicate (2 - length digits) (CHR ''0'') @ digits))"

declare transmitUID_from.simps [simp del] openCard_from.simps [simp del] reopen_from.simps [simp del]
  insist_from.simps [simp del]

section \<open>What an operation does\<close>

datatype card_op = OConnect string u32 "ipcCard option" | OTransmit ipcCard "byte list" "perror + byte list"
  | OGetAttrib ipcCard u32 | ODisconnect ipcCard u32 | OSleep int

text \<open>The same operations, with a log of what was done.\<close>

definition logged_api :: "'w card_api \<Rightarrow> ('w \<times> card_op list) card_api" where
  "logged_api api = \<lparr>
     a_connect = (\<lambda>reader p (w, log). case a_connect api reader p w of (r, w) \<Rightarrow>
       (r, w, log @ [OConnect reader p (case r of Inl _ \<Rightarrow> None | Inr c \<Rightarrow> Some c)])),
     a_transmit = (\<lambda>c apdu m (w, log). case a_transmit api c apdu m w of (r, w) \<Rightarrow> (r, w, log @ [OTransmit c apdu r])),
     a_getAttrib = (\<lambda>c a (w, log). case a_getAttrib api c a w of (r, w) \<Rightarrow> (r, w, log @ [OGetAttrib c a])),
     a_disconnect = (\<lambda>c d (w, log). case a_disconnect api c d w of (r, w) \<Rightarrow> (r, w, log @ [ODisconnect c d])),
     a_sleep = (\<lambda>d (w, log). (a_sleep api d w, log @ [OSleep d]))\<rparr>"

definition transmits :: "card_op list \<Rightarrow> nat" where
  "transmits log = length (filter (\<lambda>e. case e of OTransmit _ _ _ \<Rightarrow> True | _ \<Rightarrow> False) log)"

definition connects :: "card_op list \<Rightarrow> nat" where
  "connects log = length (filter (\<lambda>e. case e of OConnect _ _ _ \<Rightarrow> True | _ \<Rightarrow> False) log)"

definition slept :: "card_op list \<Rightarrow> int" where
  "slept log = sum_list (map (\<lambda>e. case e of OSleep d \<Rightarrow> d | _ \<Rightarrow> 0) log)"

text \<open>The connections a log leaves open, starting from some open ones.\<close>

fun held :: "ipcCard list \<Rightarrow> card_op list \<Rightarrow> ipcCard list" where
  "held cs [] = cs"
| "held cs (OConnect _ _ (Some c) # log) = held (c # cs) log"
| "held cs (ODisconnect c _ # log) = held (remove1 c cs) log"
| "held cs (_ # log) = held cs log"

definition is_wedged :: "card_op \<Rightarrow> bool" where
  "is_wedged e = (case e of OTransmit _ _ r \<Rightarrow> snd (snd (classify r)) | _ \<Rightarrow> False)"

text \<open>After a wedged answer the next step resets that card.\<close>

definition wedge_step :: "card_op \<Rightarrow> card_op \<Rightarrow> bool" where
  "wedge_step e f = (case e of OTransmit c _ r \<Rightarrow> (if is_wedged e then f = ODisconnect c ResetCard else True)
                             | _ \<Rightarrow> True)"

definition wedge_reset :: "card_op list \<Rightarrow> bool" where
  "wedge_reset log = successively wedge_step log"

section \<open>Logs of the operations\<close>

lemma held_append [simp]: "held cs (a @ b) = held (held cs a) b"
  by (induction cs a rule: held.induct) simp_all

lemma counts_append [simp]:
  "transmits (a @ b) = transmits a + transmits b" "connects (a @ b) = connects a + connects b"
  "slept (a @ b) = slept a + slept b"
  by (simp_all add: transmits_def connects_def slept_def)

lemma counts_Cons [simp]:
  "transmits [] = 0" "connects [] = 0" "slept [] = 0"
  "transmits (e # log) = (case e of OTransmit _ _ _ \<Rightarrow> 1 | _ \<Rightarrow> 0) + transmits log"
  "connects (e # log) = (case e of OConnect _ _ _ \<Rightarrow> 1 | _ \<Rightarrow> 0) + connects log"
  "slept (e # log) = (case e of OSleep d \<Rightarrow> d | _ \<Rightarrow> 0) + slept log"
  by (simp_all add: transmits_def connects_def slept_def split: card_op.split)

text \<open>Retries on one connection: answers that are neither final nor wedged, a pause after each.\<close>

definition retriable :: "perror + byte list \<Rightarrow> bool" where
  "retriable r \<longleftrightarrow> classify r = ([], False, False)"

definition retries :: "ipcCard \<Rightarrow> (perror + byte list) list \<Rightarrow> card_op list" where
  "retries c rs = concat (map (\<lambda>r. [OTransmit c uidAPDU r, OSleep uidReadDelay]) rs)"

lemma retries_simps [simp]:
  "retries c [] = []" "retries c (r # rs) = OTransmit c uidAPDU r # OSleep uidReadDelay # retries c rs"
  by (simp_all add: retries_def)

lemma classify_not_final: "fst (snd (classify r)) \<or> fst (classify r) = []"
  by (auto simp: classify_def Let_def split: sum.split)

lemma classify_wedged: "snd (snd (classify r)) \<Longrightarrow> classify r = ([], False, True)"
  by (auto simp: classify_def Let_def split: sum.splits if_splits)

lemma transmitUID_log:
  "transmitUID_from attempt (logged_api api) c (w, log) = ((uid, fin), (w', log')) \<Longrightarrow>
   \<exists>rs r. log' = log @ retries c rs @ [OTransmit c uidAPDU r] \<and> attempt + length rs \<le> max attempt uidReadAttempts
     \<and> list_all retriable rs \<and> (if fin then classify r = (uid, True, False) else uid = [] \<and> \<not> fst (snd (classify r)))"
proof (induction "uidReadAttempts - attempt" arbitrary: attempt w log rule: less_induct)
  case less
  obtain r w1 where tr: "a_transmit api c uidAPDU 64 w = (r, w1)" by force
  obtain u f x where cl: "classify r = (u, f, x)" by (cases "classify r")
  have ex: "uidExchange (logged_api api) c (w, log) = ((u, f, x), (w1, log @ [OTransmit c uidAPDU r]))"
    by (simp add: uidExchange_def logged_api_def tr cl)
  note step = less.prems [unfolded transmitUID_from.simps [of attempt] ex, simplified]
  consider "f" | "\<not> f" "x" | "\<not> f" "\<not> x" "uidReadAttempts \<le> attempt"
    | "\<not> f" "\<not> x" "attempt < uidReadAttempts" by linarith
  then show ?case
  proof cases
    case 1
    then have "\<not> x" using classify_wedged [of r] cl by auto
    with 1 step cl show ?thesis by (intro exI [of _ "[]"] exI [of _ r]) auto
  next
    case 2
    with step cl show ?thesis by (intro exI [of _ "[]"] exI [of _ r]) auto
  next
    case 3
    with step cl show ?thesis by (intro exI [of _ "[]"] exI [of _ r]) auto
  next
    case 4
    then have run: "transmitUID_from (attempt + 1) (logged_api api) c
        (a_sleep api uidReadDelay w1, (log @ [OTransmit c uidAPDU r]) @ [OSleep uidReadDelay]) = ((uid, fin), (w', log'))"
      using step by (simp add: logged_api_def)
    have "retriable r" using 4 cl classify_not_final [of r] by (simp add: retriable_def)
    moreover have lt: "uidReadAttempts - (attempt + 1) < uidReadAttempts - attempt" using 4(3) by simp
    from less.hyps [OF lt run] 4(3) obtain rs r' where "log' = (log @ [OTransmit c uidAPDU r]) @ [OSleep uidReadDelay] @ retries c rs @ [OTransmit c uidAPDU r']"
      "attempt + 1 + length rs \<le> max (attempt + 1) uidReadAttempts" "list_all retriable rs"
      "if fin then classify r' = (uid, True, False) else uid = [] \<and> \<not> fst (snd (classify r'))"
      by (auto simp: max_def)
    ultimately show ?thesis using 4(3) by (intro exI [of _ "r # rs"] exI [of _ r']) auto
  qed
qed

text \<open>Reconnecting: no exchange, at most two connects per attempt, and the connection it ends with.\<close>

definition reconnect_ops :: "card_op list \<Rightarrow> perror + ipcCard \<Rightarrow> bool" where
  "reconnect_ops ops r \<longleftrightarrow> transmits ops = 0 \<and> list_all (\<lambda>e. \<not> is_wedged e) ops
     \<and> (\<forall>cs. held cs ops = (case r of Inl _ \<Rightarrow> cs | Inr c \<Rightarrow> c # cs))"

lemma logged_connect:
  "a_connect (logged_api api) reader p (w, log) =
     (case a_connect api reader p w of (r, w') \<Rightarrow>
       (r, w', log @ [OConnect reader p (case r of Inl _ \<Rightarrow> None | Inr c \<Rightarrow> Some c)]))"
  by (simp add: logged_api_def)

lemma reconnect_ops_connect [simp]:
  "reconnect_ops [OConnect reader p (case r of Inl _ \<Rightarrow> None | Inr c \<Rightarrow> Some c)] r"
  by (cases r) (simp_all add: reconnect_ops_def is_wedged_def)

lemma reconnect_ops_failed: "reconnect_ops ops r \<Longrightarrow> reconnect_ops (OConnect reader p None # ops) r"
  by (simp add: reconnect_ops_def is_wedged_def)

lemma connectCard_log:
  assumes "connectCard (logged_api api) reader (w, log) = (r, (w', log'))"
  shows "\<exists>ops. log' = log @ ops \<and> ops \<noteq> [] \<and> reconnect_ops ops r \<and> connects ops \<le> 2 \<and> slept ops = 0"
proof -
  obtain r1 w1 where c1: "a_connect api reader ProtocolAny w = (r1, w1)" by force
  obtain r2 w2 where c2: "a_connect api reader ProtocolRaw w1 = (r2, w2)" by force
  let ?o = "\<lambda>p r. OConnect reader p (case r of Inl _ \<Rightarrow> None | Inr c \<Rightarrow> Some c)"
  show ?thesis
  proof (cases "r1 = Inl ErrProtoMismatch")
    case True
    then have "r = r2" "log' = log @ [OConnect reader ProtocolAny None, ?o ProtocolRaw r2]"
      using assms by (auto simp: connectCard_def logged_connect c1 c2)
    then show ?thesis by (intro exI [of _ "[OConnect reader ProtocolAny None, ?o ProtocolRaw r2]"])
        (simp add: reconnect_ops_failed)
  next
    case False
    then have "r = r1" "log' = log @ [?o ProtocolAny r1]"
      using assms by (auto simp: connectCard_def logged_connect c1)
    then show ?thesis by (intro exI [of _ "[?o ProtocolAny r1]"]) simp
  qed
qed

lemma reopen_log:
  "reopen_from attempt (logged_api api) reader (w, log) = (r, (w', log')) \<Longrightarrow> attempt \<le> resetReopenAttempts \<Longrightarrow>
   \<exists>ops. log' = log @ ops \<and> ops \<noteq> [] \<and> reconnect_ops ops r
     \<and> connects ops \<le> 2 * (resetReopenAttempts + 1 - attempt)
     \<and> slept ops \<le> int (resetReopenAttempts - attempt) * resetReopenDelay"
proof (induction "resetReopenAttempts - attempt" arbitrary: attempt w log rule: less_induct)
  case less
  obtain r1 w1 log1 where c: "connectCard (logged_api api) reader (w, log) = (r1, (w1, log1))" by (metis surj_pair)
  from connectCard_log [OF c] obtain ops where ops: "log1 = log @ ops" "ops \<noteq> []" "reconnect_ops ops r1"
    "connects ops \<le> 2" "slept ops = 0" by blast
  note step = less.prems(1) [unfolded reopen_from.simps [of attempt] c, simplified]
  have pos: "0 \<le> int (resetReopenAttempts - attempt) * resetReopenDelay" by (simp add: resetReopenDelay_def)
  show ?case
  proof (cases "\<exists>e. r1 = Inl e \<and> attempt < resetReopenAttempts")
    case False
    then have "r = r1" "w' = w1" "log' = log1" using step by (auto split: sum.splits if_splits)
    with ops pos less.prems(2) show ?thesis by (intro exI [of _ ops]) auto
  next
    case True
    then obtain e where e: "r1 = Inl e" "attempt < resetReopenAttempts" by blast
    then have run: "reopen_from (attempt + 1) (logged_api api) reader
        (a_sleep api resetReopenDelay w1, log1 @ [OSleep resetReopenDelay]) = (r, (w', log'))"
      using step by (simp add: logged_api_def)
    have lt: "resetReopenAttempts - (attempt + 1) < resetReopenAttempts - attempt"
      "attempt + 1 \<le> resetReopenAttempts" using e(2) by simp_all
    from less.hyps [OF lt(1) run lt(2)] obtain more where more: "log' = (log1 @ [OSleep resetReopenDelay]) @ more" "reconnect_ops more r"
      "connects more \<le> 2 * (resetReopenAttempts + 1 - (attempt + 1))"
      "slept more \<le> int (resetReopenAttempts - (attempt + 1)) * resetReopenDelay"
      by blast
    have "int (resetReopenAttempts - (attempt + 1)) * resetReopenDelay + resetReopenDelay
        = int (resetReopenAttempts - attempt) * resetReopenDelay"
      using e(2) by (simp add: of_nat_diff algebra_simps)
    with ops e more show ?thesis
      by (intro exI [of _ "ops @ OSleep resetReopenDelay # more"])
        (auto simp: reconnect_ops_def is_wedged_def)
  qed
qed

text \<open>One round: what a log of \<open>transmitUID\<close> counts and keeps.\<close>

lemma retries_counts:
  "transmits (retries c rs) = length rs" "connects (retries c rs) = 0"
  "slept (retries c rs) = int (length rs) * uidReadDelay" "held cs (retries c rs) = cs"
  by (induction rs) (simp_all add: algebra_simps)

lemma retries_no_wedge: "list_all retriable rs \<Longrightarrow> e \<in> set (retries c rs) \<Longrightarrow> \<not> is_wedged e"
  by (induction rs) (auto simp: is_wedged_def retriable_def)

lemma wedge_step_ok: "\<not> is_wedged e \<Longrightarrow> wedge_step e f"
  by (cases e) (simp_all add: wedge_step_def)

lemma wedge_reset_calm:
  "(\<And>e. e \<in> set ops \<Longrightarrow> \<not> is_wedged e) \<Longrightarrow> wedge_reset (ops @ log) \<longleftrightarrow> wedge_reset log"
proof (induction ops)
  case (Cons e ops)
  then have "wedge_step e f" for f using wedge_step_ok [of e] by simp
  with Cons show ?case by (cases "ops @ log") (simp_all add: wedge_reset_def)
qed simp

text \<open>A whole run: the budget that is left when it starts with a given round.\<close>

definition run_ok :: "nat \<Rightarrow> ipcCard \<Rightarrow> card_op list \<Rightarrow> byte list \<Rightarrow> u32 \<Rightarrow> ipcCard option \<Rightarrow> bool" where
  "run_ok rounds c ops uid protocol live \<longleftrightarrow>
     transmits ops \<le> uidReadAttempts * rounds
     \<and> connects ops \<le> 2 * resetReopenAttempts * (rounds - 1)
     \<and> slept ops \<le> 2 * uidReadDelay * int rounds
         + (resetReopenSettle + 7 * resetReopenDelay) * int (rounds - 1)
     \<and> held [c] ops = (case live of None \<Rightarrow> [] | Some c' \<Rightarrow> [c'])
     \<and> wedge_reset ops
     \<and> (uid = [] \<or> (\<exists>c' resp pre. live = Some c' \<and> protocol = ca_protocol c' \<and> classify (Inr resp) = (uid, True, False)
           \<and> ops = pre @ [OTransmit c' uidAPDU (Inr resp)]))"

lemma classify_uid: "classify r = (uid, True, False) \<Longrightarrow> uid \<noteq> [] \<Longrightarrow> \<exists>resp. r = Inr resp"
  by (cases r) (auto simp: classify_def)

lemma insist_log:
  "insist_from round (logged_api api) c reader (w, log) = ((uid, protocol, live), (w', log')) \<Longrightarrow>
   1 \<le> round \<Longrightarrow> round \<le> uidReadRounds \<Longrightarrow>
   \<exists>ops. log' = log @ ops \<and> run_ok (uidReadRounds + 1 - round) c ops uid protocol live"
proof (induction "uidReadRounds - round" arbitrary: round c w log rule: less_induct)
  case less
  define k where "k = uidReadRounds - round"
  have k: "uidReadRounds + 1 - round = Suc k" using less.prems(3) by (simp add: k_def)
  obtain u fin w1 log1 where t: "transmitUID_from 1 (logged_api api) c (w, log) = ((u, fin), (w1, log1))"
    by (metis surj_pair)
  from transmitUID_log [OF t] obtain rs r where log1: "log1 = log @ retries c rs @ [OTransmit c uidAPDU r]"
    and n: "length rs \<le> 2" and calm: "list_all retriable rs"
    and res: "if fin then classify r = (u, True, False) else u = [] \<and> \<not> fst (snd (classify r))"
    by (auto simp: uidReadAttempts_def)
  let ?last = "OTransmit c uidAPDU r"
  note step = less.prems(1) [unfolded insist_from.simps [of round] transmitUID_def t, simplified]
  have pauses: "int (length rs) * uidReadDelay \<le> 2 * uidReadDelay" using n by (simp add: uidReadDelay_def)
  have calm': "e \<in> set (retries c rs) \<Longrightarrow> \<not> is_wedged e" for e using calm by (rule retries_no_wedge)
  note counts = retries_counts log1
  show ?case
  proof (cases "fin \<or> uidReadRounds \<le> round")
    case True
    then have out: "live = Some c" "protocol = ca_protocol c" "log' = log1" "uid = (if fin then u else [])"
      using step by (auto split: if_splits)
    have "uid = [] \<or> (\<exists>resp. r = Inr resp \<and> classify (Inr resp) = (uid, True, False))"
    proof (cases "uid = []")
      case False
      then have "classify r = (uid, True, False)" using out(4) res by (auto split: if_splits)
      with False classify_uid [of r uid] show ?thesis by auto
    qed simp
    moreover have "wedge_reset (retries c rs @ [?last])"
      using wedge_reset_calm [of "retries c rs" "[?last]"] calm' by (simp add: wedge_reset_def)
    moreover have "0 \<le> 2 * uidReadDelay * int k + (resetReopenSettle + 7 * resetReopenDelay) * int k"
      by (simp add: uidReadDelay_def resetReopenSettle_def resetReopenDelay_def)
    ultimately have "run_ok (Suc k) c (retries c rs @ [?last]) uid protocol live"
      using n pauses by (auto simp: run_ok_def counts out uidReadAttempts_def algebra_simps)
    then show ?thesis unfolding k by (simp add: out log1)
  next
    case False
    then have r: "round < uidReadRounds" "\<not> fin" by auto
    obtain e w2 where d: "a_disconnect api c ResetCard w1 = (e, w2)" by force
    let ?reset = "[ODisconnect c ResetCard, OSleep resetReopenSettle]"
    obtain q w3 log3 where ro: "reopen_from 1 (logged_api api) reader
        (a_sleep api resetReopenSettle w2, log1 @ ?reset) = (q, (w3, log3))" by (metis surj_pair)
    have reopen: "reopenCardAfterReset (logged_api api) reader (snd (a_disconnect (logged_api api) c ResetCard (w1, log1)))
        = (q, (w3, log3))"
      using ro by (simp add: reopenCardAfterReset_def logged_api_def d)
    obtain ro_ops where ops: "log3 = (log1 @ ?reset) @ ro_ops" "ro_ops \<noteq> []" "reconnect_ops ro_ops q"
      "connects ro_ops \<le> 16" "slept ro_ops \<le> 7 * resetReopenDelay"
      using reopen_log [OF ro] by (auto simp: resetReopenAttempts_def)
    let ?first = "retries c rs @ [?last] @ ?reset @ ro_ops"
    have first: "transmits ?first \<le> 3" "connects ?first \<le> 16"
      "slept ?first \<le> 2 * uidReadDelay + (resetReopenSettle + 7 * resetReopenDelay)"
      "held [c] ?first = (case q of Inl _ \<Rightarrow> [] | Inr c' \<Rightarrow> [c'])"
      using n pauses ops(3-5) by (auto simp: counts reconnect_ops_def)
    have wedge: "wedge_reset (?first @ log'')" if "wedge_reset log''" for log''
    proof -
      have "e \<in> set (?reset @ ro_ops) \<Longrightarrow> \<not> is_wedged e" for e
        using ops(3) by (auto simp: reconnect_ops_def list_all_iff is_wedged_def)
      then have "wedge_reset ((?reset @ ro_ops) @ log'')"
        using wedge_reset_calm [of "?reset @ ro_ops" log''] that by blast
      then have "wedge_reset (?last # (?reset @ ro_ops) @ log'')"
        by (simp add: wedge_reset_def wedge_step_def)
      then show ?thesis
        using wedge_reset_calm [of "retries c rs" "?last # (?reset @ ro_ops) @ log''"] calm' by simp
    qed
    obtain k' where k': "k = Suc k'" using r(1) by (metis k_def Suc_diff_Suc)
    have first_log: "log3 = log @ ?first" using ops(1) log1 by simp
    show ?thesis
    proof (cases q)
      case (Inl err)
      then have out: "uid = []" "live = None" "log' = log3"
        using step r reopen by (simp_all add: )
      have "0 \<le> 2 * uidReadDelay * int k + (resetReopenSettle + 7 * resetReopenDelay) * int k'"
        by (simp add: uidReadDelay_def resetReopenSettle_def resetReopenDelay_def)
      moreover have "wedge_reset ?first" using wedge [of "[]"] by (simp add: wedge_reset_def)
      ultimately have "run_ok (Suc k) c ?first uid protocol live"
        using first Inl out unfolding run_ok_def
        by (simp add: uidReadAttempts_def resetReopenAttempts_def k' algebra_simps)
      with first_log out show ?thesis unfolding k by blast
    next
      case (Inr c')
      then have run: "insist_from (round + 1) (logged_api api) c' reader (w3, log3) = ((uid, protocol, live), (w', log'))"
        using step r reopen by simp
      have lt: "uidReadRounds - (round + 1) < uidReadRounds - round" "1 \<le> round + 1" "round + 1 \<le> uidReadRounds"
        using r(1) by simp_all
      have kk: "uidReadRounds + 1 - (round + 1) = k" by (simp add: k_def)
      from less.hyps [OF lt(1) run lt(2,3)] obtain more where more: "log' = log3 @ more" "run_ok k c' more uid protocol live"
        unfolding kk by blast
      have "run_ok (Suc k) c (?first @ more) uid protocol live"
        using first Inr more(2) wedge [of more] unfolding run_ok_def
        by (auto simp: uidReadAttempts_def resetReopenAttempts_def k' algebra_simps) 
      with more(1) first_log show ?thesis unfolding k by (metis append.assoc)
    qed
  qed
qed

lemma insistUID_log:
  assumes "insistUID (logged_api api) c reader (w, []) = ((uid, protocol, live), (w', log))"
  shows "run_ok 3 c log uid protocol live"
  using insist_log [OF assms [unfolded insistUID_def]] by (simp add: uidReadRounds_def)

lemma list_two_last: "2 \<le> length xs \<Longrightarrow> \<exists>a y z. xs = a @ [y, z]"
proof -
  assume n: "2 \<le> length xs"
  then have "length (drop (length xs - 2) xs) = Suc (Suc 0)" by simp
  then obtain y z where "drop (length xs - 2) xs = [y, z]" by (auto simp: length_Suc_conv simp del: length_drop)
  then show ?thesis by (metis append_take_drop_id)
qed

lemma classify_final:
  "classify (Inr resp) = (uid, True, False) \<Longrightarrow> uid \<noteq> [] \<Longrightarrow> resp = uid @ [0x90, 0x00] \<and> \<not> isRandomUID uid"
proof -
  assume c: "classify (Inr resp) = (uid, True, False)" and u: "uid \<noteq> []"
  then have n: "2 \<le> length resp" and b: "resp ! (length resp - 2) = 0x90" "resp ! (length resp - 1) = 0x00"
    and t: "uid = take (length resp - 2) resp" "\<not> isRandomUID uid"
    by (auto simp: classify_def Let_def split: if_splits)
  obtain a y z where resp: "resp = a @ [y, z]"
    using n by (metis list_two_last)
  show ?thesis using b t by (simp add: resp nth_append)
qed

section \<open>Properties\<close>

text \<open>C16. A UID that is reported is what the card still connected answered last, with the status
  word 90 00, to the one command sent, it is not a random UID, and the protocol is that
  connection's.\<close>

theorem uid_genuine:
  assumes "insistUID (logged_api api) c reader (w, []) = ((uid, protocol, live), (w', log))" "uid \<noteq> []"
  shows "\<exists>c' before. live = Some c' \<and> protocol = ca_protocol c' \<and> \<not> isRandomUID uid
    \<and> log = before @ [OTransmit c' uidAPDU (Inr (uid @ [0x90, 0x00]))]"
proof -
  from insistUID_log [OF assms(1)] assms(2) obtain c' resp before where
    "live = Some c'" "protocol = ca_protocol c'" "classify (Inr resp) = (uid, True, False)"
    "log = before @ [OTransmit c' uidAPDU (Inr resp)]"
    unfolding run_ok_def by blast
  with classify_final [of resp uid] assms(2) show ?thesis by blast
qed

text \<open>C27. However the card and the daemon behave, reading a UID ends after at most nine exchanges, at
  most thirty-two connects and 2.66 seconds of pauses.\<close>

theorem insist_budget:
  "transmits (snd (snd (insistUID (logged_api api) c reader (w, [])))) \<le> 9
   \<and> connects (snd (snd (insistUID (logged_api api) c reader (w, [])))) \<le> 32
   \<and> slept (snd (snd (insistUID (logged_api api) c reader (w, [])))) \<le> 2660 * 10 ^ 6"
proof -
  obtain uid protocol live w' log where run: "insistUID (logged_api api) c reader (w, []) = ((uid, protocol, live), (w', log))"
    by (metis surj_pair)
  from insistUID_log [OF this] show ?thesis
    by (simp add: run run_ok_def uidReadAttempts_def resetReopenAttempts_def uidReadDelay_def
        resetReopenSettle_def resetReopenDelay_def)
qed

text \<open>C11. Of the connections a run opens and the one it was given, exactly the one it returns is open
  at its end: none leaks, and none is closed twice or returned closed.\<close>

theorem insist_holds_one:
  "held [c] (snd (snd (insistUID (logged_api api) c reader (w, [])))) =
     (case snd (snd (fst (insistUID (logged_api api) c reader (w, [])))) of None \<Rightarrow> [] | Some c' \<Rightarrow> [c'])"
proof -
  obtain uid protocol live w' log where run: "insistUID (logged_api api) c reader (w, []) = ((uid, protocol, live), (w', log))"
    by (metis surj_pair)
  from insistUID_log [OF this] show ?thesis by (simp add: run run_ok_def)
qed

text \<open>After the wedged status 63 00 the same card state is not asked again: if anything follows, it
  is the reset of that card.\<close>

theorem wedged_is_reset:
  assumes "insistUID (logged_api api) c reader (w, []) = (out, (w', log))"
    "Suc i < length log" "log ! i = OTransmit c' apdu (Inr resp)"
    "snd (snd (classify (Inr resp)))"
  shows "log ! Suc i = ODisconnect c' ResetCard"
proof -
  obtain uid protocol live where out: "out = (uid, protocol, live)" by (metis surj_pair)
  have "successively wedge_step log"
    using insistUID_log [OF assms(1) [unfolded out]] by (simp add: run_ok_def wedge_reset_def)
  then have "wedge_step (log ! i) (log ! Suc i)" using assms(2) by (simp add: successively_conv_nth)
  then show ?thesis using assms(3,4) by (simp add: wedge_step_def is_wedged_def)
qed

text \<open>A final answer ends the run at once, on the connection it was given: a proper UID is returned
  as it is, a random one as none, with no second exchange, no pause and no reset.\<close>

theorem final_answer_returns:
  assumes "a_transmit api c uidAPDU 64 w = (Inr (uid @ [0x90, 0x00]), w')" "uid \<noteq> []"
  shows "insistUID api c reader w = ((if isRandomUID uid then [] else uid, ca_protocol c, Some c), w')"
  using assms
  by (simp add: insistUID_def insist_from.simps [of "Suc 0"] transmitUID_def transmitUID_from.simps [of "Suc 0"]
      uidExchange_def classify_def nth_append)

section \<open>Witnesses\<close>

text \<open>A reader whose card answers wedged once, and its UID after a reset; the state counts resets.\<close>

definition sample_card :: ipcCard where
  "sample_card = \<lparr>ca_handle = 7, ca_protocol = 2\<rparr>"

definition sample_api :: "nat card_api" where
  "sample_api = \<lparr>
     a_connect = (\<lambda>reader p n. if p = ProtocolAny then (Inl ErrProtoMismatch, n) else (Inr sample_card, n)),
     a_transmit = (\<lambda>c apdu m n. (Inr (if n = 0 then [0x63, 0x00] else [0x04, 0xA1, 0x90, 0x00]), n)),
     a_getAttrib = (\<lambda>c a n. (Inr [], n)),
     a_disconnect = (\<lambda>c d n. (None, n + 1)),
     a_sleep = (\<lambda>d n. n)\<rparr>"

definition sample_log :: "card_op list" where
  "sample_log = [OTransmit sample_card uidAPDU (Inr [0x63, 0x00]), ODisconnect sample_card ResetCard,
     OSleep resetReopenSettle, OConnect ''R'' ProtocolAny None, OConnect ''R'' ProtocolRaw (Some sample_card),
     OTransmit sample_card uidAPDU (Inr [0x04, 0xA1, 0x90, 0x00])]"

lemma sample_run:
  "insistUID (logged_api sample_api) sample_card ''R'' (0::nat, []) =
     (([0x04, 0xA1], 2, Some sample_card), (1, sample_log))"
proof -
  have "ProtocolRaw \<noteq> ProtocolAny" by (simp add: ProtocolRaw_def ProtocolAny_def ProtocolT0_def ProtocolT1_def)
  then show ?thesis
    by (simp add: insistUID_def insist_from.simps [of "Suc 0"] insist_from.simps [of "Suc (Suc 0)"] transmitUID_def
        transmitUID_from.simps [of "Suc 0"] uidExchange_def classify_def isRandomUID_def uidReadRounds_def
        reopenCardAfterReset_def reopen_from.simps [of "Suc 0"] connectCard_def logged_api_def sample_api_def
        wedgedSW1_def wedgedSW2_def sample_card_def sample_log_def)
qed

theorem uid_genuine_witness:
  "\<exists>c' before. Some sample_card = Some c' \<and> 2 = ca_protocol c' \<and> \<not> isRandomUID [0x04, 0xA1]
    \<and> sample_log = before @ [OTransmit c' uidAPDU (Inr ([0x04, 0xA1] @ [0x90, 0x00]))]"
  by (rule uid_genuine [OF sample_run]) simp

theorem wedged_is_reset_witness: "sample_log ! Suc 0 = ODisconnect sample_card ResetCard"
proof (rule wedged_is_reset [OF sample_run])
  show "Suc 0 < length sample_log" by (simp add: sample_log_def)
  show "sample_log ! 0 = OTransmit sample_card uidAPDU (Inr [0x63, 0x00])" by (simp add: sample_log_def)
  show "snd (snd (classify (Inr [0x63, 0x00])))" by (simp add: classify_def wedgedSW1_def wedgedSW2_def)
qed

theorem final_answer_returns_witness:
  "insistUID sample_api sample_card ''R'' 1 =
     ((if isRandomUID [0x04, 0xA1] then [] else [0x04, 0xA1], ca_protocol sample_card, Some sample_card), 1)"
  by (rule final_answer_returns) (simp_all add: sample_api_def)

end
