(* ===== verification/Sysfs.thy ===== *)
theory Sysfs
  imports Registry Tags Wire "HOL-Library.List_Lexorder" "HOL-Library.Char_ord" "HOL-Library.Multiset"
begin

text \<open>
  Reading the unit and machine identity out of sysfs (\<open>readerid.go\<close>): the USB device at a bus
  address, the device scan by reader name with its traffic correlation, and the hardware addresses
  of the machine.

  A sysfs tree is what the calls of package \<open>os\<close> see with links followed: a map from paths to
  directories with their sorted listing, readable files, and files that cannot be read. A path is the
  list \<open>filepath.Join\<close> gets, the configured root first. One scan reads one tree; the tree may
  change between scans. \<open>strings.ToUpper\<close> outside ASCII is the parameter \<open>up\<close>. The texts of the
  failure reasons go to the log only, so a reason is a value, \<open>Fine\<close> the empty one.
\<close>

section \<open>The tree\<close>

type_synonym path = "string list"

datatype node = Dir "string list" | File string | Unreadable

type_synonym tree = "path \<Rightarrow> node option"

definition ReadDir :: "tree \<Rightarrow> path \<Rightarrow> string list option" where
  "ReadDir t p = (case t p of Some (Dir names) \<Rightarrow> Some names | _ \<Rightarrow> None)"

definition ReadFile :: "tree \<Rightarrow> path \<Rightarrow> string option" where
  "ReadFile t p = (case t p of Some (File s) \<Rightarrow> Some s | _ \<Rightarrow> None)"

definition Stat_ok :: "tree \<Rightarrow> path \<Rightarrow> bool" where
  "Stat_ok t p = (t p \<noteq> None)"

definition is_dir :: "tree \<Rightarrow> path \<Rightarrow> bool" where
  "is_dir t p = (case t p of Some (Dir _) \<Rightarrow> True | _ \<Rightarrow> False)"

section \<open>Attributes\<close>

text \<open>\<open>strconv.ParseUint\<close> for 32 bits and the bases 10 and 16.\<close>

definition digit_value :: "char \<Rightarrow> nat option" where
  "digit_value c =
     (let n = of_char c :: nat in
      if 48 \<le> n \<and> n \<le> 57 then Some (n - 48)
      else if 97 \<le> n \<and> n \<le> 122 then Some (n - 87)
      else if 65 \<le> n \<and> n \<le> 90 then Some (n - 55) else None)"

fun parse_digits :: "nat \<Rightarrow> int \<Rightarrow> string \<Rightarrow> int option" where
  "parse_digits base acc [] = Some acc"
| "parse_digits base acc (c # cs) =
     (case digit_value c of
        None \<Rightarrow> None
      | Some d \<Rightarrow> if d < base then parse_digits base (acc * int base + int d) cs else None)"

definition ParseUint :: "nat \<Rightarrow> string \<Rightarrow> u32 option" where
  "ParseUint base s =
     (if s = [] then None
      else case parse_digits base 0 s of
        None \<Rightarrow> None | Some n \<Rightarrow> if n < 2 ^ 32 then Some (word_of_int n) else None)"

definition readSysString :: "tree \<Rightarrow> path \<Rightarrow> string" where
  "readSysString t p = (case ReadFile t p of None \<Rightarrow> [] | Some raw \<Rightarrow> TrimSpace raw)"

definition readSysHex :: "tree \<Rightarrow> path \<Rightarrow> u32" where
  "readSysHex t p =
     (case ReadFile t p of
        None \<Rightarrow> 0
      | Some raw \<Rightarrow> (case ParseUint 16 (TrimSpace raw) of None \<Rightarrow> 0 | Some n \<Rightarrow> n))"

definition readSysNum :: "tree \<Rightarrow> path \<Rightarrow> u32" where
  "readSysNum t p =
     (case ReadFile t p of
        None \<Rightarrow> 0
      | Some raw \<Rightarrow> (case ParseUint 10 (TrimSpace raw) of None \<Rightarrow> 0 | Some n \<Rightarrow> n))"

section \<open>Constants and reasons\<close>

definition defaultSysfsUSB :: string where "defaultSysfsUSB = ''/sys/bus/usb/devices''"
definition defaultSysfsNet :: string where "defaultSysfsNet = ''/sys/class/net''"
definition channelIDUSBType :: u32 where "channelIDUSBType = 0x0020"
definition ccidInterfaceClass :: u32 where "ccidInterfaceClass = 0x0B"
definition urbWinnerMinDelta :: int where "urbWinnerMinDelta = 2"
definition urbWinnerMargin :: int where "urbWinnerMargin = 2"
definition pinningExchanges :: nat where "pinningExchanges = 2"

datatype reason = Fine | NoRoot | TreeUnreadable | DevpathUnreadable u32 u32 | NoDeviceAt u32 u32
  | NoTokens | NoCandidate | NoDevpath string | PortOwned string | TrafficOwned string
  | NoTraffic nat | Ambiguous nat | NoChannelID | ChannelMalformed nat | ChannelNotUSB u32

section \<open>Port identity of a slot\<close>

definition group_char :: "char \<Rightarrow> bool" where
  "group_char c \<longleftrightarrow>
     \<not> ((c < CHR ''0'' \<or> CHR ''9'' < c) \<and> (c < CHR ''a'' \<or> CHR ''f'' < c) \<and> (c < CHR ''A'' \<or> CHR ''F'' < c))"

definition isHexGroup :: "string \<Rightarrow> bool" where
  "isHexGroup s \<longleftrightarrow> length s = 2 \<and> list_all group_char s"

definition lower_char :: "char \<Rightarrow> char" where
  "lower_char c = (if CHR ''A'' \<le> c \<and> c \<le> CHR ''Z'' then char_of (of_char c + 32 :: nat) else c)"

definition upper_char :: "char \<Rightarrow> char" where
  "upper_char c = (if CHR ''a'' \<le> c \<and> c \<le> CHR ''z'' then char_of (of_char c - 32 :: nat) else c)"

text \<open>\<open>strings.ToLower\<close> is only applied to ASCII text.\<close>

definition ToUpper :: "(string \<Rightarrow> string) \<Rightarrow> string \<Rightarrow> string" where
  "ToUpper up s = (if list_all (\<lambda>c. of_char c < (128 :: nat)) s then map upper_char s else up s)"

definition portIdentity :: "string \<Rightarrow> string \<Rightarrow> string" where
  "portIdentity reader devpath =
     (let fields = Fields reader in
      if length fields < 2 then devpath
      else let slot = fields ! (length fields - 1); digit = fields ! (length fields - 2) in
      if length slot \<noteq> 2 \<or> length digit \<noteq> 2 \<or> \<not> isHexGroup slot \<or> \<not> isHexGroup digit then devpath
      else if slot = ''00'' then devpath
      else devpath @ ''#'' @ map lower_char slot)"

section \<open>The device at a bus address\<close>

text \<open>The first directory of the listing with that bus and device number.\<close>

definition at_address :: "tree \<Rightarrow> string \<Rightarrow> u32 \<Rightarrow> u32 \<Rightarrow> string \<Rightarrow> bool" where
  "at_address t root bus dev name \<longleftrightarrow>
     is_dir t [root, name] \<and> readSysNum t [root, name, ''busnum''] = bus
       \<and> readSysNum t [root, name, ''devnum''] = dev"

fun usb_port_scan :: "tree \<Rightarrow> string \<Rightarrow> u32 \<Rightarrow> u32 \<Rightarrow> string list \<Rightarrow> string \<times> reason" where
  "usb_port_scan t root bus dev [] = ([], NoDeviceAt bus dev)"
| "usb_port_scan t root bus dev (name # entries) =
     (if \<not> at_address t root bus dev name then usb_port_scan t root bus dev entries
      else case ReadFile t [root, name, ''devpath''] of
        None \<Rightarrow> ([], DevpathUnreadable bus dev)
      | Some raw \<Rightarrow> (TrimSpace raw, Fine))"

definition usbPortPath :: "tree \<Rightarrow> string \<Rightarrow> u32 \<Rightarrow> u32 \<Rightarrow> string \<times> reason" where
  "usbPortPath t root bus dev =
     (if root = [] then ([], NoRoot)
      else case ReadDir t [root] of
        None \<Rightarrow> ([], TreeUnreadable)
      | Some entries \<Rightarrow> usb_port_scan t root bus dev entries)"

section \<open>CCID devices and their traffic\<close>

definition usbCCIDDevices :: "tree \<Rightarrow> string \<Rightarrow> string list \<Rightarrow> string list" where
  "usbCCIDDevices t root entries =
     List.map_filter (\<lambda>name. case IndexByte name (CHR '':'') of
         None \<Rightarrow> None
       | Some i \<Rightarrow>
           if 0 < i \<and> readSysHex t [root, name, ''bInterfaceClass''] = ccidInterfaceClass
           then Some (take i name) else None) entries"

type_synonym snapshot = "(string \<Rightarrow> u32 option) option"

definition usbUrbSnapshot :: "tree \<Rightarrow> string \<Rightarrow> snapshot" where
  "usbUrbSnapshot t root =
     (if root = [] then None
      else case ReadDir t [root] of
        None \<Rightarrow> None
      | Some entries \<Rightarrow>
          Some (map_of (map (\<lambda>name. (name, readSysNum t [root, name, ''urbnum'']))
            (usbCCIDDevices t root entries))))"

definition count_in :: "(string \<Rightarrow> u32 option) \<Rightarrow> string \<Rightarrow> int" where
  "count_in m name = (case m name of None \<Rightarrow> 0 | Some n \<Rightarrow> uint n)"

fun urb_scan :: "(string \<Rightarrow> u32 option) \<Rightarrow> (string \<Rightarrow> u32 option) \<Rightarrow> string list \<Rightarrow>
    string \<times> int \<times> int \<Rightarrow> string \<times> int \<times> int" where
  "urb_scan before after [] st = st"
| "urb_scan before after (candidate # rest) (winner, winnerDelta, runnerUp) =
     urb_scan before after rest
       (case before candidate of
          None \<Rightarrow> (winner, winnerDelta, runnerUp)
        | Some base \<Rightarrow>
            let delta = count_in after candidate - uint base in
            if winnerDelta < delta then (candidate, delta, winnerDelta)
            else if runnerUp < delta then (winner, winnerDelta, delta)
            else (winner, winnerDelta, runnerUp))"

definition usbUrbWinner :: "snapshot \<Rightarrow> snapshot \<Rightarrow> string list \<Rightarrow> string option" where
  "usbUrbWinner before after candidates =
     (case (before, after) of
        (Some b, Some a) \<Rightarrow>
          (case urb_scan b a candidates ([], 0, 0) of (winner, winnerDelta, runnerUp) \<Rightarrow>
             if winner = [] \<or> winnerDelta < urbWinnerMinDelta \<or> winnerDelta - runnerUp < urbWinnerMargin
             then None else Some winner)
      | _ \<Rightarrow> None)"

section \<open>The scan by reader name\<close>

definition readerNameTokens :: "(string \<Rightarrow> string) \<Rightarrow> string \<Rightarrow> string list" where
  "readerNameTokens up reader =
     List.map_filter (\<lambda>field.
         let token = ToUpper up field in
         if isHotplugIndex field then None
         else if 2 \<le> length token \<and> token ! 0 = CHR ''('' \<and> token ! (length token - 1) = CHR '')'' then None
         else if Trim token ''0'' = [] then None
         else Some token)
       (Fields (normalizeReaderName reader))"

definition tokensIn :: "string \<Rightarrow> string list \<Rightarrow> bool" where
  "tokensIn device tokens = list_all (Contains device) tokens"

definition device_text :: "(string \<Rightarrow> string) \<Rightarrow> tree \<Rightarrow> string \<Rightarrow> string \<Rightarrow> string" where
  "device_text up t root name =
     ToUpper up (readSysString t [root, name, ''manufacturer''] @ '' ''
       @ readSysString t [root, name, ''product''])"

definition is_candidate :: "(string \<Rightarrow> string) \<Rightarrow> tree \<Rightarrow> string \<Rightarrow> string list \<Rightarrow> string list \<Rightarrow> string \<Rightarrow> bool" where
  "is_candidate up t root entries tokens name \<longleftrightarrow>
     \<not> Contains name '':'' \<and> name \<in> set (usbCCIDDevices t root entries) \<and> is_dir t [root, name]
       \<and> tokensIn (device_text up t root name) tokens"

text \<open>\<open>resolve\<close> of the source.\<close>

definition resolve_port :: "tree \<Rightarrow> string \<Rightarrow> string \<Rightarrow> string \<Rightarrow> string \<times> reason" where
  "resolve_port t root reader name =
     (let devpath = readSysString t [root, name, ''devpath''] in
      if devpath = [] then ([], NoDevpath name) else (portIdentity reader devpath, Fine))"

fun free_ports :: "(string \<Rightarrow> string \<times> reason) \<Rightarrow> (string \<Rightarrow> bool) \<Rightarrow> string list \<Rightarrow> string list \<Rightarrow>
    reason + string list" where
  "free_ports resolve claimed [] free = Inr free"
| "free_ports resolve claimed (candidate # rest) free =
     (case resolve candidate of (port, reason) \<Rightarrow>
        if port = [] then Inl reason
        else free_ports resolve claimed rest (if claimed port then free else free @ [port]))"

definition usbPortPathByReader :: "(string \<Rightarrow> string) \<Rightarrow> tree \<Rightarrow> string \<Rightarrow> string \<Rightarrow>
    snapshot \<Rightarrow> snapshot \<Rightarrow> (string \<Rightarrow> string option) \<Rightarrow> string \<times> reason" where
  "usbPortPathByReader up t root reader before after claims =
     (if root = [] then ([], NoRoot)
      else case ReadDir t [root] of
        None \<Rightarrow> ([], TreeUnreadable)
      | Some entries \<Rightarrow>
          let tokens = readerNameTokens up reader in
          if tokens = [] then ([], NoTokens)
          else let candidates = filter (is_candidate up t root entries tokens) entries in
          (case candidates of
             [] \<Rightarrow> ([], NoCandidate)
           | [single] \<Rightarrow>
               (case resolve_port t root reader single of (port, reason) \<Rightarrow>
                  if port = [] then ([], reason)
                  else if foreign_owner claims reader port then ([], PortOwned port)
                  else (port, Fine))
           | _ \<Rightarrow>
               (case usbUrbWinner before after candidates of
                  Some winner \<Rightarrow>
                    (case resolve_port t root reader winner of (port, reason) \<Rightarrow>
                       if port = [] then ([], reason)
                       else if foreign_owner claims reader port then ([], TrafficOwned port)
                       else (port, Fine))
                | None \<Rightarrow>
                    (case free_ports (resolve_port t root reader) (foreign_owner claims reader) candidates [] of
                       Inl reason \<Rightarrow> ([], reason)
                     | Inr [port] \<Rightarrow> (port, Fine)
                     | Inr _ \<Rightarrow>
                         ([], if Option.is_none before \<or> Option.is_none after then NoTraffic (length candidates)
                              else Ambiguous (length candidates))))))"

section \<open>The machine identity\<close>

definition isHardwareEthernet :: "tree \<Rightarrow> path \<Rightarrow> bool" where
  "isHardwareEthernet t dir \<longleftrightarrow>
     readSysNum t (dir @ [''type'']) = 1 \<and> \<not> Stat_ok t (dir @ [''phy80211'']) \<and> Stat_ok t (dir @ [''device''])"

text \<open>The address of one interface, when it counts.\<close>

definition hardware_mac :: "tree \<Rightarrow> path \<Rightarrow> string option" where
  "hardware_mac t dir =
     (if \<not> isHardwareEthernet t dir then None
      else case ReadFile t (dir @ [''address'']) of
        None \<Rightarrow> None
      | Some raw \<Rightarrow>
          let mac = TrimSpace raw in
          if mac = [] \<or> Trim mac ''0:'' = [] then None else Some mac)"

definition machineIDFrom :: "tree \<Rightarrow> string \<Rightarrow> string" where
  "machineIDFrom t root =
     (case ReadDir t [root] of
        None \<Rightarrow> []
      | Some entries \<Rightarrow>
          Join ''|'' (sort (List.map_filter (\<lambda>name. hardware_mac t [root, name]) entries)))"

definition MachineID :: "tree \<Rightarrow> string" where
  "MachineID t = machineIDFrom t defaultSysfsNet"

section \<open>Traffic correlation\<close>

definition urb_delta :: "(string \<Rightarrow> u32 option) \<Rightarrow> (string \<Rightarrow> u32 option) \<Rightarrow> string \<Rightarrow> int option" where
  "urb_delta before after c = map_option (\<lambda>base. count_in after c - uint base) (before c)"

text \<open>What the scan knows after a set of candidates: the largest delta and the second largest.\<close>

definition best_of :: "(string \<Rightarrow> int option) \<Rightarrow> string set \<Rightarrow> string \<times> int \<times> int \<Rightarrow> bool" where
  "best_of D S = (\<lambda>(w, wd, ru). 0 \<le> ru \<and> ru \<le> wd
     \<and> (if w = [] then wd = 0 else w \<in> S \<and> D w = Some wd \<and> 0 < wd)
     \<and> (\<forall>c \<in> S - {w}. \<forall>e. D c = Some e \<longrightarrow> e \<le> ru)
     \<and> (ru = 0 \<or> (\<exists>c \<in> S - {w}. D c = Some ru)))"

lemma best_of_step:
  assumes "best_of D S (w, wd, ru)" "c \<notin> S" "c \<noteq> []" "[] \<notin> S"
  shows "best_of D (insert c S)
    (case D c of None \<Rightarrow> (w, wd, ru)
     | Some d \<Rightarrow> if wd < d then (c, d, wd) else if ru < d then (w, wd, d) else (w, wd, ru))"
proof (cases "D c")
  case None
  then show ?thesis using assms by (auto simp: best_of_def)
next
  case (Some d)
  have wc: "w \<noteq> c" using assms by (auto simp: best_of_def split: if_splits)
  consider "wd < d" | "d \<le> wd" "ru < d" | "d \<le> ru" by linarith
  then show ?thesis
  proof cases
    case 1
    have "\<forall>x \<in> S. \<forall>e. D x = Some e \<longrightarrow> e \<le> wd" using assms(1,4) by (fastforce simp: best_of_def split: if_splits)
    moreover have "wd = 0 \<or> (\<exists>x \<in> S. D x = Some wd)" using assms(1) by (auto simp: best_of_def split: if_splits)
    ultimately show ?thesis using 1 Some assms by (auto simp: best_of_def split: if_splits)
  next
    case 2
    then show ?thesis using Some assms wc by (fastforce simp: best_of_def split: if_splits)
  next
    case 3
    then show ?thesis using Some assms wc by (fastforce simp: best_of_def split: if_splits)
  qed
qed

lemma urb_scan_best:
  "best_of (urb_delta b a) S st \<Longrightarrow> distinct cs \<Longrightarrow> set cs \<inter> S = {} \<Longrightarrow> [] \<notin> set cs \<union> S \<Longrightarrow>
   best_of (urb_delta b a) (S \<union> set cs) (urb_scan b a cs st)"
proof (induction cs arbitrary: S st)
  case (Cons c cs)
  obtain w wd ru where st: "st = (w, wd, ru)" by (cases st) auto
  let ?st = "case urb_delta b a c of None \<Rightarrow> (w, wd, ru)
     | Some d \<Rightarrow> if wd < d then (c, d, wd) else if ru < d then (w, wd, d) else (w, wd, ru)"
  have "urb_scan b a (c # cs) st = urb_scan b a cs ?st"
    by (cases "b c") (simp_all add: st urb_delta_def Let_def)
  moreover have "best_of (urb_delta b a) (insert c S) ?st"
    by (rule best_of_step) (use Cons.prems st in auto)
  ultimately show ?case using Cons.IH [of "insert c S" ?st] Cons.prems by simp
qed simp

text \<open>C20. The traffic correlation answers a device exactly when it is decisive: the device existed at
  the start of the window, its counter moved by at least two, and by at least two more than that of
  every other candidate that existed.\<close>

theorem urb_winner_iff:
  assumes "distinct candidates" "[] \<notin> set candidates"
  shows "usbUrbWinner (Some b) (Some a) candidates = Some w \<longleftrightarrow>
    w \<in> set candidates
    \<and> (\<exists>d. urb_delta b a w = Some d \<and> 2 \<le> d
        \<and> (\<forall>c \<in> set candidates - {w}. \<forall>e. urb_delta b a c = Some e \<longrightarrow> e + 2 \<le> d))"
proof -
  obtain x xd ru where scan: "urb_scan b a candidates ([], 0, 0) = (x, xd, ru)" by (metis surj_pair)
  have "best_of (urb_delta b a) ({} \<union> set candidates) (urb_scan b a candidates ([], 0, 0))"
    by (rule urb_scan_best) (use assms in \<open>simp_all add: best_of_def\<close>)
  then have best: "best_of (urb_delta b a) (set candidates) (x, xd, ru)" by (simp add: scan)
  have win: "usbUrbWinner (Some b) (Some a) candidates = Some w \<longleftrightarrow> x \<noteq> [] \<and> 2 \<le> xd \<and> 2 \<le> xd - ru \<and> x = w"
    by (auto simp: usbUrbWinner_def scan urbWinnerMinDelta_def urbWinnerMargin_def)
  show ?thesis
  proof
    assume "usbUrbWinner (Some b) (Some a) candidates = Some w"
    with best show "w \<in> set candidates \<and> (\<exists>d. urb_delta b a w = Some d \<and> 2 \<le> d
        \<and> (\<forall>c \<in> set candidates - {w}. \<forall>e. urb_delta b a c = Some e \<longrightarrow> e + 2 \<le> d))"
      unfolding win by (fastforce simp: best_of_def)
  next
    assume r: "w \<in> set candidates \<and> (\<exists>d. urb_delta b a w = Some d \<and> 2 \<le> d
        \<and> (\<forall>c \<in> set candidates - {w}. \<forall>e. urb_delta b a c = Some e \<longrightarrow> e + 2 \<le> d))"
    then obtain d where d: "urb_delta b a w = Some d" "2 \<le> d"
      "\<And>c e. c \<in> set candidates - {w} \<Longrightarrow> urb_delta b a c = Some e \<Longrightarrow> e + 2 \<le> d" by blast
    have "x = w"
    proof (rule ccontr)
      assume "x \<noteq> w"
      then have "d \<le> ru" "ru \<le> xd" using best r d(1) by (auto simp: best_of_def)
      moreover from this d(2) best have "x \<in> set candidates" "urb_delta b a x = Some xd"
        by (auto simp: best_of_def split: if_splits)
      ultimately show False using d(3) [of x xd] \<open>x \<noteq> w\<close> by auto
    qed
    moreover from this have "x \<noteq> []" using r assms(2) by auto
    moreover from this have "xd = d" using \<open>x = w\<close> best d(1) by (simp add: best_of_def)
    moreover have "2 \<le> d - ru" using best d \<open>x = w\<close> by (fastforce simp: best_of_def)
    ultimately show "usbUrbWinner (Some b) (Some a) candidates = Some w" unfolding win using d(2) by auto
  qed
qed

theorem urb_winner_iff_witness:
  "usbUrbWinner (Some [''1-1'' \<mapsto> 5, ''1-2'' \<mapsto> 9]) (Some [''1-1'' \<mapsto> 6, ''1-2'' \<mapsto> 12])
     [''1-1'', ''1-2''] = Some ''1-2''"
  by (subst urb_winner_iff) (auto simp: urb_delta_def count_in_def)

section \<open>The scan by reader name\<close>

lemma portIdentity_not_nil: "devpath \<noteq> [] \<Longrightarrow> portIdentity reader devpath \<noteq> []"
  by (simp add: portIdentity_def Let_def)

text \<open>A successful \<open>resolve\<close>, and a port the scan may answer for a device.\<close>

definition port_of_device :: "tree \<Rightarrow> string \<Rightarrow> string \<Rightarrow> string \<Rightarrow> string \<Rightarrow> bool" where
  "port_of_device t root reader name port \<longleftrightarrow>
     readSysString t [root, name, ''devpath''] \<noteq> []
       \<and> port = portIdentity reader (readSysString t [root, name, ''devpath''])"

lemma resolve_port_cases:
  assumes "resolve_port t root reader name = (port, reason)"
  shows "port_of_device t root reader name port \<and> port \<noteq> [] \<and> reason = Fine
    \<or> port = [] \<and> reason = NoDevpath name"
  using assms
  by (auto simp: resolve_port_def Let_def port_of_device_def portIdentity_not_nil split: if_splits)

lemma free_ports_sound:
  "free_ports resolve claimed cs free = Inr ports \<Longrightarrow> p \<in> set ports \<Longrightarrow>
   p \<in> set free \<or> (\<exists>c \<in> set cs. fst (resolve c) = p \<and> p \<noteq> [] \<and> \<not> claimed p)"
  by (induction cs arbitrary: free) (fastforce split: prod.splits if_splits)+

lemma free_ports_reason:
  "free_ports resolve claimed cs free = Inl r \<Longrightarrow> \<exists>c \<in> set cs. resolve c = ([], r)"
  by (induction cs arbitrary: free) (auto split: prod.splits if_splits)

text \<open>What every answer of the scan is.\<close>

definition scan_answer :: "(string \<Rightarrow> string) \<Rightarrow> tree \<Rightarrow> string \<Rightarrow> string \<Rightarrow> (string \<Rightarrow> string option) \<Rightarrow>
    string \<times> reason \<Rightarrow> bool" where
  "scan_answer up t root reader claims out \<longleftrightarrow>
     (fst out = [] \<and> snd out \<noteq> Fine)
     \<or> (snd out = Fine \<and> fst out \<noteq> [] \<and> \<not> foreign_owner claims reader (fst out)
        \<and> (\<exists>entries name. ReadDir t [root] = Some entries \<and> name \<in> set entries
             \<and> is_candidate up t root entries (readerNameTokens up reader) name
             \<and> port_of_device t root reader name (fst out)))"

lemma scan_answer_failed: "reason \<noteq> Fine \<Longrightarrow> scan_answer up t root reader claims ([], reason)"
  by (simp add: scan_answer_def)

lemma scan_answer_resolved:
  assumes "ReadDir t [root] = Some entries" "name \<in> set entries"
    and "is_candidate up t root entries (readerNameTokens up reader) name" "\<And>p. owned p \<noteq> Fine"
  shows "scan_answer up t root reader claims
    (case resolve_port t root reader name of (port, reason) \<Rightarrow>
       if port = [] then ([], reason)
       else if foreign_owner claims reader port then ([], owned port) else (port, Fine))"
proof -
  obtain port reason where r: "resolve_port t root reader name = (port, reason)" by force
  from resolve_port_cases [OF this] show ?thesis
    using assms by (auto simp: r scan_answer_def)
qed

lemma urb_scan_winner: "fst (urb_scan b a cs st) = fst st \<or> fst (urb_scan b a cs st) \<in> set cs"
proof (induction cs arbitrary: st)
  case (Cons c cs)
  obtain w d r where st: "st = (w, d, r)" by (cases st) auto
  let ?st = "case b c of None \<Rightarrow> (w, d, r)
     | Some base \<Rightarrow> let delta = count_in a c - uint base in
         if d < delta then (c, delta, d) else if r < delta then (w, d, delta) else (w, d, r)"
  have "fst ?st = w \<or> fst ?st = c" by (simp add: Let_def split: option.split)
  then show ?case using Cons.IH [of ?st] by (auto simp: st)
qed simp

lemma usbUrbWinner_candidate: "usbUrbWinner before after cs = Some w \<Longrightarrow> w \<in> set cs"
proof -
  assume win: "usbUrbWinner before after cs = Some w"
  then obtain b a where ba: "before = Some b" "after = Some a"
    by (cases before; cases after) (simp_all add: usbUrbWinner_def)
  obtain x d r where scan: "urb_scan b a cs ([], 0, 0) = (x, d, r)" by (metis surj_pair)
  from win have "w = x" "x \<noteq> []" by (auto simp: usbUrbWinner_def ba scan split: if_splits)
  then show ?thesis using urb_scan_winner [of b a cs "([], 0, 0)"] by (simp add: scan)
qed

lemma scan_answer_eliminated:
  assumes "ReadDir t [root] = Some entries" "reason \<noteq> Fine"
    and "set cs \<subseteq> {name \<in> set entries. is_candidate up t root entries (readerNameTokens up reader) name}"
  shows "scan_answer up t root reader claims
    (case free_ports (resolve_port t root reader) (foreign_owner claims reader) cs [] of
       Inl reason \<Rightarrow> ([], reason) | Inr [port] \<Rightarrow> (port, Fine) | Inr _ \<Rightarrow> ([], reason))"
proof (cases "free_ports (resolve_port t root reader) (foreign_owner claims reader) cs []")
  case (Inl r)
  from free_ports_reason [OF this] obtain c where "resolve_port t root reader c = ([], r)" by blast
  with resolve_port_cases [OF this] show ?thesis by (simp add: Inl scan_answer_def)
next
  case (Inr ports)
  show ?thesis
  proof (cases "\<exists>p. ports = [p]")
    case True
    then obtain p where p: "ports = [p]" by blast
    then obtain c where c: "c \<in> set cs" "fst (resolve_port t root reader c) = p" "p \<noteq> []"
      "\<not> foreign_owner claims reader p"
      using free_ports_sound [OF Inr, of p] by auto
    obtain r where "resolve_port t root reader c = (p, r)" using c(2) by (metis prod.collapse)
    from resolve_port_cases [OF this] c assms show ?thesis by (auto simp: Inr p scan_answer_def)
  next
    case False
    then have "(case ports of [port] \<Rightarrow> (port, Fine) | _ \<Rightarrow> ([], reason)) = ([], reason)"
      by (auto split: list.split)
    then show ?thesis using assms(2) by (simp add: Inr scan_answer_def split: list.splits)
  qed
qed

lemma scan_answers:
  "scan_answer up t root reader claims (usbPortPathByReader up t root reader before after claims)"
proof (cases "root = [] \<or> ReadDir t [root] = None \<or> readerNameTokens up reader = []")
  case True
  then show ?thesis
    by (auto simp: usbPortPathByReader_def Let_def scan_answer_failed split: option.split)
next
  case False
  then obtain entries where e: "ReadDir t [root] = Some entries" by auto
  let ?ok = "is_candidate up t root entries (readerNameTokens up reader)"
  let ?why = "if Option.is_none before \<or> Option.is_none after then NoTraffic (length (filter ?ok entries))
    else Ambiguous (length (filter ?ok entries))"
  have cand: "set (filter ?ok entries) \<subseteq> {name \<in> set entries. ?ok name}" by auto
  consider "filter ?ok entries = []" | name where "filter ?ok entries = [name]"
    | x y rest where "filter ?ok entries = x # y # rest" by (metis list.exhaust)
  then show ?thesis
  proof cases
    case 1
    with False e show ?thesis by (simp add: usbPortPathByReader_def scan_answer_failed)
  next
    case 2
    then have "name \<in> set entries" "?ok name" using cand by auto
    from scan_answer_resolved [OF e this, of PortOwned claims] 2 False e show ?thesis
      by (simp add: usbPortPathByReader_def)
  next
    case 3
    show ?thesis
    proof (cases "usbUrbWinner before after (filter ?ok entries)")
      case None
      have "scan_answer up t root reader claims
        (case free_ports (resolve_port t root reader) (foreign_owner claims reader) (filter ?ok entries) [] of
           Inl reason \<Rightarrow> ([], reason) | Inr [port] \<Rightarrow> (port, Fine) | Inr _ \<Rightarrow> ([], ?why))"
        by (rule scan_answer_eliminated [OF e _ cand]) simp
      from this [unfolded 3] None [unfolded 3] 3 False e show ?thesis
        by (simp add: usbPortPathByReader_def Let_def del: free_ports.simps split del: if_split)
    next
      case (Some w)
      then have "w \<in> set entries" "?ok w" using usbUrbWinner_candidate [OF Some] cand by auto
      from scan_answer_resolved [OF e this, of TrafficOwned claims] 3 Some False e show ?thesis
        by (simp add: usbPortPathByReader_def)
    qed
  qed
qed

section \<open>Properties of the scan\<close>

text \<open>C21. The scan never hands out a port that belongs to another reader, and a port it answers is that of
  a USB device with a smart card interface whose vendor and product strings carry every token of the
  reader name, qualified with the reader's slot.\<close>

theorem scan_port_genuine:
  assumes "usbPortPathByReader up t root reader before after claims = (port, reason)" "port \<noteq> []"
  shows "\<not> foreign_owner claims reader port
    \<and> (\<exists>entries name. ReadDir t [root] = Some entries \<and> name \<in> set entries
         \<and> name \<in> set (usbCCIDDevices t root entries)
         \<and> (\<forall>token \<in> set (readerNameTokens up reader). Contains (device_text up t root name) token)
         \<and> port = portIdentity reader (readSysString t [root, name, ''devpath'']))"
  using scan_answers [of up t root reader claims before after] assms
  by (auto simp: scan_answer_def is_candidate_def tokensIn_def list_all_iff port_of_device_def)

text \<open>The scan fails with a reason exactly when it answers no port.\<close>

theorem scan_names_failure:
  "fst (usbPortPathByReader up t root reader before after claims) = []
     \<longleftrightarrow> snd (usbPortPathByReader up t root reader before after claims) \<noteq> Fine"
  using scan_answers [of up t root reader claims before after] by (auto simp: scan_answer_def)

text \<open>A tree with two readers of one model.\<close>

definition sample_tree :: tree where
  "sample_tree = map_of
     [([''/s''], Dir [''1'', ''1:0'', ''2'', ''2:0'']), ([''/s'', ''1''], Dir []), ([''/s'', ''2''], Dir []),
      ([''/s'', ''1:0'', ''bInterfaceClass''], File ''0b''), ([''/s'', ''2:0'', ''bInterfaceClass''], File ''0b''),
      ([''/s'', ''1'', ''product''], File ''R''), ([''/s'', ''2'', ''product''], File ''R''),
      ([''/s'', ''1'', ''devpath''], File ''1''), ([''/s'', ''2'', ''devpath''], File ''2'')]"

section \<open>The two trailing groups of a reader name\<close>

definition hotplug_slot :: "string \<Rightarrow> nat option list option" where
  "hotplug_slot reader =
     (let fields = Fields reader in
      if length fields < 2 then None
      else let slot = fields ! (length fields - 1) in
      if isHexGroup slot \<and> isHexGroup (fields ! (length fields - 2)) then Some (map digit_value slot) else None)"

lemma of_char_lower:
  "of_char (lower_char c) = (if 65 \<le> (of_char c :: nat) \<and> of_char c \<le> (90 :: nat) then of_char c + 32 else (of_char c :: nat))"
  by (auto simp: lower_char_def less_eq_char_def)

lemma group_char_iff:
  "group_char c \<longleftrightarrow> (let n = of_char c :: nat in 48 \<le> n \<and> n \<le> 57 \<or> 97 \<le> n \<and> n \<le> 102 \<or> 65 \<le> n \<and> n \<le> 70)"
  by (auto simp: group_char_def less_char_def Let_def)

definition digit_of_code :: "nat \<Rightarrow> nat" where
  "digit_of_code n = (if n \<le> 57 then n - 48 else n - 87)"

lemma group_char_digit:
  assumes "group_char c"
  shows "digit_value c = Some (digit_of_code (of_char (lower_char c)))
    \<and> (48 \<le> (of_char (lower_char c) :: nat) \<and> of_char (lower_char c) \<le> (57 :: nat)
       \<or> 97 \<le> (of_char (lower_char c) :: nat) \<and> of_char (lower_char c) \<le> (102 :: nat))"
  using assms unfolding of_char_lower group_char_iff digit_value_def digit_of_code_def Let_def by auto

lemma lower_digit:
  assumes "group_char c" "group_char d"
  shows "lower_char c = lower_char d \<longleftrightarrow> digit_value c = digit_value d"
proof -
  have code: "digit_of_code m = digit_of_code n \<longleftrightarrow> m = n"
    if "48 \<le> m \<and> m \<le> 57 \<or> 97 \<le> m \<and> m \<le> 102" "48 \<le> n \<and> n \<le> 57 \<or> 97 \<le> n \<and> n \<le> 102" for m n
    using that unfolding digit_of_code_def by (cases "m \<le> 57"; cases "n \<le> 57"; simp; arith)
  note c = group_char_digit [OF assms(1)] and d = group_char_digit [OF assms(2)]
  have "digit_value c = digit_value d \<longleftrightarrow> (of_char (lower_char c) :: nat) = of_char (lower_char d)"
    unfolding conjunct1 [OF c] conjunct1 [OF d] option.inject by (rule code [OF conjunct2 [OF c] conjunct2 [OF d]])
  then show ?thesis by (simp only: of_char_eq_iff)
qed

lemma lower_digits:
  "list_all group_char a \<Longrightarrow> list_all group_char b \<Longrightarrow> length a = length b \<Longrightarrow>
   map lower_char a = map lower_char b \<longleftrightarrow> map digit_value a = map digit_value b"
  by (induction a b rule: list_induct2') (auto simp: lower_digit)

lemma zero_slot:
  assumes "isHexGroup slot"
  shows "slot = ''00'' \<longleftrightarrow> map digit_value slot = map digit_value ''00''"
proof -
  have zero: "digit_value c = digit_value CHR ''0'' \<Longrightarrow> c = CHR ''0''" for c
  proof -
    assume "digit_value c = digit_value CHR ''0''"
    then have "of_char c = (48 :: nat)" by (auto simp: digit_value_def Let_def split: if_splits)
    also have "\<dots> = of_char CHR ''0''" by simp
    finally show "c = CHR ''0''" by (simp only: of_char_eq_iff)
  qed
  obtain a b where "slot = [a, b]"
    using assms by (auto simp: isHexGroup_def numeral_2_eq_2 length_Suc_conv)
  then show ?thesis using zero [of a] zero [of b] by auto
qed

lemma portIdentity_slot:
  assumes "hotplug_slot reader = Some digits"
  shows "\<exists>slot. isHexGroup slot \<and> digits = map digit_value slot
    \<and> (\<forall>devpath. portIdentity reader devpath = devpath @ (if slot = ''00'' then [] else CHR ''#'' # map lower_char slot))"
proof -
  define fields where "fields = Fields reader"
  define slot where "slot = fields ! (length fields - 1)"
  define digit where "digit = fields ! (length fields - 2)"
  from assms have h: "\<not> length fields < 2" "isHexGroup slot" "isHexGroup digit" "digits = map digit_value slot"
    unfolding hotplug_slot_def Let_def fields_def [symmetric] slot_def [symmetric] digit_def [symmetric]
    by (auto split: if_splits)
  have "portIdentity reader devpath = devpath @ (if slot = ''00'' then [] else CHR ''#'' # map lower_char slot)" for devpath
    using h unfolding portIdentity_def Let_def fields_def [symmetric] slot_def [symmetric] digit_def [symmetric]
    by (auto simp: isHexGroup_def)
  with h show ?thesis by blast
qed

lemma sharp_split:
  assumes "x \<notin> set a" "x \<notin> set b"
  shows "a @ x # u = b @ x # v \<longleftrightarrow> a = b \<and> u = v"
proof
  assume e: "a @ x # u = b @ x # v"
  have "takeWhile (\<lambda>c. c \<noteq> x) (a @ x # u) = a" "takeWhile (\<lambda>c. c \<noteq> x) (b @ x # v) = b"
    using assms by (induction a) (auto, induction b, auto)
  with e show "a = b \<and> u = v" by simp
qed simp

text \<open>Two slots never collide. For two pcscd names with their two trailing hex groups, and kernel port
  paths (which hold no number sign), the port identities are equal exactly when path and slot
  number are, whatever the case of the hex digits.\<close>

theorem port_slots_apart:
  assumes "hotplug_slot r1 = Some s1" "hotplug_slot r2 = Some s2" "CHR ''#'' \<notin> set d1" "CHR ''#'' \<notin> set d2"
  shows "portIdentity r1 d1 = portIdentity r2 d2 \<longleftrightarrow> d1 = d2 \<and> s1 = s2"
proof -
  from portIdentity_slot [OF assms(1)] obtain a where a: "isHexGroup a" "s1 = map digit_value a"
    "portIdentity r1 d1 = d1 @ (if a = ''00'' then [] else CHR ''#'' # map lower_char a)" by blast
  from portIdentity_slot [OF assms(2)] obtain b where b: "isHexGroup b" "s2 = map digit_value b"
    "portIdentity r2 d2 = d2 @ (if b = ''00'' then [] else CHR ''#'' # map lower_char b)" by blast
  have ab: "map lower_char a = map lower_char b \<longleftrightarrow> s1 = s2"
    using lower_digits [of a b] a b by (simp add: isHexGroup_def)
  have split: "d1 @ CHR ''#'' # x = d2 @ CHR ''#'' # y \<longleftrightarrow> d1 = d2 \<and> x = y" for x y
    using sharp_split [OF assms(3,4)] .
  consider "a = ''00''" "b = ''00''" | "a = ''00''" "b \<noteq> ''00''" | "a \<noteq> ''00''" "b = ''00''"
    | "a \<noteq> ''00''" "b \<noteq> ''00''" by blast
  then show ?thesis
  proof cases
    case 1
    then show ?thesis using a b by simp
  next
    case 2
    then have "s1 \<noteq> s2" using zero_slot [OF b(1)] a b by auto
    then show ?thesis using 2 a b assms(3) by auto
  next
    case 3
    then have "s1 \<noteq> s2" using zero_slot [OF a(1)] a b by auto
    then show ?thesis using 3 a b assms(4) by auto
  next
    case 4
    then show ?thesis using a b ab split by simp
  qed
qed

section \<open>The machine identity\<close>

definition macs :: "tree \<Rightarrow> string \<Rightarrow> string list" where
  "macs t root = (case ReadDir t [root] of None \<Rightarrow> []
     | Some entries \<Rightarrow> List.map_filter (\<lambda>name. hardware_mac t [root, name]) entries)"

lemma machineIDFrom_macs: "machineIDFrom t root = Join ''|'' (sort (macs t root))"
  by (simp add: machineIDFrom_def macs_def split: option.split)

lemma hardware_mac_not_nil: "hardware_mac t dir = Some mac \<Longrightarrow> mac \<noteq> []"
  by (auto simp: hardware_mac_def Let_def split: if_splits option.splits)

lemma macs_not_nil: "[] \<notin> set (macs t root)"
  by (auto simp: macs_def List.map_filter_def dest: hardware_mac_not_nil split: option.splits)

lemma Join_inject:
  assumes "\<forall>w \<in> set vs \<union> set ws. sep \<notin> set w \<and> w \<noteq> []" "Join [sep] vs = Join [sep] ws"
  shows "vs = ws"
proof -
  have nil: "us = [] \<longleftrightarrow> Join [sep] us = []" if "\<forall>w \<in> set us. w \<noteq> []" for us
    using that by (induction "[sep]" us rule: Join.induct) simp_all
  show ?thesis
  proof (cases "vs = []")
    case True
    then show ?thesis using nil [of vs] nil [of ws] assms by auto
  next
    case False
    then have "ws \<noteq> []" using nil [of vs] nil [of ws] assms by auto
    have "vs = Split sep (Join [sep] vs)" by (rule Split_Join [symmetric]) (use False assms(1) in \<open>simp_all add: list_all_iff\<close>)
    also have "\<dots> = ws" unfolding assms(2) by (rule Split_Join) (use \<open>ws \<noteq> []\<close> assms(1) in \<open>simp_all add: list_all_iff\<close>)
    finally show ?thesis .
  qed
qed

text \<open>The machine identity is the set of hardware addresses, with repeats, and nothing else: two network
  trees give the same identity exactly when the addresses of their physical ethernet ports agree, in
  whatever order and under whatever interface names they are listed. (No address holds a bar.)\<close>

theorem machine_id_iff:
  assumes "\<forall>mac \<in> set (macs t1 r1) \<union> set (macs t2 r2). CHR ''|'' \<notin> set mac"
  shows "machineIDFrom t1 r1 = machineIDFrom t2 r2 \<longleftrightarrow> mset (macs t1 r1) = mset (macs t2 r2)"
proof
  assume "machineIDFrom t1 r1 = machineIDFrom t2 r2"
  then have "Join [CHR ''|''] (sort (macs t1 r1)) = Join [CHR ''|''] (sort (macs t2 r2))"
    unfolding machineIDFrom_macs .
  moreover have "\<forall>w \<in> set (sort (macs t1 r1)) \<union> set (sort (macs t2 r2)). CHR ''|'' \<notin> set w \<and> w \<noteq> []"
    unfolding set_sort using assms macs_not_nil [of t1 r1] macs_not_nil [of t2 r2] by blast
  ultimately have "sort (macs t1 r1) = sort (macs t2 r2)" by (rule Join_inject [rotated])
  then show "mset (macs t1 r1) = mset (macs t2 r2)" by (metis mset_sort)
next
  assume "mset (macs t1 r1) = mset (macs t2 r2)"
  then have "sort (macs t1 r1) = sort (macs t2 r2)"
    by (intro properties_for_sort) simp_all
  then show "machineIDFrom t1 r1 = machineIDFrom t2 r2" by (simp add: machineIDFrom_macs)
qed

lemma Trim_nil: "Trim s cutset = [] \<longleftrightarrow> set s \<subseteq> set cutset"
proof (cases "dropWhile (\<lambda>c. c \<in> set cutset) s")
  case Nil
  have "Trim s cutset = []" unfolding Trim_def Nil by simp
  moreover have "set s \<subseteq> set cutset" using Nil [unfolded dropWhile_eq_Nil_conv] by blast
  ultimately show ?thesis by blast
next
  case (Cons c cs)
  then have "c \<notin> set cutset" "c \<in> set s"
    using hd_dropWhile [of "\<lambda>c. c \<in> set cutset" s] set_dropWhileD [of c "\<lambda>c. c \<in> set cutset" s] by auto
  with Cons show ?thesis by (auto simp: Trim_def dropWhile_eq_Nil_conv)
qed

section \<open>Two corner cases\<close>

text \<open>A directory without a bus and device number answers zero for both, so it matches the address a
  channel id with zero bus and device resolves to.\<close>

lemma absent_number_matches_zero:
  assumes "is_dir t [root, name]" "t [root, name, ''busnum''] = None" "t [root, name, ''devnum''] = None"
  shows "at_address t root 0 0 name"
  using assms by (simp add: at_address_def readSysNum_def ReadFile_def)

text \<open>A matching device with a blank port path gives no port and no reason.\<close>

lemma blank_devpath_no_reason:
  assumes "at_address t root bus dev name" "t [root, name, ''devpath''] = Some (File [])"
  shows "usb_port_scan t root bus dev (name # entries) = ([], Fine)"
proof -
  have "TrimSpace [] = []" by code_simp
  then show ?thesis using assms by (simp add: ReadFile_def)
qed

section \<open>Witnesses\<close>

definition sample_claims :: "string \<Rightarrow> string option" where
  "sample_claims = [''1'' \<mapsto> ''R 01'']"

lemma sample_scan:
  "usbPortPathByReader (\<lambda>s. s) sample_tree ''/s'' ''R 00'' None None sample_claims = (''2'', Fine)"
  by code_simp

theorem scan_port_genuine_witness: "\<not> foreign_owner sample_claims ''R 00'' ''2''"
  using scan_port_genuine [OF sample_scan] by simp

theorem port_slots_apart_witness:
  "portIdentity ''R 00 0a'' ''3'' \<noteq> portIdentity ''R 00 0B'' ''3''"
proof -
  have "hotplug_slot ''R 00 0a'' = Some [Some 0, Some 10]"
    "hotplug_slot ''R 00 0B'' = Some [Some 0, Some 11]" by code_simp+
  from port_slots_apart [OF this, of "''3''" "''3''"] show ?thesis by simp
qed

definition sample_net :: "string \<Rightarrow> string \<Rightarrow> tree" where
  "sample_net a b = map_of
     [([''/n''], Dir [''eth0'', ''eth1'']),
      ([''/n'', ''eth0'', ''type''], File ''1''), ([''/n'', ''eth0'', ''device''], Dir []),
      ([''/n'', ''eth0'', ''address''], File a),
      ([''/n'', ''eth1'', ''type''], File ''1''), ([''/n'', ''eth1'', ''device''], Dir []),
      ([''/n'', ''eth1'', ''address''], File b)]"

theorem machine_id_iff_witness:
  "machineIDFrom (sample_net ''02:01'' ''02:00'') ''/n'' = machineIDFrom (sample_net ''02:00'' ''02:01'') ''/n''"
proof -
  have "macs (sample_net ''02:01'' ''02:00'') ''/n'' = [''02:01'', ''02:00'']"
    "macs (sample_net ''02:00'' ''02:01'') ''/n'' = [''02:00'', ''02:01'']" by code_simp+
  with machine_id_iff [of "sample_net ''02:01'' ''02:00''" "''/n''" "sample_net ''02:00'' ''02:01''" "''/n''"]
  show ?thesis by simp
qed

end
