(* ===== verification/Probe.thy ===== *)
theory Probe
  imports Uid Sysfs
begin

text \<open>
  Probing a reader while its card is presented (\<open>readerid.go\<close>, \<open>probeReaderCard\<close>): the driver
  attributes, the port resolution and the UID over one card connection.

  The card operations are a \<open>card_api\<close> (theory \<open>Uid\<close>). \<open>look\<close> reads the sysfs tree as it is at that
  moment (theory \<open>Sysfs\<close>); it may be another one each time. The deferred disconnect of the source is
  \<open>release\<close>, the last step on every path that has a card. The collected failure reasons go to the
  log only and are left out.
\<close>

section \<open>Driver attributes\<close>

definition isPlaceholderSerial :: "string \<Rightarrow> bool" where
  "isPlaceholderSerial serial \<longleftrightarrow> serial \<noteq> [] \<and> Trim serial ''0'' = []"

definition readVendorSerial :: "'w card_api \<Rightarrow> ipcCard \<Rightarrow> 'w \<Rightarrow> string \<times> 'w" where
  "readVendorSerial api c w =
     (case a_getAttrib api c AttrVendorIFDSerialNo w of
        (Inl _, w) \<Rightarrow> ([], w)
      | (Inr attr, w) \<Rightarrow>
          let serial = TrimSpace (Trim (string_of attr) [CHR 0x00]) in
          (if serial = [] then [] else if isPlaceholderSerial serial then [] else serial, w))"

definition readChannelID :: "'w card_api \<Rightarrow> ipcCard \<Rightarrow> 'w \<Rightarrow> (u32 \<times> u32 \<times> reason) \<times> 'w" where
  "readChannelID api c w =
     (case a_getAttrib api c AttrChannelID w of
        (Inl _, w) \<Rightarrow> ((0, 0, NoChannelID), w)
      | (Inr attr, w) \<Rightarrow>
          if length attr \<noteq> 4 then ((0, 0, ChannelMalformed (length attr)), w)
          else let channel = ucast (attr ! 0) OR push_bit 8 (ucast (attr ! 1))
                 OR push_bit 16 (ucast (attr ! 2)) OR push_bit 24 (ucast (attr ! 3)) in
          if drop_bit 16 channel \<noteq> channelIDUSBType then ((0, 0, ChannelNotUSB channel), w)
          else ((drop_bit 8 channel AND 0xFF, channel AND 0xFF, Fine), w))"

section \<open>The probe\<close>

type_synonym 'w look = "'w \<Rightarrow> tree \<times> 'w"

definition snapshot_now :: "'w look \<Rightarrow> string \<Rightarrow> 'w \<Rightarrow> snapshot \<times> 'w" where
  "snapshot_now look root w = (case look w of (t, w) \<Rightarrow> (usbUrbSnapshot t root, w))"

text \<open>The serial, and without one and with the opt-in the port by channel id.\<close>

definition read_unit :: "'w card_api \<Rightarrow> 'w look \<Rightarrow> string \<Rightarrow> string \<Rightarrow> bool \<Rightarrow> ipcCard \<Rightarrow> 'w \<Rightarrow>
    (string \<times> string) \<times> 'w" where
  "read_unit api look reader root useUSBPath c w =
     (case readVendorSerial api c w of (serial, w) \<Rightarrow>
        if serial = [] \<and> useUSBPath then
          (case readChannelID api c w of ((bus, dev, reason), w) \<Rightarrow>
             if reason = Fine then
               (case look w of (t, w) \<Rightarrow>
                  case usbPortPath t root bus dev of (port, _) \<Rightarrow>
                    ((serial, if port \<noteq> [] then portIdentity reader port else []), w))
             else ((serial, []), w))
        else ((serial, []), w))"

fun pinning :: "nat \<Rightarrow> 'w card_api \<Rightarrow> ipcCard option \<Rightarrow> 'w \<Rightarrow> 'w" where
  "pinning 0 api live w = w"
| "pinning (Suc n) api live w =
     (case live of None \<Rightarrow> w | Some c \<Rightarrow> pinning n api live (snd (a_transmit api c uidAPDU 64 w)))"

definition release :: "'w card_api \<Rightarrow> ipcCard option \<Rightarrow> 'w \<Rightarrow> 'w" where
  "release api live w = (case live of None \<Rightarrow> w | Some c \<Rightarrow> snd (a_disconnect api c LeaveCard w))"

definition pin_port :: "'w card_api \<Rightarrow> 'w look \<Rightarrow> (string \<Rightarrow> string) \<Rightarrow> string \<Rightarrow> string \<Rightarrow> snapshot \<Rightarrow>
    (string \<Rightarrow> string option) \<Rightarrow> ipcCard option \<Rightarrow> 'w \<Rightarrow> string \<times> 'w" where
  "pin_port api look up reader root before claims live w =
     (case snapshot_now look root (pinning pinningExchanges api live w) of (after, w) \<Rightarrow>
        case look w of (t, w) \<Rightarrow>
          (fst (usbPortPathByReader up t root reader before after claims), w))"

definition probeReaderCard :: "'w card_api \<Rightarrow> 'w look \<Rightarrow> (string \<Rightarrow> string) \<Rightarrow> string \<Rightarrow> string \<Rightarrow> bool \<Rightarrow>
    (string \<Rightarrow> string option) \<Rightarrow> reader_facts \<Rightarrow> 'w \<Rightarrow> reader_facts \<times> 'w" where
  "probeReaderCard api look up reader root useUSBPath claims remembered w =
     (let identityDone = (f_serial remembered \<noteq> [] \<or> f_port remembered \<noteq> []) in
      case (if useUSBPath \<and> \<not> identityDone then snapshot_now look root w else (None, w)) of (before, w) \<Rightarrow>
      case openCard api reader w of
        (Inl _, w) \<Rightarrow> (zero_facts, w)
      | (Inr c, w) \<Rightarrow>
          case (if identityDone then ((f_serial remembered, f_port remembered), w)
                else read_unit api look reader root useUSBPath c w) of ((serial, port), w) \<Rightarrow>
          case insistUID api c reader w of ((uid, protocol, live), w) \<Rightarrow>
          case (if useUSBPath \<and> \<not> identityDone \<and> serial = [] \<and> port = []
                then pin_port api look up reader root before claims live w
                else (port, w)) of (port, w) \<Rightarrow>
            (\<lparr>f_serial = serial, f_port = port, f_uid = uid, f_protocol = protocol\<rparr>, release api live w))"

section \<open>What a probe does\<close>

definition logged_look :: "'w look \<Rightarrow> ('w \<times> card_op list) look" where
  "logged_look look = (\<lambda>(w, log). case look w of (t, w) \<Rightarrow> (t, (w, log)))"

lemma openCard_log:
  "openCard_from attempt (logged_api api) reader (w, log) = (r, (w', log')) \<Longrightarrow>
   \<exists>ops. log' = log @ ops \<and> reconnect_ops ops r"
proof (induction "uidReadAttempts - attempt" arbitrary: attempt w log rule: less_induct)
  case less
  obtain r1 w1 log1 where c: "connectCard (logged_api api) reader (w, log) = (r1, (w1, log1))" by (metis surj_pair)
  from connectCard_log [OF c] obtain ops where ops: "log1 = log @ ops" "reconnect_ops ops r1" by blast
  note step = less.prems [unfolded openCard_from.simps [of attempt] c, simplified]
  show ?case
  proof (cases "\<exists>e. r1 = Inl e \<and> attempt < uidReadAttempts")
    case False
    then have "r = r1" "log' = log1" using step by (auto split: sum.splits if_splits)
    with ops show ?thesis by blast
  next
    case True
    then obtain e where e: "r1 = Inl e" "attempt < uidReadAttempts" by blast
    then have run: "openCard_from (attempt + 1) (logged_api api) reader
        (a_sleep api uidReadDelay w1, log1 @ [OSleep uidReadDelay]) = (r, (w', log'))"
      using step by (simp add: logged_api_def)
    have lt: "uidReadAttempts - (attempt + 1) < uidReadAttempts - attempt" using e(2) by simp
    from less.hyps [OF lt run] obtain more where "log' = (log1 @ [OSleep uidReadDelay]) @ more" "reconnect_ops more r"
      by blast
    with ops e show ?thesis
      by (intro exI [of _ "ops @ OSleep uidReadDelay # more"]) (auto simp: reconnect_ops_def is_wedged_def)
  qed
qed

text \<open>Steps that neither open nor close a connection.\<close>

definition quiet_ops :: "card_op list \<Rightarrow> bool" where
  "quiet_ops ops \<longleftrightarrow> (\<forall>e \<in> set ops. case e of OTransmit _ _ _ \<Rightarrow> True | OGetAttrib _ _ \<Rightarrow> True | _ \<Rightarrow> False)"

lemma quiet_ops_simps [simp]:
  "quiet_ops []" "quiet_ops (e # ops) \<longleftrightarrow> (case e of OTransmit _ _ _ \<Rightarrow> True | OGetAttrib _ _ \<Rightarrow> True | _ \<Rightarrow> False) \<and> quiet_ops ops"
  "quiet_ops (a @ b) \<longleftrightarrow> quiet_ops a \<and> quiet_ops b"
  by (auto simp: quiet_ops_def)

lemma quiet_held: "quiet_ops ops \<Longrightarrow> held cs ops = cs"
  by (induction ops) (auto split: card_op.splits)

lemma look_log: "logged_look look (w, log) = (t, (w', log')) \<Longrightarrow> log' = log"
  by (auto simp: logged_look_def split: prod.splits)

lemma snapshot_log: "snapshot_now (logged_look look) root (w, log) = (s, (w', log')) \<Longrightarrow> log' = log"
  by (auto simp: snapshot_now_def logged_look_def split: prod.splits)

lemma serial_log:
  "readVendorSerial (logged_api api) c (w, log) = (s, (w', log')) \<Longrightarrow>
   log' = log @ [OGetAttrib c AttrVendorIFDSerialNo]"
  by (auto simp: readVendorSerial_def logged_api_def Let_def split: prod.splits sum.splits)

lemma channel_log:
  "readChannelID (logged_api api) c (w, log) = (s, (w', log')) \<Longrightarrow> log' = log @ [OGetAttrib c AttrChannelID]"
  by (auto simp: readChannelID_def logged_api_def Let_def split: prod.splits sum.splits if_splits)

lemma read_unit_log:
  assumes "read_unit (logged_api api) (logged_look look) reader root useUSBPath c (w, log) = (r, (w', log'))"
  shows "\<exists>ops. log' = log @ ops \<and> quiet_ops ops"
proof -
  obtain s w1 l1 where s: "readVendorSerial (logged_api api) c (w, log) = (s, (w1, l1))" by (metis surj_pair)
  obtain bus dev why w2 l2 where i: "readChannelID (logged_api api) c (w1, l1) = ((bus, dev, why), (w2, l2))"
    by (metis surj_pair)
  obtain t w3 l3 where v: "logged_look look (w2, l2) = (t, (w3, l3))" by (metis surj_pair)
  have "log' = l1 \<or> log' = l2 \<or> log' = l3"
    using assms by (auto simp: read_unit_def s i v split: prod.splits if_splits)
  then show ?thesis using serial_log [OF s] channel_log [OF i] look_log [OF v] by auto
qed

lemma pinning_log:
  "pinning n (logged_api api) live (w, log) = (w', log') \<Longrightarrow> \<exists>ops. log' = log @ ops \<and> quiet_ops ops"
proof (induction n arbitrary: w log)
  case (Suc n)
  show ?case
  proof (cases live)
    case None
    with Suc.prems show ?thesis by auto
  next
    case (Some c)
    obtain r w1 where "a_transmit api c uidAPDU 64 w = (r, w1)" by force
    then have "pinning n (logged_api api) live (w1, log @ [OTransmit c uidAPDU r]) = (w', log')"
      using Suc.prems Some by (simp add: logged_api_def)
    from Suc.IH [OF this] show ?thesis by auto
  qed
qed simp

lemma pin_port_log:
  assumes "pin_port (logged_api api) (logged_look look) up reader root before claims live (w, log) = (p, (w', log'))"
  shows "\<exists>ops. log' = log @ ops \<and> quiet_ops ops"
proof -
  obtain w1 l1 where p: "pinning pinningExchanges (logged_api api) live (w, log) = (w1, l1)" by (metis surj_pair)
  obtain s w2 l2 where s: "snapshot_now (logged_look look) root (w1, l1) = (s, (w2, l2))" by (metis surj_pair)
  obtain t w3 l3 where v: "logged_look look (w2, l2) = (t, (w3, l3))" by (metis surj_pair)
  have "log' = l3" using assms by (simp add: pin_port_def p s v)
  then show ?thesis using pinning_log [OF p] snapshot_log [OF s] look_log [OF v] by auto
qed

definition unit_known :: "reader_facts \<Rightarrow> bool" where
  "unit_known facts \<longleftrightarrow> f_serial facts \<noteq> [] \<or> f_port facts \<noteq> []"

definition closing :: "ipcCard option \<Rightarrow> card_op list" where
  "closing live = (case live of None \<Rightarrow> [] | Some c \<Rightarrow> [ODisconnect c LeaveCard])"

lemma release_log: "release (logged_api api) live (w, log) = (w', log') \<Longrightarrow> log' = log @ closing live"
  by (auto simp: release_def closing_def logged_api_def split: option.splits prod.splits)

lemma insistUID_more:
  assumes "insistUID (logged_api api) c reader (w, log) = ((uid, protocol, live), (w', log'))"
  shows "\<exists>ops. log' = log @ ops \<and> run_ok 3 c ops uid protocol live"
  using insist_log [OF assms [unfolded insistUID_def]] by (simp add: uidReadRounds_def)

text \<open>The shape of a probe with a card: open, attributes, UID, traffic, close.\<close>

definition probe_run :: "reader_facts \<Rightarrow> reader_facts \<Rightarrow> card_op list \<Rightarrow> bool" where
  "probe_run remembered facts log \<longleftrightarrow>
     (\<exists>c opened attributes run traffic live. log = opened @ attributes @ run @ traffic @ closing live
        \<and> reconnect_ops opened (Inr c) \<and> quiet_ops attributes \<and> quiet_ops traffic
        \<and> run_ok 3 c run (f_uid facts) (f_protocol facts) live
        \<and> (unit_known remembered \<longrightarrow> attributes = [] \<and> traffic = []
             \<and> f_serial facts = f_serial remembered \<and> f_port facts = f_port remembered))"

lemma probe_log:
  assumes "probeReaderCard (logged_api api) (logged_look look) up reader root useUSBPath claims remembered (w, [])
    = (facts, (w', log))"
  shows "facts = zero_facts \<and> (\<exists>e. reconnect_ops log (Inl e)) \<or> probe_run remembered facts log"
proof -
  define known where "known = unit_known remembered"
  obtain b w1 l1 where b: "(if useUSBPath \<and> \<not> known then snapshot_now (logged_look look) root (w, [])
      else (None, (w, []))) = (b, (w1, l1))" by (metis surj_pair)
  have l1: "l1 = []" using b by (auto split: if_splits dest: snapshot_log)
  obtain q w2 l2 where o: "openCard (logged_api api) reader (w1, []) = (q, (w2, l2))" by (metis surj_pair)
  from openCard_log [OF o [unfolded openCard_def]] have l2: "reconnect_ops l2 q" by auto
  note run = assms [unfolded probeReaderCard_def Let_def, folded unit_known_def known_def, unfolded b l1 prod.case o]
  show ?thesis
  proof (cases q)
    case (Inl e)
    then show ?thesis using run l2 by auto
  next
    case (Inr c)
    obtain serial port w3 l3 where u: "(if known then ((f_serial remembered, f_port remembered), (w2, l2))
        else read_unit (logged_api api) (logged_look look) reader root useUSBPath c (w2, l2)) = ((serial, port), (w3, l3))"
      by (metis surj_pair)
    then obtain q1 where q1: "l3 = l2 @ q1" "quiet_ops q1"
      "known \<Longrightarrow> q1 = [] \<and> serial = f_serial remembered \<and> port = f_port remembered"
      by (cases known) (auto dest: read_unit_log)
    obtain uid protocol live w4 l4 where i: "insistUID (logged_api api) c reader (w3, l3) = ((uid, protocol, live), (w4, l4))"
      by (metis surj_pair)
    from insistUID_more [OF i] obtain ops where ops: "l4 = l3 @ ops" "run_ok 3 c ops uid protocol live" by blast
    obtain port' w5 l5 where p: "(if useUSBPath \<and> \<not> known \<and> serial = [] \<and> port = []
        then pin_port (logged_api api) (logged_look look) up reader root b claims live (w4, l4)
        else (port, (w4, l4))) = (port', (w5, l5))" by (metis surj_pair)
    then obtain q2 where q2: "l5 = l4 @ q2" "quiet_ops q2" "known \<Longrightarrow> q2 = [] \<and> port' = port"
      by (cases "useUSBPath \<and> \<not> known \<and> serial = [] \<and> port = []") (auto dest: pin_port_log)
    have fin: "facts = \<lparr>f_serial = serial, f_port = port', f_uid = uid, f_protocol = protocol\<rparr>"
      "release (logged_api api) live (w5, l5) = (w', log)"
      using run by (simp_all add: Inr u i p)
    have "probe_run remembered facts log"
      unfolding probe_run_def
      by (intro exI [of _ c] exI [of _ l2] exI [of _ q1] exI [of _ ops] exI [of _ q2] exI [of _ live])
        (use release_log [OF fin(2)] q1 q2 ops l2 Inr fin(1) in \<open>auto simp: known_def\<close>)
    then show ?thesis by blast
  qed
qed

section \<open>Properties\<close>

text \<open>C8. A probe never leaks a card connection: whatever the card, the driver and the daemon answer,
  every connection it opened is closed when it returns, on the failing paths too.\<close>

theorem probe_closes_all:
  "held [] (snd (snd (probeReaderCard (logged_api api) (logged_look look) up reader root useUSBPath claims
      remembered (w, [])))) = []"
proof -
  obtain facts w' log where run: "probeReaderCard (logged_api api) (logged_look look) up reader root useUSBPath
      claims remembered (w, []) = (facts, (w', log))" by (metis surj_pair)
  from probe_log [OF run] show ?thesis
  proof
    assume "facts = zero_facts \<and> (\<exists>e. reconnect_ops log (Inl e))"
    then show ?thesis by (auto simp: run reconnect_ops_def)
  next
    assume "probe_run remembered facts log"
    then show ?thesis
      by (auto simp: run probe_run_def reconnect_ops_def run_ok_def quiet_held closing_def split: option.splits)
  qed
qed

text \<open>A UID in the facts of a probe was answered by the card in that very probe, with the status 90 00,
  and is not a random one.\<close>

theorem probe_uid_genuine:
  assumes "probeReaderCard (logged_api api) (logged_look look) up reader root useUSBPath claims remembered (w, [])
    = (facts, (w', log))" "f_uid facts \<noteq> []"
  shows "\<exists>c. OTransmit c uidAPDU (Inr (f_uid facts @ [0x90, 0x00])) \<in> set log \<and> \<not> isRandomUID (f_uid facts)
    \<and> f_protocol facts = ca_protocol c"
proof -
  from probe_log [OF assms(1)] assms(2) have "probe_run remembered facts log" by auto
  then obtain c run pre resp rest before where
    "log = before @ run @ rest" "run = pre @ [OTransmit c uidAPDU (Inr resp)]"
    "classify (Inr resp) = (f_uid facts, True, False)" "f_protocol facts = ca_protocol c"
    using assms(2) unfolding probe_run_def run_ok_def by (metis append.assoc)
  with classify_final [of resp "f_uid facts"] assms(2) show ?thesis by auto
qed

lemma uidExchange_frame [simp]: "uidExchange (api\<lparr>a_getAttrib := g\<rparr>) c w = uidExchange api c w"
  by (simp add: uidExchange_def)

lemma transmitUID_frame [simp]: "transmitUID (api\<lparr>a_getAttrib := g\<rparr>) c w = transmitUID api c w"
proof -
  have "transmitUID_from n (api\<lparr>a_getAttrib := g\<rparr>) c w = transmitUID_from n api c w" for n
    by (induction n api c w rule: transmitUID_from.induct)
      (subst transmitUID_from.simps, subst transmitUID_from.simps, simp split: prod.split)
  then show ?thesis by (simp add: transmitUID_def)
qed

lemma connectCard_frame [simp]: "connectCard (api\<lparr>a_getAttrib := g\<rparr>) reader w = connectCard api reader w"
  by (simp add: connectCard_def split: prod.split)

lemma openCard_frame [simp]: "openCard (api\<lparr>a_getAttrib := g\<rparr>) reader w = openCard api reader w"
proof -
  have "openCard_from n (api\<lparr>a_getAttrib := g\<rparr>) reader w = openCard_from n api reader w" for n
    by (induction n api reader w rule: openCard_from.induct)
      (subst openCard_from.simps, subst openCard_from.simps, simp split: prod.split sum.split)
  then show ?thesis by (simp add: openCard_def)
qed

lemma reopen_frame [simp]:
  "reopenCardAfterReset (api\<lparr>a_getAttrib := g\<rparr>) reader w = reopenCardAfterReset api reader w"
proof -
  have "reopen_from n (api\<lparr>a_getAttrib := g\<rparr>) reader v = reopen_from n api reader v" for n v
    by (induction n api reader v rule: reopen_from.induct)
      (subst reopen_from.simps, subst reopen_from.simps, simp split: prod.split sum.split)
  then show ?thesis by (simp add: reopenCardAfterReset_def)
qed

lemma insistUID_frame [simp]: "insistUID (api\<lparr>a_getAttrib := g\<rparr>) c reader w = insistUID api c reader w"
proof -
  have "insist_from n (api\<lparr>a_getAttrib := g\<rparr>) c reader w = insist_from n api c reader w" for n
    by (induction n api c reader w rule: insist_from.induct)
      (subst insist_from.simps, subst insist_from.simps, simp split: prod.split sum.split)
  then show ?thesis by (simp add: insistUID_def)
qed

text \<open>A reader whose unit is known is not probed for it again: the result does not depend on the
  driver attributes, on sysfs, on the opt-in or on the claims, and carries the remembered serial and
  port (or nothing at all when the card cannot be opened).\<close>

theorem known_unit_not_probed:
  assumes "f_serial remembered \<noteq> [] \<or> f_port remembered \<noteq> []"
  shows "probeReaderCard (api\<lparr>a_getAttrib := g\<rparr>) look1 up1 reader root1 usb1 claims1 remembered w
      = probeReaderCard api look2 up2 reader root2 usb2 claims2 remembered w
    \<and> (fst (probeReaderCard api look2 up2 reader root2 usb2 claims2 remembered w) = zero_facts
       \<or> f_serial (fst (probeReaderCard api look2 up2 reader root2 usb2 claims2 remembered w)) = f_serial remembered
         \<and> f_port (fst (probeReaderCard api look2 up2 reader root2 usb2 claims2 remembered w)) = f_port remembered)"
proof -
  have known: "(f_serial remembered \<noteq> [] \<or> f_port remembered \<noteq> []) = True" using assms by simp
  have release: "release (api\<lparr>a_getAttrib := g\<rparr>) live v = release api live v" for live v
    by (simp add: release_def split: option.split)
  show ?thesis
    unfolding probeReaderCard_def Let_def known by (simp add: release split: prod.split sum.split)
qed

text \<open>Without the opt-in sysfs is never consulted for the unit: the port is the remembered one, and
  empty for an unknown unit.\<close>

theorem port_needs_opt_in:
  "f_port (fst (probeReaderCard api look up reader root False claims remembered w)) \<in> {[], f_port remembered}"
  by (simp add: probeReaderCard_def read_unit_def Let_def split: prod.split sum.split)

text \<open>The serial that is read is never blank padded and never a placeholder of zeros.\<close>

theorem serial_not_placeholder:
  assumes "readVendorSerial api c w = (serial, w')" "serial \<noteq> []"
  shows "\<exists>ch \<in> set serial. ch \<noteq> CHR ''0''"
  using assms
  by (auto simp: readVendorSerial_def isPlaceholderSerial_def Trim_nil Let_def split: prod.splits sum.splits if_splits)

definition channel_word :: "byte \<Rightarrow> byte \<Rightarrow> byte \<Rightarrow> byte \<Rightarrow> u32" where
  "channel_word a b x y = ucast a OR push_bit 8 (ucast b) OR push_bit 16 (ucast x) OR push_bit 24 (ucast y)"

lemma channel_word_fields:
  "drop_bit 8 (channel_word a b x y) AND 0xFF = ucast b" "channel_word a b x y AND 0xFF = ucast a"
  "drop_bit 16 (channel_word a b x y) = ucast x OR push_bit 8 (ucast y)"
  "ucast (drop_bit 16 (channel_word a b x y)) = x" "ucast (drop_bit 24 (channel_word a b x y)) = y"
proof -
  have ff: "(0xFF :: u32) = mask 8" by (simp add: mask_eq_decr_exp)
  show "drop_bit 8 (channel_word a b x y) AND 0xFF = ucast b" "channel_word a b x y AND 0xFF = ucast a"
    unfolding ff channel_word_def by (rule bit_word_eqI; auto simp: bit_simps dest: bit_imp_le_length)+
  show "drop_bit 16 (channel_word a b x y) = ucast x OR push_bit 8 (ucast y)"
    "ucast (drop_bit 16 (channel_word a b x y)) = x" "ucast (drop_bit 24 (channel_word a b x y)) = y"
    unfolding channel_word_def by (rule bit_word_eqI; auto simp: bit_simps dest: bit_imp_le_length)+
qed

lemma channel_word_usb: "drop_bit 16 (channel_word a b x y) = channelIDUSBType \<longleftrightarrow> x = 0x20 \<and> y = 0"
proof
  assume h: "drop_bit 16 (channel_word a b x y) = channelIDUSBType"
  have "drop_bit 24 (channel_word a b x y) = drop_bit 8 (drop_bit 16 (channel_word a b x y))" by simp
  then have "y = ucast (drop_bit 8 channelIDUSBType)" using channel_word_fields(5) [of a b x y] h by simp
  moreover have "x = ucast channelIDUSBType" using channel_word_fields(4) [of a b x y] h by simp
  ultimately show "x = 0x20 \<and> y = 0" by (simp add: channelIDUSBType_def)
qed (simp add: channel_word_fields channelIDUSBType_def)

text \<open>The channel id is understood exactly when the driver answers the four bytes of a USB channel, and
  then bus and device are its two low bytes.\<close>

theorem channel_id_iff:
  "readChannelID api c w = ((bus, dev, Fine), w') \<longleftrightarrow>
     (\<exists>d b. a_getAttrib api c AttrChannelID w = (Inr [d, b, 0x20, 0x00], w') \<and> bus = ucast b \<and> dev = ucast d)"
proof -
  obtain r w1 where r: "a_getAttrib api c AttrChannelID w = (r, w1)" by force
  show ?thesis
  proof (cases "\<exists>d b x y. r = Inr [d, b, x, y]")
    case True
    then obtain d b x y where a: "r = Inr [d, b, x, y]" by blast
    show ?thesis
      by (auto simp: readChannelID_def r a Let_def channel_word_def [symmetric] channel_word_usb channel_word_fields(1,2))
  next
    case False
    then have "\<forall>attr. r = Inr attr \<longrightarrow> length attr \<noteq> 4"
      by (auto simp: length_Suc_conv eval_nat_numeral)
    with False show ?thesis by (auto simp: readChannelID_def r split: sum.splits)
  qed
qed

section \<open>Witnesses\<close>

definition known_unit :: reader_facts where
  "known_unit = \<lparr>f_serial = [], f_port = ''1-2'', f_uid = [], f_protocol = 0\<rparr>"

definition sample_probe_log :: "card_op list" where
  "sample_probe_log = [OConnect ''R'' ProtocolAny None, OConnect ''R'' ProtocolRaw (Some sample_card),
     OTransmit sample_card uidAPDU (Inr [0x04, 0xA1, 0x90, 0x00]), ODisconnect sample_card LeaveCard]"

lemma sample_open:
  "openCard (logged_api sample_api) ''R'' (1, []) = (Inr sample_card, (1,
     [OConnect ''R'' ProtocolAny None, OConnect ''R'' ProtocolRaw (Some sample_card)]))"
proof -
  have "ProtocolRaw \<noteq> ProtocolAny" by (simp add: ProtocolRaw_def ProtocolAny_def ProtocolT0_def ProtocolT1_def)
  then show ?thesis
    by (simp add: openCard_def openCard_from.simps [of "Suc 0"] connectCard_def logged_api_def sample_api_def)
qed

lemma sample_insist:
  "insistUID (logged_api sample_api) sample_card ''R'' (1, log) = (([0x04, 0xA1], 2, Some sample_card),
     (1, log @ [OTransmit sample_card uidAPDU (Inr [0x04, 0xA1, 0x90, 0x00])]))"
proof -
  have "insistUID (logged_api sample_api) sample_card ''R'' (1, log) =
    ((if isRandomUID [0x04, 0xA1] then [] else [0x04, 0xA1], ca_protocol sample_card, Some sample_card),
     (1, log @ [OTransmit sample_card uidAPDU (Inr [0x04, 0xA1, 0x90, 0x00])]))"
    by (simp add: insistUID_def insist_from.simps [of "Suc 0"] transmitUID_def transmitUID_from.simps [of "Suc 0"]
        uidExchange_def classify_def isRandomUID_def logged_api_def sample_api_def)
  then show ?thesis by (simp add: isRandomUID_def sample_card_def)
qed

lemma sample_probe:
  "probeReaderCard (logged_api sample_api) (logged_look (\<lambda>w. (Map.empty, w))) (\<lambda>s. s) ''R'' ''/s'' True Map.empty
     known_unit (1, []) = (known_unit\<lparr>f_uid := [0x04, 0xA1], f_protocol := 2\<rparr>, (2, sample_probe_log))"
proof -
  have "release (logged_api sample_api) (Some sample_card) (1, log) = (2, log @ [ODisconnect sample_card LeaveCard])" for log
    by (simp add: release_def logged_api_def sample_api_def)
  then show ?thesis
    by (simp add: probeReaderCard_def known_unit_def sample_open sample_insist sample_probe_log_def
        del: One_nat_def)
qed

theorem probe_uid_genuine_witness:
  "\<exists>c. OTransmit c uidAPDU (Inr ([0x04, 0xA1] @ [0x90, 0x00])) \<in> set sample_probe_log"
  using probe_uid_genuine [OF sample_probe] by (auto simp: known_unit_def)

theorem known_unit_not_probed_witness:
  "probeReaderCard (sample_api\<lparr>a_getAttrib := (\<lambda>c a w. (Inl ErrTimeout, w))\<rparr>) (\<lambda>w. (sample_tree, w)) (\<lambda>s. s)
     ''R'' ''/s'' True Map.empty known_unit 1
   = probeReaderCard sample_api (\<lambda>w. (Map.empty, w)) (\<lambda>s. s) ''R'' ''/t'' False Map.empty known_unit 1"
  by (rule conjunct1 [OF known_unit_not_probed]) (simp add: known_unit_def)

theorem serial_not_placeholder_witness:
  "\<exists>ch \<in> set ''S1''. ch \<noteq> CHR ''0''"
proof (rule serial_not_placeholder)
  define attr where "attr = bytes_of ''S1''"
  have "string_of attr = ''S1''" unfolding attr_def by (rule string_of_bytes_of)
  moreover have "TrimSpace (Trim ''S1'' [CHR 0x00]) = ''S1''"
    using TrimSpace_plain [of "''S1''"] by (simp add: Trim_def plain_char_def)
  ultimately show "readVendorSerial (sample_api\<lparr>a_getAttrib := (\<lambda>c a w. (Inr attr, w))\<rparr>) sample_card 0 = (''S1'', 0)"
    by (simp add: readVendorSerial_def isPlaceholderSerial_def Trim_nil)
qed simp

end
