(* ===== verification/Watch.thy ===== *)
theory Watch
  imports Probe Events CardType
begin

text \<open>
  The watch loop and the reader inventory (\<open>pcscid.go\<close> from \<open>Watch\<close> on, \<open>readers.go\<close>).

  \<open>watch_api\<close> is what the loops use of one client, of the context and of the event channel:
  \<open>wa_emit\<close> and \<open>wa_pause\<close> answer whether the event went out and whether the full pause elapsed,
  \<open>wa_done\<close> is \<open>ctx.Err() != nil\<close>. Go visits the keys of a map in an order of its own:
  \<open>wa_order\<close> proposes one, and \<open>range_keys\<close> follows it when it is a permutation of the keys, so every order
  is covered. The state
  of a loop is \<open>reader_tracking\<close>. One pass over a snapshot is \<open>poll_snapshot\<close>, one turn of the loop
  \<open>poll_turn\<close>; the loops themselves need not end and are partial functions.
\<close>

section \<open>Options\<close>

record Options =
  opt_SocketPath :: string
  opt_SysfsUSBRoot :: string
  opt_USBPathID :: bool
  opt_MACID :: bool
  opt_MachineID :: string

record watchEnv =
  env_socketPath :: string
  env_sysfsRoot :: string
  env_useUSBPath :: bool
  env_machine :: string

definition watchOptions :: "tree \<Rightarrow> Options option \<Rightarrow> watchEnv" where
  "watchOptions t opts =
     (case opts of
        None \<Rightarrow> \<lparr>env_socketPath = [], env_sysfsRoot = defaultSysfsUSB, env_useUSBPath = False, env_machine = []\<rparr>
      | Some o' \<Rightarrow>
          \<lparr>env_socketPath = opt_SocketPath o',
           env_sysfsRoot = (if opt_SysfsUSBRoot o' \<noteq> [] then opt_SysfsUSBRoot o' else defaultSysfsUSB),
           env_useUSBPath = opt_USBPathID o',
           env_machine = (if opt_MACID o'
                          then (if opt_MachineID o' = [] then MachineID t else opt_MachineID o') else [])\<rparr>)"

definition reconnectDelay :: int where "reconnectDelay = 500 * 10 ^ 6"
definition waitTick :: int where "waitTick = 250 * 10 ^ 6"

section \<open>State\<close>

record reader_tracking =
  tr_present :: "string \<Rightarrow> bool option"
  tr_counters :: "string \<Rightarrow> u32 option"
  tr_units :: unit_registry

definition newTracking :: reader_tracking where
  "newTracking = \<lparr>tr_present = Map.empty, tr_counters = Map.empty, tr_units = newUnitRegistry\<rparr>"

record 'w watch_api =
  wa_cards :: "'w card_api"
  wa_look :: "'w look"
  wa_upper :: "string \<Rightarrow> string"
  wa_states :: "'w \<Rightarrow> (perror + reader_state list) \<times> 'w"
  wa_wait :: "int \<Rightarrow> 'w \<Rightarrow> perror option \<times> 'w"
  wa_emit :: "Event \<Rightarrow> 'w \<Rightarrow> bool \<times> 'w"
  wa_pause :: "int \<Rightarrow> 'w \<Rightarrow> bool \<times> 'w"
  wa_done :: "'w \<Rightarrow> bool"
  wa_order :: "'w \<Rightarrow> string list \<Rightarrow> string list"

section \<open>One reader state\<close>

definition identify :: "reader_state \<Rightarrow> reader_facts \<Rightarrow> Card" where
  "identify st facts =
     (let cardType = DetectType (rs_atr st); uid = f_uid facts in
      if 0 < length uid
      then \<lparr>card_ID = Btag cardType uid, card_Type = cardType, card_UID = uid, card_ATR = rs_atr st,
            card_Reader = rs_reader st, card_Source = ''uid''\<rparr>
      else \<lparr>card_ID = [], card_Type = cardType, card_UID = uid, card_ATR = rs_atr st,
            card_Reader = rs_reader st, card_Source = ''none''\<rparr>)"

definition state_present :: "reader_state \<Rightarrow> bool" where
  "state_present st \<longleftrightarrow> rs_state st AND ReaderPresent \<noteq> 0"

definition was_present :: "reader_tracking \<Rightarrow> string \<Rightarrow> bool" where
  "was_present tr reader = (case tr_present tr reader of None \<Rightarrow> False | Some b \<Rightarrow> b)"

definition counter_moved :: "reader_tracking \<Rightarrow> reader_state \<Rightarrow> bool" where
  "counter_moved tr st =
     (case tr_counters tr (rs_reader st) of None \<Rightarrow> False | Some prev \<Rightarrow> prev \<noteq> rs_eventCounter st)"

definition insert_event :: "string \<Rightarrow> reader_state \<Rightarrow> reader_facts \<Rightarrow> Event" where
  "insert_event machine st facts =
     \<lparr>ev_Kind = KindInsert, ev_Card = Some (identify st facts), ev_Reader = rs_reader st,
      ev_ReaderTag = ReaderTagWithMachine (rs_reader st) (f_serial facts) (f_port facts) machine,
      ev_ReaderSerial = f_serial facts, ev_ReaderPort = f_port facts\<rparr>"

definition remove_event :: "string \<Rightarrow> Event" where
  "remove_event reader =
     \<lparr>ev_Kind = KindRemove, ev_Card = None, ev_Reader = reader, ev_ReaderTag = [], ev_ReaderSerial = [],
      ev_ReaderPort = []\<rparr>"

text \<open>The probe of an inserted card, the adopted facts, and the event when the card has a UID.\<close>

definition poll_insert :: "'w watch_api \<Rightarrow> watchEnv \<Rightarrow> reader_state \<Rightarrow> reader_tracking \<Rightarrow> 'w \<Rightarrow>
    bool \<times> reader_tracking \<times> 'w" where
  "poll_insert api env st tr w =
     (case probeReaderCard (wa_cards api) (wa_look api) (wa_upper api) (rs_reader st) (env_sysfsRoot env)
          (env_useUSBPath env) (reg_byPort (tr_units tr)) (cached (tr_units tr) (rs_reader st)) w of (facts, w) \<Rightarrow>
      case adopt (tr_units tr) (rs_reader st) facts of (facts, units) \<Rightarrow>
        let tr = tr\<lparr>tr_units := units\<rparr> in
        if card_Source (identify st facts) \<noteq> ''uid'' then (True, tr, w)
        else (case wa_emit api (insert_event (env_machine env) st facts) w of (sent, w) \<Rightarrow> (sent, tr, w)))"

definition note_state :: "reader_state \<Rightarrow> reader_tracking \<Rightarrow> reader_tracking" where
  "note_state st tr = tr\<lparr>
     tr_present := (tr_present tr)(rs_reader st \<mapsto> state_present st),
     tr_counters := (tr_counters tr)(rs_reader st :=
       (if state_present st then Some (rs_eventCounter st) else None))\<rparr>"

definition poll_state :: "'w watch_api \<Rightarrow> watchEnv \<Rightarrow> reader_state \<Rightarrow> reader_tracking \<Rightarrow> 'w \<Rightarrow>
    bool \<times> reader_tracking \<times> 'w" where
  "poll_state api env st tr w =
     (case (if state_present st then
              (if \<not> was_present tr (rs_reader st) \<or> counter_moved tr st then poll_insert api env st tr w
               else (True, tr, w))
            else if was_present tr (rs_reader st) then
              (case wa_emit api (remove_event (rs_reader st)) w of (sent, w) \<Rightarrow> (sent, tr, w))
            else (True, tr, w)) of (ok, tr, w) \<Rightarrow>
        if \<not> ok then (False, tr, w) else (True, note_state st tr, w))"

section \<open>One snapshot\<close>

definition range_keys :: "'w watch_api \<Rightarrow> (string \<Rightarrow> bool option) \<Rightarrow> 'w \<Rightarrow> string list" where
  "range_keys api m w =
     (let keys = sorted_list_of_set (dom m); order = wa_order api w keys in
      if mset order = mset keys then order else keys)"

fun poll_states :: "'w watch_api \<Rightarrow> watchEnv \<Rightarrow> reader_state list \<Rightarrow> reader_tracking \<Rightarrow> 'w \<Rightarrow>
    bool \<times> reader_tracking \<times> 'w" where
  "poll_states api env [] tr w = (True, tr, w)"
| "poll_states api env (st # sts) tr w =
     (case poll_state api env st tr w of (ok, tr, w) \<Rightarrow>
        if \<not> ok then (False, tr, w) else poll_states api env sts tr w)"

definition drop_reader :: "string \<Rightarrow> reader_tracking \<Rightarrow> reader_tracking" where
  "drop_reader reader tr = tr\<lparr>tr_present := (tr_present tr)(reader := None),
     tr_counters := (tr_counters tr)(reader := None), tr_units := forget (tr_units tr) reader\<rparr>"

fun poll_gone :: "'w watch_api \<Rightarrow> (string \<Rightarrow> bool) \<Rightarrow> string list \<Rightarrow> reader_tracking \<Rightarrow> 'w \<Rightarrow>
    bool \<times> reader_tracking \<times> 'w" where
  "poll_gone api seen [] tr w = (True, tr, w)"
| "poll_gone api seen (reader # readers) tr w =
     (if seen reader then poll_gone api seen readers tr w
      else if was_present tr reader then
        (case wa_emit api (remove_event reader) w of (sent, w) \<Rightarrow>
           if \<not> sent then (False, drop_reader reader tr, w)
           else poll_gone api seen readers (drop_reader reader tr) w)
      else poll_gone api seen readers (drop_reader reader tr) w)"

definition poll_snapshot :: "'w watch_api \<Rightarrow> watchEnv \<Rightarrow> reader_state list \<Rightarrow> reader_tracking \<Rightarrow> 'w \<Rightarrow>
    bool \<times> reader_tracking \<times> 'w" where
  "poll_snapshot api env sts tr w =
     (case poll_states api env sts tr w of (ok, tr, w) \<Rightarrow>
        if \<not> ok then (False, tr, w)
        else poll_gone api (\<lambda>reader. reader \<in> set (map rs_reader sts)) (range_keys api (tr_present tr) w) tr w)"

section \<open>The loops\<close>

datatype turn = Again | Return "perror option"

definition poll_turn :: "'w watch_api \<Rightarrow> watchEnv \<Rightarrow> reader_tracking \<Rightarrow> 'w \<Rightarrow> turn \<times> reader_tracking \<times> 'w" where
  "poll_turn api env tr w =
     (case wa_states api w of
        (Inl err, w) \<Rightarrow> (Return (if wa_done api w then None else Some err), tr, w)
      | (Inr sts, w) \<Rightarrow>
          (case poll_snapshot api env sts tr w of (ok, tr, w) \<Rightarrow>
             if \<not> ok then (Return None, tr, w)
             else if length sts = 0 then
               (case wa_pause api reconnectDelay w of (full, w) \<Rightarrow> (if full then Again else Return None, tr, w))
             else
               (case wa_wait api waitTick w of
                  (None, w) \<Rightarrow> (Again, tr, w)
                | (Some err, w) \<Rightarrow>
                    if wa_done api w then (Return None, tr, w)
                    else if err = ErrTimeout then (Again, tr, w)
                    else (Return (Some err), tr, w))))"

partial_function (option) poll_turns :: "'w watch_api \<Rightarrow> watchEnv \<Rightarrow> reader_tracking \<Rightarrow> 'w \<Rightarrow>
    (perror option \<times> reader_tracking \<times> 'w) option" where
  "poll_turns api env tr w =
     (case poll_turn api env tr w of
        (Again, tr, w) \<Rightarrow> poll_turns api env tr w
      | (Return err, tr, w) \<Rightarrow> Some (err, tr, w))"

definition fresh_session :: "reader_tracking \<Rightarrow> reader_tracking" where
  "fresh_session tr = tr\<lparr>tr_counters := Map.empty, tr_units := newUnitRegistry\<rparr>"

definition pollLoop :: "'w watch_api \<Rightarrow> watchEnv \<Rightarrow> reader_tracking \<Rightarrow> 'w \<Rightarrow>
    (perror option \<times> reader_tracking \<times> 'w) option" where
  "pollLoop api env tr w = poll_turns api env (fresh_session tr) w"

text \<open>The clients of the outer loop: dialling one, its operations, closing it. \<open>wh_arm\<close> is
  \<open>context.AfterFunc(ctx, func() { cl.Close() })\<close>, \<open>wh_disarm\<close> the call of the stop function it returned;
  what an armed client does once the context is cancelled is the host's (theory \<open>Cancel\<close>).\<close>

record 'w watch_host =
  wh_dial :: "string \<Rightarrow> 'w \<Rightarrow> (perror + ipcClient) \<times> 'w"
  wh_close :: "ipcClient \<Rightarrow> 'w \<Rightarrow> 'w"
  wh_client :: "ipcClient \<Rightarrow> 'w watch_api"
  wh_done :: "'w \<Rightarrow> bool"
  wh_pause :: "int \<Rightarrow> 'w \<Rightarrow> bool \<times> 'w"
  wh_arm :: "ipcClient \<Rightarrow> 'w \<Rightarrow> 'w"
  wh_disarm :: "ipcClient \<Rightarrow> 'w \<Rightarrow> 'w"

partial_function (option) redial :: "'w watch_host \<Rightarrow> watchEnv \<Rightarrow> 'w \<Rightarrow> (ipcClient option \<times> 'w) option" where
  "redial host env w =
     (case wh_pause host reconnectDelay w of (full, w) \<Rightarrow>
        if \<not> full then Some (None, w)
        else (case wh_dial host (env_socketPath env) w of
                (Inl _, w) \<Rightarrow> redial host env w
              | (Inr cl, w) \<Rightarrow> Some (Some cl, w)))"

partial_function (option) watch_from :: "'w watch_host \<Rightarrow> watchEnv \<Rightarrow> ipcClient \<Rightarrow> reader_tracking \<Rightarrow> 'w \<Rightarrow>
    'w option" where
  "watch_from host env cl tr w =
     (case pollLoop (wh_client host cl) env tr (wh_arm host cl w) of
        None \<Rightarrow> None
      | Some (_, tr, w) \<Rightarrow>
          let w = wh_close host cl (wh_disarm host cl w) in
          if wh_done host w then Some w
          else (case redial host env w of
                  None \<Rightarrow> None
                | Some (None, w) \<Rightarrow> Some w
                | Some (Some cl, w) \<Rightarrow> watch_from host env cl tr w))"

definition watchLoop :: "'w watch_host \<Rightarrow> watchEnv \<Rightarrow> ipcClient \<Rightarrow> 'w \<Rightarrow> 'w option" where
  "watchLoop host env cl w = watch_from host env cl newTracking w"


section \<open>The reader inventory\<close>

record ReaderInfo =
  ri_Reader :: string
  ri_ModelTag :: string
  ri_Serial :: string
  ri_Port :: string
  ri_Tier :: string
  ri_Tag :: string
  ri_CardPresent :: bool
  ri_Card :: "Card option"

definition reader_info :: "string \<Rightarrow> reader_state \<Rightarrow> string \<Rightarrow> string \<Rightarrow> Card option \<Rightarrow> ReaderInfo" where
  "reader_info machine st serial port crd =
     \<lparr>ri_Reader = rs_reader st, ri_ModelTag = ReaderTag (rs_reader st), ri_Serial = serial, ri_Port = port,
      ri_Tier = unitTier serial port, ri_Tag = ReaderTagWithMachine (rs_reader st) serial port machine,
      ri_CardPresent = state_present st, ri_Card = crd\<rparr>"

definition identify_reader :: "'w watch_api \<Rightarrow> watchEnv \<Rightarrow> reader_state \<Rightarrow> unit_registry \<Rightarrow> 'w \<Rightarrow>
    ReaderInfo \<times> unit_registry \<times> 'w" where
  "identify_reader api env st reg w =
     (if state_present st then
        (case probeReaderCard (wa_cards api) (wa_look api) (wa_upper api) (rs_reader st) (env_sysfsRoot env)
            (env_useUSBPath env) (reg_byPort reg) (cached reg (rs_reader st)) w of (facts, w) \<Rightarrow>
         case adopt reg (rs_reader st) facts of (facts, reg) \<Rightarrow>
           (reader_info (env_machine env) st (f_serial facts) (f_port facts) (Some (identify st facts)), reg, w))
      else if env_useUSBPath env then
        (case wa_look api w of (t, w) \<Rightarrow>
           let port = fst (usbPortPathByReader (wa_upper api) t (env_sysfsRoot env) (rs_reader st) None None
             (reg_byPort reg)) in
           if port \<noteq> [] then
             (case adopt reg (rs_reader st) (zero_facts\<lparr>f_port := port\<rparr>) of (facts, reg) \<Rightarrow>
                (reader_info (env_machine env) st [] (f_port facts) None, reg, w))
           else (reader_info (env_machine env) st [] [] None, reg, w))
      else (reader_info (env_machine env) st [] [] None, reg, w))"

fun identify_all :: "'w watch_api \<Rightarrow> watchEnv \<Rightarrow> reader_state list \<Rightarrow> unit_registry \<Rightarrow> 'w \<Rightarrow> ReaderInfo list \<times> 'w" where
  "identify_all api env [] reg w = ([], w)"
| "identify_all api env (st # sts) reg w =
     (case identify_reader api env st reg w of (info, reg, w) \<Rightarrow>
        case identify_all api env sts reg w of (infos, w) \<Rightarrow> (info # infos, w))"

definition IdentifyReaders :: "'w watch_host \<Rightarrow> watchEnv \<Rightarrow> 'w \<Rightarrow> (perror + ReaderInfo list) \<times> 'w" where
  "IdentifyReaders host env w =
     (case wh_dial host (env_socketPath env) w of
        (Inl err, w) \<Rightarrow> (Inl err, w)
      | (Inr cl, w) \<Rightarrow>
          (case wa_states (wh_client host cl) w of
             (Inl err, w) \<Rightarrow> (Inl err, wh_close host cl w)
           | (Inr sts, w) \<Rightarrow>
               (case identify_all (wh_client host cl) env sts newUnitRegistry w of
                  (infos, w) \<Rightarrow> (Inr infos, wh_close host cl w))))"

section \<open>What the card operations leave alone\<close>

text \<open>The contract of a probe towards the rest of the world: what no card operation changes, no probe
  changes.\<close>

locale card_frame =
  fixes api :: "'w card_api" and f :: "'w \<Rightarrow> 'b"
  assumes connect_keeps: "f (snd (a_connect api reader p w)) = f w"
    and transmit_keeps: "f (snd (a_transmit api c apdu m w)) = f w"
    and getAttrib_keeps: "f (snd (a_getAttrib api c a w)) = f w"
    and disconnect_keeps: "f (snd (a_disconnect api c d w)) = f w"
    and sleep_keeps: "f (a_sleep api t w) = f w"
begin

lemma op_keeps:
  "a_connect api reader p w = (r1, w') \<Longrightarrow> f w' = f w"
  "a_transmit api c apdu m w = (r2, w') \<Longrightarrow> f w' = f w"
  "a_getAttrib api c a w = (r2, w') \<Longrightarrow> f w' = f w"
  by (metis connect_keeps snd_conv) (metis transmit_keeps snd_conv, metis getAttrib_keeps snd_conv)

lemma connectCard_keeps: "connectCard api reader w = (r, w') \<Longrightarrow> f w' = f w"
proof -
  assume run: "connectCard api reader w = (r, w')"
  obtain q w1 where q: "a_connect api reader ProtocolAny w = (q, w1)" by force
  obtain q' w2 where q': "a_connect api reader ProtocolRaw w1 = (q', w2)" by force
  from run op_keeps(1) [OF q] op_keeps(1) [OF q'] show ?thesis
    by (auto simp: connectCard_def q q' split: if_splits)
qed

lemma openCard_keeps: "openCard_from n api reader w = (r, w') \<Longrightarrow> f w' = f w"
proof (induction "uidReadAttempts - n" arbitrary: n w rule: less_induct)
  case less
  obtain q w1 where q: "connectCard api reader w = (q, w1)" by force
  have next_try: "f w' = f w1" if "n < uidReadAttempts" "openCard_from (n + 1) api reader (a_sleep api d w1) = (r, w')" for d
    using less.hyps [OF _ that(2)] that(1) by (simp add: sleep_keeps)
  from connectCard_keeps [OF q] less.prems next_try show ?case
    by (auto simp: openCard_from.simps [of n] q not_le split: sum.splits if_splits)
qed

lemma reopen_keeps: "reopen_from n api reader w = (r, w') \<Longrightarrow> f w' = f w"
proof (induction "resetReopenAttempts - n" arbitrary: n w rule: less_induct)
  case less
  obtain q w1 where q: "connectCard api reader w = (q, w1)" by force
  have next_try: "f w' = f w1" if "n < resetReopenAttempts" "reopen_from (n + 1) api reader (a_sleep api d w1) = (r, w')" for d
    using less.hyps [OF _ that(2)] that(1) by (simp add: sleep_keeps)
  from connectCard_keeps [OF q] less.prems next_try show ?case
    by (auto simp: reopen_from.simps [of n] q not_le split: sum.splits if_splits)
qed

lemma transmitUID_keeps: "transmitUID_from n api c w = (r, w') \<Longrightarrow> f w' = f w"
proof (induction "uidReadAttempts - n" arbitrary: n w rule: less_induct)
  case less
  obtain q w1 where q: "a_transmit api c uidAPDU 64 w = (q, w1)" by force
  obtain u fin x where cl: "classify q = (u, fin, x)" by (metis surj_pair)
  have next_try: "f w' = f w1" if "n < uidReadAttempts" "transmitUID_from (n + 1) api c (a_sleep api d w1) = (r, w')" for d
    using less.hyps [OF _ that(2)] that(1) by (simp add: sleep_keeps)
  from op_keeps(2) [OF q] less.prems next_try show ?case
    by (auto simp: transmitUID_from.simps [of n] uidExchange_def q cl not_le split: if_splits)
qed

lemma insist_keeps: "insist_from n api c reader w = (r, w') \<Longrightarrow> f w' = f w"
proof (induction "uidReadRounds - n" arbitrary: n c w rule: less_induct)
  case less
  obtain u fin w1 where t: "transmitUID_from 1 api c w = ((u, fin), w1)" by (metis surj_pair)
  obtain q w2 where o: "reopenCardAfterReset api reader (snd (a_disconnect api c ResetCard w1)) = (q, w2)" by force
  have "f w2 = f w1"
    using reopen_keeps [OF o [unfolded reopenCardAfterReset_def]] by (simp add: sleep_keeps disconnect_keeps)
  moreover have "f w' = f w2" if "n < uidReadRounds" "insist_from (n + 1) api c' reader w2 = (r, w')" for c'
    using less.hyps [OF _ that(2)] that(1) by simp
  ultimately show ?case using transmitUID_keeps [OF t] less.prems
    by (auto simp: insist_from.simps [of n] transmitUID_def t o not_le split: sum.splits if_splits
        simp del: One_nat_def)
qed

lemma pinning_keeps: "f (pinning n api live w) = f w"
  by (induction n arbitrary: w) (auto simp: transmit_keeps split: option.split)

lemma release_keeps: "f (release api live w) = f w"
  by (simp add: release_def disconnect_keeps split: option.split)

lemma attributes_keep:
  "readVendorSerial api c w = (s, w') \<Longrightarrow> f w' = f w" "readChannelID api c w = (i, w') \<Longrightarrow> f w' = f w"
  by (auto simp: readVendorSerial_def readChannelID_def Let_def dest: op_keeps split: prod.splits sum.splits if_splits)

end

text \<open>The same for a probe, which also looks at the file tree.\<close>

locale probe_frame = card_frame "wa_cards api" kept
  for api :: "'w watch_api" and kept :: "'w \<Rightarrow> 'b" +
  assumes look_keeps: "kept (snd (wa_look api w)) = kept w"
begin

lemma look_op: "wa_look api w = (t, w') \<Longrightarrow> kept w' = kept w"
  by (metis look_keeps snd_conv)

lemma snapshot_keeps: "snapshot_now (wa_look api) root w = (s, w') \<Longrightarrow> kept w' = kept w"
  by (auto simp: snapshot_now_def dest: look_op split: prod.splits)

lemma read_unit_keeps:
  assumes "read_unit (wa_cards api) (wa_look api) reader root usb c w = (r, w')"
  shows "kept w' = kept w"
proof -
  obtain s w1 where s: "readVendorSerial (wa_cards api) c w = (s, w1)" by force
  obtain bus dev why w2 where i: "readChannelID (wa_cards api) c w1 = ((bus, dev, why), w2)" by (metis surj_pair)
  obtain t w3 where v: "wa_look api w2 = (t, w3)" by force
  from assms attributes_keep(1) [OF s] attributes_keep(2) [OF i] look_op [OF v] show ?thesis
    by (auto simp: read_unit_def s i v split: prod.splits if_splits)
qed

lemma pin_port_keeps:
  assumes "pin_port (wa_cards api) (wa_look api) up reader root before claims live w = (p, w')"
  shows "kept w' = kept w"
proof -
  obtain s w1 where s: "snapshot_now (wa_look api) root (pinning pinningExchanges (wa_cards api) live w) = (s, w1)" by force
  obtain t w2 where v: "wa_look api w1 = (t, w2)" by force
  from assms snapshot_keeps [OF s] look_op [OF v] pinning_keeps [of pinningExchanges live w] show ?thesis
    by (simp add: pin_port_def s v)
qed

lemma probe_keeps:
  "kept (snd (probeReaderCard (wa_cards api) (wa_look api) up reader root usb claims remembered w)) = kept w"
proof -
  let ?known = "f_serial remembered \<noteq> [] \<or> f_port remembered \<noteq> []"
  obtain b w1 where b: "(if usb \<and> \<not> ?known then snapshot_now (wa_look api) root w else (None, w)) = (b, w1)" by force
  obtain q w2 where o: "openCard (wa_cards api) reader w1 = (q, w2)" by force
  have k1: "kept w1 = kept w" using b by (cases "usb \<and> \<not> ?known") (auto dest: snapshot_keeps)
  have k2: "kept w2 = kept w1" using openCard_keeps [OF o [unfolded openCard_def]] .
  show ?thesis
  proof (cases q)
    case (Inl e)
    show ?thesis unfolding probeReaderCard_def Let_def b prod.case o Inl sum.case by (simp add: k1 k2)
  next
    case (Inr c)
    obtain serial port w3 where u: "(if ?known then ((f_serial remembered, f_port remembered), w2)
        else read_unit (wa_cards api) (wa_look api) reader root usb c w2) = ((serial, port), w3)" by (metis surj_pair)
    obtain uid protocol live w4 where i: "insistUID (wa_cards api) c reader w3 = ((uid, protocol, live), w4)"
      by (metis surj_pair)
    obtain port' w5 where p: "(if usb \<and> \<not> ?known \<and> serial = [] \<and> port = []
        then pin_port (wa_cards api) (wa_look api) up reader root b claims live w4 else (port, w4)) = (port', w5)" by force
    have "kept w3 = kept w2" using u by (cases ?known) (auto dest: read_unit_keeps)
    moreover have "kept w4 = kept w3" using insist_keeps [OF i [unfolded insistUID_def]] .
    moreover have "kept w5 = kept w4"
      using p by (cases "usb \<and> \<not> ?known \<and> serial = [] \<and> port = []") (auto dest: pin_port_keeps)
    ultimately show ?thesis
      unfolding probeReaderCard_def Let_def b prod.case o Inr sum.case u i p by (simp add: release_keeps k1 k2)
  qed
qed

end

section \<open>Which events go out\<close>

definition wants_insert :: "reader_tracking \<Rightarrow> reader_state \<Rightarrow> bool" where
  "wants_insert tr st \<longleftrightarrow> state_present st \<and> (\<not> was_present tr (rs_reader st) \<or> counter_moved tr st)"

text \<open>The facts a probe of the presentation comes up with, after adoption.\<close>

definition probed_facts :: "'w watch_api \<Rightarrow> watchEnv \<Rightarrow> reader_state \<Rightarrow> reader_tracking \<Rightarrow> 'w \<Rightarrow> reader_facts" where
  "probed_facts api env st tr w =
     fst (adopt (tr_units tr) (rs_reader st) (fst (probeReaderCard (wa_cards api) (wa_look api) (wa_upper api)
       (rs_reader st) (env_sysfsRoot env) (env_useUSBPath env) (reg_byPort (tr_units tr))
       (cached (tr_units tr) (rs_reader st)) w)))"

definition state_events :: "'w watch_api \<Rightarrow> watchEnv \<Rightarrow> reader_state \<Rightarrow> reader_tracking \<Rightarrow> 'w \<Rightarrow> Event list" where
  "state_events api env st tr w =
     (if wants_insert tr st then
        (let facts = probed_facts api env st tr w in
         if f_uid facts = [] then [] else [insert_event (env_machine env) st facts])
      else if \<not> state_present st \<and> was_present tr (rs_reader st) then [remove_event (rs_reader st)]
      else [])"

text \<open>What a run of the loop shows: the snapshots it read and the events that went out.\<close>

datatype obs = Seen "reader_state list" | Sent Event

text \<open>The contract of the loop towards its log: only \<open>wa_states\<close> sees, only \<open>wa_emit\<close> sends, and it sends
  what it is given.\<close>

locale event_channel = probe_frame api sent
  for api :: "'w watch_api" and sent :: "'w \<Rightarrow> obs list" +
  assumes emit_sends: "sent (snd (wa_emit api e w)) = sent w @ (if fst (wa_emit api e w) then [Sent e] else [])"
    and states_seen: "sent (snd (wa_states api w)) =
      sent w @ (case fst (wa_states api w) of Inl _ \<Rightarrow> [] | Inr sts \<Rightarrow> [Seen sts])"
    and wait_keeps: "sent (snd (wa_wait api t w)) = sent w"
    and pause_keeps: "sent (snd (wa_pause api t w)) = sent w"
begin

lemma emit_op: "wa_emit api e w = (ok, w') \<Longrightarrow> sent w' = sent w @ (if ok then [Sent e] else [])"
  by (metis emit_sends fst_conv snd_conv)

lemma poll_insert_sends:
  assumes "poll_insert api env st tr w = (True, tr', w')"
  shows "tr_present tr' = tr_present tr \<and> tr_counters tr' = tr_counters tr
    \<and> sent w' = sent w @ (let facts = probed_facts api env st tr w in
        if f_uid facts = [] then [] else [Sent (insert_event (env_machine env) st facts)])"
proof -
  obtain fresh w1 where p: "probeReaderCard (wa_cards api) (wa_look api) (wa_upper api) (rs_reader st)
      (env_sysfsRoot env) (env_useUSBPath env) (reg_byPort (tr_units tr)) (cached (tr_units tr) (rs_reader st)) w
    = (fresh, w1)" by force
  obtain facts units where a: "adopt (tr_units tr) (rs_reader st) fresh = (facts, units)" by force
  have facts: "probed_facts api env st tr w = facts" by (simp add: probed_facts_def p a)
  obtain ok w2 where e: "wa_emit api (insert_event (env_machine env) st facts) w1 = (ok, w2)" by force
  have w1: "sent w1 = sent w" using probe_keeps by (metis p snd_conv)
  have src: "card_Source (identify st facts) = (if f_uid facts = [] then ''none'' else ''uid'')"
    by (simp add: identify_def Let_def)
  show ?thesis
    using assms w1 emit_op [OF e] by (auto simp: poll_insert_def p a e src facts Let_def split: if_splits)
qed

lemma poll_state_sends:
  assumes "poll_state api env st tr w = (True, tr', w')"
  shows "tr_present tr' = tr_present (note_state st tr) \<and> tr_counters tr' = tr_counters (note_state st tr)
    \<and> sent w' = sent w @ map Sent (state_events api env st tr w)"
proof -
  consider "wants_insert tr st" | "state_present st" "\<not> wants_insert tr st"
    | "\<not> state_present st" "was_present tr (rs_reader st)" | "\<not> state_present st" "\<not> was_present tr (rs_reader st)" by blast
  then show ?thesis
  proof cases
    case 1
    then obtain tr1 where i: "poll_insert api env st tr w = (True, tr1, w')" "tr' = note_state st tr1"
      using assms by (auto simp: poll_state_def wants_insert_def split: prod.splits if_splits)
    with poll_insert_sends [OF i(1)] 1 show ?thesis by (simp add: note_state_def state_events_def Let_def)
  next
    case 2
    then have "tr' = note_state st tr" "w' = w" using assms by (auto simp: poll_state_def wants_insert_def)
    with 2 show ?thesis by (simp add: state_events_def)
  next
    case 3
    obtain ok w1 where e: "wa_emit api (remove_event (rs_reader st)) w = (ok, w1)" by force
    with 3 assms have "ok" "tr' = note_state st tr" "w' = w1" by (auto simp: poll_state_def split: if_splits)
    with 3 emit_op [OF e] show ?thesis by (simp add: state_events_def wants_insert_def)
  next
    case 4
    then have "tr' = note_state st tr" "w' = w" using assms by (auto simp: poll_state_def)
    with 4 show ?thesis by (simp add: state_events_def wants_insert_def)
  qed
qed

end

text \<open>Any loop, with its log beside its world.\<close>

definition beside :: "'w card_api \<Rightarrow> ('w \<times> 'l) card_api" where
  "beside api = \<lparr>
     a_connect = (\<lambda>reader p (w, l). case a_connect api reader p w of (r, w) \<Rightarrow> (r, (w, l))),
     a_transmit = (\<lambda>c apdu m (w, l). case a_transmit api c apdu m w of (r, w) \<Rightarrow> (r, (w, l))),
     a_getAttrib = (\<lambda>c a (w, l). case a_getAttrib api c a w of (r, w) \<Rightarrow> (r, (w, l))),
     a_disconnect = (\<lambda>c d (w, l). case a_disconnect api c d w of (r, w) \<Rightarrow> (r, (w, l))),
     a_sleep = (\<lambda>d (w, l). (a_sleep api d w, l))\<rparr>"

definition logged_watch :: "'w watch_api \<Rightarrow> ('w \<times> obs list) watch_api" where
  "logged_watch api = \<lparr>
     wa_cards = beside (wa_cards api),
     wa_look = (\<lambda>(w, l). case wa_look api w of (t, w) \<Rightarrow> (t, (w, l))),
     wa_upper = wa_upper api,
     wa_states = (\<lambda>(w, l). case wa_states api w of (r, w) \<Rightarrow>
       (r, (w, l @ (case r of Inl _ \<Rightarrow> [] | Inr sts \<Rightarrow> [Seen sts])))),
     wa_wait = (\<lambda>t (w, l). case wa_wait api t w of (r, w) \<Rightarrow> (r, (w, l))),
     wa_emit = (\<lambda>e (w, l). case wa_emit api e w of (ok, w) \<Rightarrow> (ok, (w, l @ (if ok then [Sent e] else [])))),
     wa_pause = (\<lambda>t (w, l). case wa_pause api t w of (r, w) \<Rightarrow> (r, (w, l))),
     wa_done = (\<lambda>(w, l). wa_done api w),
     wa_order = (\<lambda>(w, l). wa_order api w)\<rparr>"

interpretation beside: card_frame "beside api" snd for api
  by unfold_locales (auto simp: beside_def split: prod.split)

interpretation looked: probe_frame "logged_watch api" snd for api
  by unfold_locales (auto simp: logged_watch_def beside_def split: prod.split)

interpretation watched: event_channel "logged_watch api" snd for api
  by unfold_locales (auto simp: logged_watch_def beside_def split: prod.split sum.split)

text \<open>What one reader state does to the loop: an insertion is due when the card is present and was
  not, or its event counter moved since a known value; then the reader is probed once, and an
  insertion goes out exactly when the probe found a UID. A removal goes out when the card was present
  and is not. Nothing else is reported, and the state is noted.\<close>

theorem state_reported:
  assumes "poll_state (logged_watch api) env st tr (w, log) = (True, tr', (w', log'))"
  shows "log' = log @ map Sent (state_events (logged_watch api) env st tr (w, log))
    \<and> tr_present tr' = (tr_present tr)(rs_reader st \<mapsto> state_present st)
    \<and> tr_counters tr' = (tr_counters tr)(rs_reader st :=
        (if state_present st then Some (rs_eventCounter st) else None))"
  using watched.poll_state_sends [OF assms] by (simp add: note_state_def)

end
