(* ===== verification/WatchLog.thy ===== *)
theory WatchLog
  imports Watch
begin

text \<open>
  What the watch loop reports over whole snapshots and sessions. \<open>reader_ok\<close> is the specification of
  one snapshot for one reader, \<open>stream_ok\<close> the one of a whole log: every falling edge of a reader's
  presence is reported as one removal, an insertion only while the card is present, at most one event
  per reader and snapshot. The lemmas are proved for any \<open>event_channel\<close>; the properties are their
  instances on the loop with its log.
\<close>

section \<open>One snapshot, one reader\<close>

definition state_of :: "reader_state list \<Rightarrow> string \<Rightarrow> reader_state option" where
  "state_of sts = map_of (map (\<lambda>st. (rs_reader st, st)) sts)"

definition events_of :: "string \<Rightarrow> Event list \<Rightarrow> Event list" where
  "events_of q evs = filter (\<lambda>e. ev_Reader e = q) evs"

definition state_ok :: "string \<Rightarrow> reader_tracking \<Rightarrow> reader_state \<Rightarrow> Event list \<Rightarrow> bool" where
  "state_ok machine tr st evs \<longleftrightarrow>
     (if wants_insert tr st
      then evs = [] \<or> (\<exists>facts. f_uid facts \<noteq> [] \<and> evs = [insert_event machine st facts])
      else evs = (if \<not> state_present st \<and> was_present tr (rs_reader st) then [remove_event (rs_reader st)] else []))"

definition reader_ok :: "string \<Rightarrow> reader_tracking \<Rightarrow> reader_state list \<Rightarrow> string \<Rightarrow> Event list \<Rightarrow> bool" where
  "reader_ok machine tr sts q evs \<longleftrightarrow>
     (case state_of sts q of
        None \<Rightarrow> evs = (if was_present tr q then [remove_event q] else [])
      | Some st \<Rightarrow> state_ok machine tr st evs)"

lemma events_of_simps [simp]:
  "events_of q [] = []" "events_of q (a @ b) = events_of q a @ events_of q b"
  "events_of q (e # evs) = (if ev_Reader e = q then e # events_of q evs else events_of q evs)"
  by (simp_all add: events_of_def)

lemma event_readers [simp]:
  "ev_Reader (insert_event machine st facts) = rs_reader st" "ev_Reader (remove_event q) = q"
  by (simp_all add: insert_event_def remove_event_def)

lemma state_events_ok:
  "state_ok (env_machine env) tr st (state_events api env st tr w)"
  "events_of q (state_events api env st tr w) = (if q = rs_reader st then state_events api env st tr w else [])"
  by (auto simp: state_ok_def state_events_def Let_def)

lemma state_of_simps [simp]:
  "state_of [] q = None" "state_of (st # sts) q = (if rs_reader st = q then Some st else state_of sts q)"
  by (auto simp: state_of_def)

lemma state_of_reader: "state_of sts q = Some st \<Longrightarrow> rs_reader st = q"
  by (induction sts) (auto split: if_splits)

lemma state_of_None: "state_of sts q = None \<longleftrightarrow> q \<notin> rs_reader ` set sts"
  by (induction sts) auto

lemma state_of_SomeD: "state_of sts q = Some st \<Longrightarrow> q \<in> rs_reader ` set sts"
  by (metis option.distinct(1) state_of_None)

text \<open>\<open>state_ok\<close> looks at one reader of the tracking only.\<close>

definition same_reader :: "string \<Rightarrow> reader_tracking \<Rightarrow> reader_tracking \<Rightarrow> bool" where
  "same_reader q tr tr' \<longleftrightarrow> tr_present tr' q = tr_present tr q \<and> tr_counters tr' q = tr_counters tr q"

lemma state_ok_cong: "same_reader (rs_reader st) tr tr' \<Longrightarrow> state_ok machine tr' st = state_ok machine tr st"
proof
  fix evs
  assume same: "same_reader (rs_reader st) tr tr'"
  have "was_present tr' (rs_reader st) = was_present tr (rs_reader st)" "counter_moved tr' st = counter_moved tr st"
    using same by (simp_all add: was_present_def counter_moved_def same_reader_def)
  then show "state_ok machine tr' st evs = state_ok machine tr st evs"
    unfolding state_ok_def wants_insert_def by (simp only:)
qed

context event_channel
begin

lemma poll_states_sends:
  "poll_states api env sts tr w = (True, tr', w') \<Longrightarrow> distinct (map rs_reader sts) \<Longrightarrow>
   \<exists>evs. sent w' = sent w @ map Sent evs
     \<and> (\<forall>q. case state_of sts q of
          None \<Rightarrow> events_of q evs = [] \<and> same_reader q tr tr'
        | Some st \<Rightarrow> state_ok (env_machine env) tr st (events_of q evs)
            \<and> tr_present tr' q = Some (state_present st)
            \<and> tr_counters tr' q = (if state_present st then Some (rs_eventCounter st) else None))"
proof (induction sts arbitrary: tr w)
  case Nil
  then show ?case by (intro exI [of _ "[]"]) (simp add: same_reader_def)
next
  case (Cons st sts)
  obtain ok tr1 w1 where p: "poll_state api env st tr w = (ok, tr1, w1)" by (metis surj_pair)
  with Cons.prems have ok: "ok" and rest: "poll_states api env sts tr1 w1 = (True, tr', w')"
    by (auto split: if_splits)
  note one = poll_state_sends [OF p [simplified ok]]
  let ?first = "state_events api env st tr w"
  from Cons.IH [OF rest] Cons.prems(2) obtain evs where evs: "sent w' = sent w1 @ map Sent evs"
    "\<And>q. case state_of sts q of
          None \<Rightarrow> events_of q evs = [] \<and> same_reader q tr1 tr'
        | Some s \<Rightarrow> state_ok (env_machine env) tr1 s (events_of q evs)
            \<and> tr_present tr' q = Some (state_present s)
            \<and> tr_counters tr' q = (if state_present s then Some (rs_eventCounter s) else None)" by auto
  have other: "same_reader q tr tr1" if "q \<noteq> rs_reader st" for q
    using one that by (simp add: same_reader_def note_state_def)
  have "case state_of (st # sts) q of
          None \<Rightarrow> events_of q (?first @ evs) = [] \<and> same_reader q tr tr'
        | Some s \<Rightarrow> state_ok (env_machine env) tr s (events_of q (?first @ evs))
            \<and> tr_present tr' q = Some (state_present s)
            \<and> tr_counters tr' q = (if state_present s then Some (rs_eventCounter s) else None)" for q
  proof (cases "q = rs_reader st")
    case True
    then have "state_of sts q = None" using Cons.prems(2) by (simp add: state_of_None)
    then have "events_of q evs = []" "same_reader q tr1 tr'" using evs(2) [of q] by auto
    with True one show ?thesis by (simp add: state_events_ok same_reader_def note_state_def)
  next
    case False
    show ?thesis
    proof (cases "state_of sts q")
      case None
      with False other [OF False] evs(2) [of q] show ?thesis by (simp add: state_events_ok same_reader_def)
    next
      case (Some s)
      then have "rs_reader s = q" by (rule state_of_reader)
      with state_ok_cong [of s tr tr1 "env_machine env"] other [OF False] False Some evs(2) [of q] show ?thesis
        by (simp add: state_events_ok)
    qed
  qed
  with one evs(1) show ?case by (intro exI [of _ "?first @ evs"]) simp
qed

lemma poll_gone_sends:
  "poll_gone api seen qs tr w = (True, tr', w') \<Longrightarrow> distinct qs \<Longrightarrow>
   \<exists>evs. sent w' = sent w @ map Sent evs
     \<and> (\<forall>q. events_of q evs = (if q \<in> set qs \<and> \<not> seen q \<and> was_present tr q then [remove_event q] else [])
          \<and> (if q \<in> set qs \<and> \<not> seen q then tr_present tr' q = None \<and> tr_counters tr' q = None
             else same_reader q tr tr'))"
proof (induction qs arbitrary: tr w)
  case Nil
  then show ?case by (intro exI [of _ "[]"]) (simp add: same_reader_def)
next
  case (Cons r qs)
  let ?P = "\<lambda>qs tr evs. \<forall>q. events_of q evs = (if q \<in> set qs \<and> \<not> seen q \<and> was_present tr q then [remove_event q] else [])
          \<and> (if q \<in> set qs \<and> \<not> seen q then tr_present tr' q = None \<and> tr_counters tr' q = None
             else same_reader q tr tr')"
  show ?case
  proof (cases "seen r")
    case True
    with Cons.prems have "poll_gone api seen qs tr w = (True, tr', w')" by simp
    with Cons.IH [OF this] Cons.prems(2) obtain evs where "sent w' = sent w @ map Sent evs" "?P qs tr evs" by auto
    with True show ?thesis by (intro exI [of _ evs]) auto
  next
    case False
    define first where "first = (if was_present tr r then [remove_event r] else [])"
    obtain w1 where w1: "sent w1 = sent w @ map Sent first"
      and rest: "poll_gone api seen qs (drop_reader r tr) w1 = (True, tr', w')"
      using Cons.prems(1) False emit_op [of "remove_event r" w]
      by (cases "was_present tr r") (auto simp: first_def split: prod.splits if_splits)
    from Cons.IH [OF rest] Cons.prems(2) obtain evs where evs: "sent w' = sent w1 @ map Sent evs"
      "?P qs (drop_reader r tr) evs" by auto
    have "?P (r # qs) tr (first @ evs)"
    proof
      fix q
      show "events_of q (first @ evs) = (if q \<in> set (r # qs) \<and> \<not> seen q \<and> was_present tr q then [remove_event q] else [])
          \<and> (if q \<in> set (r # qs) \<and> \<not> seen q then tr_present tr' q = None \<and> tr_counters tr' q = None
             else same_reader q tr tr')"
        using evs(2) [rule_format, of q] False Cons.prems(2)
        by (cases "q = r") (auto simp: first_def drop_reader_def was_present_def same_reader_def)
    qed
    with w1 evs(1) show ?thesis by (intro exI [of _ "first @ evs"]) simp
  qed
qed

lemma range_keys_perm:
  "finite (dom m) \<Longrightarrow> distinct (range_keys api m w) \<and> set (range_keys api m w) = dom m"
proof -
  assume fin: "finite (dom m)"
  have "mset (range_keys api m w) = mset (sorted_list_of_set (dom m))" by (simp add: range_keys_def Let_def)
  then show ?thesis using fin by (metis mset_eq_setD mset_eq_imp_distinct_iff set_sorted_list_of_set distinct_sorted_list_of_set)
qed

text \<open>One snapshot: what is tracked afterwards, and what goes out per reader.\<close>

lemma poll_snapshot_sends:
  assumes run: "poll_snapshot api env sts tr w = (True, tr', w')" and dist: "distinct (map rs_reader sts)"
    and fin: "finite (dom (tr_present tr))" and sub: "dom (tr_counters tr) \<subseteq> dom (tr_present tr)"
  shows "\<exists>evs. sent w' = sent w @ map Sent evs
    \<and> (\<forall>q. reader_ok (env_machine env) tr sts q (events_of q evs)
         \<and> tr_present tr' q = map_option state_present (state_of sts q)
         \<and> tr_counters tr' q = (case state_of sts q of None \<Rightarrow> None
              | Some st \<Rightarrow> if state_present st then Some (rs_eventCounter st) else None))"
proof -
  obtain ok tr1 w1 where p: "poll_states api env sts tr w = (ok, tr1, w1)" by (metis surj_pair)
  define qs where "qs = range_keys api (tr_present tr1) w1"
  define seen where "seen = (\<lambda>q. q \<in> set (map rs_reader sts))"
  have ok: "ok" and gone: "poll_gone api seen qs tr1 w1 = (True, tr', w')"
    using run by (auto simp: poll_snapshot_def p qs_def seen_def split: if_splits)
  from poll_states_sends [OF p [simplified ok] dist] obtain a where a: "sent w1 = sent w @ map Sent a"
    "\<And>q. case state_of sts q of
          None \<Rightarrow> events_of q a = [] \<and> same_reader q tr tr1
        | Some st \<Rightarrow> state_ok (env_machine env) tr st (events_of q a)
            \<and> tr_present tr1 q = Some (state_present st)
            \<and> tr_counters tr1 q = (if state_present st then Some (rs_eventCounter st) else None)" by blast
  have "dom (tr_present tr1) \<subseteq> dom (tr_present tr) \<union> rs_reader ` set sts"
  proof
    fix q assume "q \<in> dom (tr_present tr1)"
    then show "q \<in> dom (tr_present tr) \<union> rs_reader ` set sts"
      using a(2) [of q] by (cases "state_of sts q") (auto simp: same_reader_def state_of_None [symmetric])
  qed
  then have "finite (dom (tr_present tr1))" using fin finite_subset by blast
  from range_keys_perm [OF this, of w1] have qs: "distinct qs" "set qs = dom (tr_present tr1)" by (simp_all add: qs_def)
  from poll_gone_sends [OF gone qs(1)] obtain b where b: "sent w' = sent w1 @ map Sent b"
    "\<And>q. events_of q b = (if q \<in> set qs \<and> \<not> seen q \<and> was_present tr1 q then [remove_event q] else [])
          \<and> (if q \<in> set qs \<and> \<not> seen q then tr_present tr' q = None \<and> tr_counters tr' q = None
             else same_reader q tr1 tr')" by blast
  have seen: "seen q \<longleftrightarrow> state_of sts q \<noteq> None" for q by (simp add: seen_def state_of_None)
  have "reader_ok (env_machine env) tr sts q (events_of q (a @ b))
         \<and> tr_present tr' q = map_option state_present (state_of sts q)
         \<and> tr_counters tr' q = (case state_of sts q of None \<Rightarrow> None
              | Some st \<Rightarrow> if state_present st then Some (rs_eventCounter st) else None)" for q
  proof (cases "state_of sts q")
    case None
    then have n: "events_of q a = []" "same_reader q tr tr1" "\<not> seen q" using a(2) [of q] by (auto simp: seen)
    show ?thesis
    proof (cases "q \<in> dom (tr_present tr)")
      case True
      then have "q \<in> set qs" using n(2) by (auto simp: qs(2) same_reader_def)
      with n None b(2) [of q] show ?thesis by (simp add: reader_ok_def was_present_def same_reader_def)
    next
      case False
      then have c: "tr_present tr q = None" "tr_counters tr q = None" using sub by blast+
      then have "q \<notin> set qs" using n(2) by (auto simp: qs(2) same_reader_def)
      with n c None b(2) [of q] show ?thesis by (simp add: reader_ok_def was_present_def same_reader_def)
    qed
  next
    case (Some st)
    then show ?thesis using a(2) [of q] b(2) [of q] seen [of q]
      by (simp add: reader_ok_def same_reader_def)
  qed
  with a(1) b(1) show ?thesis by (intro exI [of _ "a @ b"]) simp
qed

end

text \<open>C19. After a snapshot the loop tracks exactly it: the presence of the readers it names and the event
  counters of the ones with a card, whatever was tracked before, and in whatever order the readers that
  left are visited. The events that went out meet the specification reader by reader, so no reader's
  events depend on another one's state.\<close>

theorem snapshot_reported:
  assumes "poll_snapshot (logged_watch api) env sts tr (w, log) = (True, tr', (w', log'))"
    and "distinct (map rs_reader sts)" "finite (dom (tr_present tr))" "dom (tr_counters tr) \<subseteq> dom (tr_present tr)"
  shows "\<exists>evs. log' = log @ map Sent evs
    \<and> (\<forall>q. reader_ok (env_machine env) tr sts q (events_of q evs)
         \<and> tr_present tr' q = map_option state_present (state_of sts q)
         \<and> tr_counters tr' q = (case state_of sts q of None \<Rightarrow> None
              | Some st \<Rightarrow> if state_present st then Some (rs_eventCounter st) else None))"
  using watched.poll_snapshot_sends [OF assms] by simp

section \<open>Reconnecting\<close>

text \<open>A snapshot that agrees with the tracked presence, read with no counters known.\<close>

definition unmoved :: "reader_tracking \<Rightarrow> reader_state list \<Rightarrow> bool" where
  "unmoved tr sts \<longleftrightarrow> (\<forall>st \<in> set sts. was_present tr (rs_reader st) = state_present st
     \<and> tr_counters tr (rs_reader st) = None)"

lemma poll_states_unmoved:
  "unmoved tr sts \<Longrightarrow> distinct (map rs_reader sts) \<Longrightarrow>
   \<exists>tr'. poll_states api env sts tr w = (True, tr', w)
     \<and> dom (tr_present tr') = dom (tr_present tr) \<union> rs_reader ` set sts"
proof (induction sts arbitrary: tr)
  case (Cons st sts)
  have "poll_state api env st tr w = (True, note_state st tr, w)"
    using Cons.prems(1) by (auto simp: poll_state_def unmoved_def counter_moved_def)
  moreover have "unmoved (note_state st tr) sts"
    unfolding unmoved_def
  proof
    fix s assume "s \<in> set sts"
    moreover from this have "rs_reader s \<noteq> rs_reader st" using Cons.prems(2) by (metis distinct.simps(2) image_eqI list.simps(9) set_map)
    ultimately show "was_present (note_state st tr) (rs_reader s) = state_present s
        \<and> tr_counters (note_state st tr) (rs_reader s) = None"
      using Cons.prems(1) by (simp add: unmoved_def note_state_def was_present_def)
  qed
  moreover have "dom (tr_present (note_state st tr)) = insert (rs_reader st) (dom (tr_present tr))"
    by (auto simp: note_state_def)
  ultimately show ?case using Cons.IH [of "note_state st tr"] Cons.prems(2) by simp
qed simp

lemma poll_gone_seen: "\<forall>q \<in> set qs. seen q \<Longrightarrow> poll_gone api seen qs tr w = (True, tr, w)"
  by (induction qs) simp_all

lemma range_keys_set: "finite (dom m) \<Longrightarrow> set (range_keys api m w) = dom m"
proof -
  assume fin: "finite (dom m)"
  have "mset (range_keys api m w) = mset (sorted_list_of_set (dom m))" by (simp add: range_keys_def Let_def)
  then show ?thesis using fin by (metis mset_eq_setD set_sorted_list_of_set)
qed

text \<open>A daemon restart re-reports nothing: when the first snapshot of a new connection shows the presence
  that was tracked, the loop does nothing at all, no probe, no event, whatever the event counters of the
  restarted daemon are.\<close>

theorem reconnect_is_silent:
  assumes "\<forall>st \<in> set sts. was_present tr (rs_reader st) = state_present st" "distinct (map rs_reader sts)"
    and "dom (tr_present tr) \<subseteq> rs_reader ` set sts"
  shows "\<exists>tr'. poll_snapshot api env sts (fresh_session tr) w = (True, tr', w)"
proof -
  have "unmoved (fresh_session tr) sts"
    using assms(1) by (simp add: unmoved_def fresh_session_def was_present_def)
  from poll_states_unmoved [OF this assms(2), of api env w] obtain tr1 where
    tr1: "poll_states api env sts (fresh_session tr) w = (True, tr1, w)"
    and dom: "dom (tr_present tr1) = dom (tr_present (fresh_session tr)) \<union> rs_reader ` set sts" by blast
  have "tr_present (fresh_session tr) = tr_present tr" by (simp add: fresh_session_def)
  with dom assms(3) have "dom (tr_present tr1) = rs_reader ` set sts" by auto
  then have "set (range_keys api (tr_present tr1) w) = rs_reader ` set sts"
    using range_keys_set [of "tr_present tr1" api w] by simp
  then have "poll_gone api (\<lambda>q. q \<in> set (map rs_reader sts)) (range_keys api (tr_present tr1) w) tr1 w = (True, tr1, w)"
    by (intro poll_gone_seen) simp
  then show ?thesis using tr1 by (simp add: poll_snapshot_def)
qed

section \<open>Sessions\<close>

definition present_in :: "reader_state list \<Rightarrow> string \<Rightarrow> bool" where
  "present_in sts q = (case state_of sts q of None \<Rightarrow> False | Some st \<Rightarrow> state_present st)"

text \<open>The stream of one reader: its presence in the last two snapshots and whether an event went out
  since. A removal needs a falling edge, an insertion presence; the next snapshot may only come when a
  falling edge was reported.\<close>

fun stream_step :: "string \<Rightarrow> bool \<times> bool \<times> bool \<Rightarrow> obs \<Rightarrow> (bool \<times> bool \<times> bool) option" where
  "stream_step q (was, now, told) (Seen sts) =
     (if was \<and> \<not> now \<and> \<not> told then None else Some (now, present_in sts q, False))"
| "stream_step q (was, now, told) (Sent e) =
     (if ev_Reader e \<noteq> q then Some (was, now, told)
      else if \<not> told \<and> (if ev_Kind e = KindRemove then was \<and> \<not> now else ev_Kind e = KindInsert \<and> now)
      then Some (was, now, True) else None)"

fun stream_run :: "string \<Rightarrow> bool \<times> bool \<times> bool \<Rightarrow> obs list \<Rightarrow> (bool \<times> bool \<times> bool) option" where
  "stream_run q s [] = Some s"
| "stream_run q s (o' # log) = (case stream_step q s o' of None \<Rightarrow> None | Some s \<Rightarrow> stream_run q s log)"

definition stream_ok :: "string \<Rightarrow> bool \<Rightarrow> obs list \<Rightarrow> bool" where
  "stream_ok q now log \<longleftrightarrow> stream_run q (now, now, True) log \<noteq> None"

lemma stream_run_append:
  "stream_run q s (a @ b) = (case stream_run q s a of None \<Rightarrow> None | Some s \<Rightarrow> stream_run q s b)"
  by (induction a arbitrary: s) (simp_all split: option.split)

lemma stream_run_events: "stream_run q s (map Sent evs) = stream_run q s (map Sent (events_of q evs))"
proof (induction evs arbitrary: s)
  case (Cons e evs)
  then show ?case by (cases s) (simp split: option.split)
qed simp

lemma kinds [simp]:
  "ev_Kind (insert_event machine st facts) = KindInsert" "ev_Kind (remove_event q) = KindRemove"
  "KindInsert \<noteq> KindRemove"
  by (simp_all add: insert_event_def remove_event_def KindInsert_def KindRemove_def)

lemma reader_ok_stream:
  assumes "reader_ok machine tr sts q (events_of q evs)"
  shows "\<exists>told. stream_run q (was_present tr q, present_in sts q, False) (map Sent evs)
      = Some (was_present tr q, present_in sts q, told) \<and> (was_present tr q \<and> \<not> present_in sts q \<longrightarrow> told)"
  unfolding stream_run_events [of q _ evs]
proof (cases "state_of sts q")
  case None
  then show "\<exists>told. stream_run q (was_present tr q, present_in sts q, False) (map Sent (events_of q evs))
      = Some (was_present tr q, present_in sts q, told) \<and> (was_present tr q \<and> \<not> present_in sts q \<longrightarrow> told)"
    using assms by (cases "was_present tr q") (simp_all add: reader_ok_def present_in_def, blast+)
next
  case (Some st)
  then have "rs_reader st = q" by (rule state_of_reader)
  then show "\<exists>told. stream_run q (was_present tr q, present_in sts q, False) (map Sent (events_of q evs))
      = Some (was_present tr q, present_in sts q, told) \<and> (was_present tr q \<and> \<not> present_in sts q \<longrightarrow> told)"
    using assms Some by (auto simp: reader_ok_def state_ok_def wants_insert_def present_in_def split: if_splits)
qed

text \<open>The first turns of the loop, as long as it goes on.\<close>

fun poll_for :: "nat \<Rightarrow> 'w watch_api \<Rightarrow> watchEnv \<Rightarrow> reader_tracking \<Rightarrow> 'w \<Rightarrow> turn \<times> reader_tracking \<times> 'w" where
  "poll_for 0 api env tr w = (Again, tr, w)"
| "poll_for (Suc n) api env tr w =
     (case poll_turn api env tr w of
        (Again, tr, w) \<Rightarrow> poll_for n api env tr w
      | (Return err, tr, w) \<Rightarrow> (Return err, tr, w))"

lemma poll_for_returns: "poll_for n api env tr w = (Return err, tr', w') \<Longrightarrow> poll_turns api env tr w = Some (err, tr', w')"
  by (induction n arbitrary: tr w)
    (simp, subst poll_turns.simps, auto split: prod.splits turn.splits)

definition tracking_ok :: "reader_tracking \<Rightarrow> bool" where
  "tracking_ok tr \<longleftrightarrow> finite (dom (tr_present tr)) \<and> dom (tr_counters tr) \<subseteq> dom (tr_present tr)"

text \<open>pcscd never registers two readers under one name.\<close>

definition unique_readers :: "'w watch_api \<Rightarrow> bool" where
  "unique_readers api \<longleftrightarrow> (\<forall>w sts w'. wa_states api w = (Inr sts, w') \<longrightarrow> distinct (map rs_reader sts))"

text \<open>Between two turns the stream of a reader knows its tracked presence, and no falling edge is open.\<close>

definition settled :: "string \<Rightarrow> reader_tracking \<Rightarrow> bool \<times> bool \<times> bool \<Rightarrow> bool" where
  "settled q tr s \<longleftrightarrow> (\<exists>was told. s = (was, was_present tr q, told) \<and> (was \<and> \<not> was_present tr q \<longrightarrow> told))"

lemma settled_step:
  assumes "settled q tr s" "reader_ok machine tr sts q (events_of q evs)"
    and "tr_present tr' q = map_option state_present (state_of sts q)"
  shows "\<exists>s'. stream_run q s (Seen sts # map Sent evs) = Some s' \<and> settled q tr' s'"
proof -
  obtain was told where s: "s = (was, was_present tr q, told)" "was \<and> \<not> was_present tr q \<longrightarrow> told"
    using assms(1) by (auto simp: settled_def)
  have now: "was_present tr' q = present_in sts q"
    using assms(3) by (simp add: was_present_def present_in_def split: option.split)
  from reader_ok_stream [OF assms(2)] obtain told' where
    "stream_run q (was_present tr q, present_in sts q, False) (map Sent evs) = Some (was_present tr q, present_in sts q, told')"
    "was_present tr q \<and> \<not> present_in sts q \<longrightarrow> told'" by blast
  with s now show ?thesis by (auto simp: settled_def)
qed

context event_channel
begin

lemma poll_turn_again:
  assumes "poll_turn api env tr w = (Again, tr', w')" "tracking_ok tr" "unique_readers api"
  shows "\<exists>more. sent w' = sent w @ more \<and> tracking_ok tr'
    \<and> (\<forall>q s. settled q tr s \<longrightarrow> (\<exists>s'. stream_run q s more = Some s' \<and> settled q tr' s'))"
proof -
  obtain r w1 where r: "wa_states api w = (r, w1)" by force
  then obtain sts where sts: "r = Inr sts" using assms(1) by (auto simp: poll_turn_def split: sum.splits)
  have seen: "sent w1 = sent w @ [Seen sts]" using states_seen [of w] by (simp add: r sts)
  obtain ok tr1 w2 where p: "poll_snapshot api env sts tr w1 = (ok, tr1, w2)" by (metis surj_pair)
  obtain full w3 where pause: "wa_pause api reconnectDelay w2 = (full, w3)" by force
  obtain e w4 where wait: "wa_wait api waitTick w2 = (e, w4)" by force
  have ok: "ok" "tr' = tr1" "w' = w3 \<or> w' = w4"
    using assms(1) by (auto simp: poll_turn_def r sts p pause wait split: if_splits option.splits)
  have "sent w3 = sent w2" "sent w4 = sent w2"
    using pause_keeps [of reconnectDelay w2] wait_keeps [of waitTick w2] by (simp_all add: pause wait)
  with ok(3) have w': "sent w' = sent w2" by auto
  have dist: "distinct (map rs_reader sts)" using assms(3) r sts by (auto simp: unique_readers_def)
  from poll_snapshot_sends [OF p [simplified ok(1)] dist] assms(2) obtain evs where
    evs: "sent w2 = sent w1 @ map Sent evs"
    "\<And>q. reader_ok (env_machine env) tr sts q (events_of q evs)
       \<and> tr_present tr1 q = map_option state_present (state_of sts q)
       \<and> tr_counters tr1 q = (case state_of sts q of None \<Rightarrow> None
            | Some st \<Rightarrow> if state_present st then Some (rs_eventCounter st) else None)"
    by (auto simp: tracking_ok_def)
  have "dom (tr_present tr1) \<subseteq> rs_reader ` set sts" "dom (tr_counters tr1) \<subseteq> dom (tr_present tr1)"
    using evs(2) by (auto simp: dom_def dest: state_of_SomeD split: option.splits)
  then have "tracking_ok tr1" 
    unfolding tracking_ok_def using finite_subset by blast
  moreover have "\<exists>s'. stream_run q s (Seen sts # map Sent evs) = Some s' \<and> settled q tr1 s'" if "settled q tr s" for q s
    using settled_step [OF that] evs(2) [of q] by blast
  ultimately show ?thesis using evs(1) seen w' ok(2) by (intro exI [of _ "Seen sts # map Sent evs"]) simp
qed

lemma poll_for_stream:
  "poll_for n api env tr w = (Again, tr', w') \<Longrightarrow> tracking_ok tr \<Longrightarrow> unique_readers api \<Longrightarrow>
   \<exists>more. sent w' = sent w @ more \<and> tracking_ok tr'
     \<and> (\<forall>q s. settled q tr s \<longrightarrow> (\<exists>s'. stream_run q s more = Some s' \<and> settled q tr' s'))"
proof (induction n arbitrary: tr w)
  case 0
  then show ?case by (intro exI [of _ "[]"]) simp
next
  case (Suc n)
  obtain tr1 w1 where t: "poll_turn api env tr w = (Again, tr1, w1)" and rest: "poll_for n api env tr1 w1 = (Again, tr', w')"
    using Suc.prems(1) by (auto split: prod.splits turn.splits)
  from poll_turn_again [OF t Suc.prems(2,3)] obtain a where a: "sent w1 = sent w @ a" "tracking_ok tr1"
    "\<And>q s. settled q tr s \<Longrightarrow> \<exists>s'. stream_run q s a = Some s' \<and> settled q tr1 s'" by blast
  from Suc.IH [OF rest a(2) Suc.prems(3)] obtain b where b: "sent w' = sent w1 @ b" "tracking_ok tr'"
    "\<And>q s. settled q tr1 s \<Longrightarrow> \<exists>s'. stream_run q s b = Some s' \<and> settled q tr' s'" by blast
  have "\<exists>s'. stream_run q s (a @ b) = Some s' \<and> settled q tr' s'" if "settled q tr s" for q s
    using a(3) [OF that] b(3) by (auto simp: stream_run_append)
  with a(1) b(1,2) show ?case by (intro exI [of _ "a @ b"]) simp
qed

end

lemma unique_readers_logged: "unique_readers api \<Longrightarrow> unique_readers (logged_watch api)"
  by (auto simp: unique_readers_def logged_watch_def split: prod.splits)

text \<open>C1. The event stream of the loop is right for every reader over any number of turns, also across
  reconnects (a session may start with any presence tracked before): every falling edge of the presence
  in the snapshots is reported as exactly one removal before the next snapshot is read, no removal goes
  out otherwise, and an insertion only for a card that is present, at most one event per reader and
  snapshot.\<close>

theorem event_stream_ok:
  assumes "poll_for n (logged_watch api) env tr (w, []) = (Again, tr', (w', log))"
    and "unique_readers api" "finite (dom (tr_present tr))" "dom (tr_counters tr) \<subseteq> dom (tr_present tr)"
  shows "stream_ok q (was_present tr q) log"
proof -
  have "settled q tr (was_present tr q, was_present tr q, True)"
    unfolding settled_def by (rule exI [of _ "was_present tr q"], rule exI [of _ True]) simp
  moreover have "tracking_ok tr" using assms(3,4) by (simp add: tracking_ok_def)
  ultimately show ?thesis
    using watched.poll_for_stream [OF assms(1) _ unique_readers_logged [OF assms(2)]] by (fastforce simp: stream_ok_def)
qed

end
