(* ===== verification/Ghost.thy ===== *)
theory Ghost
  imports Watch
begin

text \<open>
  Functional refinement of the operations the watch loop uses. The locale \<open>card_refinement\<close> relates the
  card operations of two worlds by a projection that commutes with each of them; \<open>probe_refinement\<close> adds
  the look at the file tree. Then the whole probe commutes with the projection. The instance that matters
  is the log of \<open>logged_watch\<close>: it is a ghost, a probe answers and does the same with and without it.
\<close>

section \<open>Card operations\<close>

abbreviation onto :: "('v \<Rightarrow> 'w) \<Rightarrow> 'a \<times> 'v \<Rightarrow> 'a \<times> 'w" where
  "onto f \<equiv> map_prod (\<lambda>r. r) f"

locale card_refinement =
  fixes low :: "'v card_api" and high :: "'w card_api" and abs :: "'v \<Rightarrow> 'w"
  assumes connect_commutes: "a_connect high reader p (abs v) = onto abs (a_connect low reader p v)"
    and transmit_commutes: "a_transmit high c apdu m (abs v) = onto abs (a_transmit low c apdu m v)"
    and getAttrib_commutes: "a_getAttrib high c a (abs v) = onto abs (a_getAttrib low c a v)"
    and disconnect_commutes: "a_disconnect high c d (abs v) = onto abs (a_disconnect low c d v)"
    and sleep_commutes: "a_sleep high t (abs v) = abs (a_sleep low t v)"
begin

lemmas op_commutes = connect_commutes transmit_commutes getAttrib_commutes disconnect_commutes sleep_commutes

lemma connectCard_commutes: "connectCard high reader (abs v) = onto abs (connectCard low reader v)"
  by (simp add: connectCard_def op_commutes split: prod.split)

lemma openCard_from_commutes: "openCard_from n high reader (abs v) = onto abs (openCard_from n low reader v)"
proof (induction "uidReadAttempts - n" arbitrary: n v rule: less_induct)
  case less
  obtain r v1 where r: "connectCard low reader v = (r, v1)" by force
  have "n < uidReadAttempts \<Longrightarrow> openCard_from (n + 1) high reader (abs (a_sleep low d v1))
      = onto abs (openCard_from (n + 1) low reader (a_sleep low d v1))" for d
    by (rule less) simp
  then show ?case
    by (cases r) (auto simp: openCard_from.simps [of n] connectCard_commutes r op_commutes not_le)
qed

lemma reopen_commutes: "reopen_from n high reader (abs v) = onto abs (reopen_from n low reader v)"
proof (induction "resetReopenAttempts - n" arbitrary: n v rule: less_induct)
  case less
  obtain r v1 where r: "connectCard low reader v = (r, v1)" by force
  have "n < resetReopenAttempts \<Longrightarrow> reopen_from (n + 1) high reader (abs (a_sleep low d v1))
      = onto abs (reopen_from (n + 1) low reader (a_sleep low d v1))" for d
    by (rule less) simp
  then show ?case
    by (cases r) (auto simp: reopen_from.simps [of n] connectCard_commutes r op_commutes not_le)
qed

lemma transmitUID_from_commutes: "transmitUID_from n high c (abs v) = onto abs (transmitUID_from n low c v)"
proof (induction "uidReadAttempts - n" arbitrary: n v rule: less_induct)
  case less
  obtain r v1 where r: "a_transmit low c uidAPDU 64 v = (r, v1)" by force
  obtain u fin x where cl: "classify r = (u, fin, x)" by (metis surj_pair)
  have "n < uidReadAttempts \<Longrightarrow> transmitUID_from (n + 1) high c (abs (a_sleep low d v1))
      = onto abs (transmitUID_from (n + 1) low c (a_sleep low d v1))" for d
    by (rule less) simp
  then show ?case
    by (auto simp: transmitUID_from.simps [of n] uidExchange_def r cl op_commutes not_le)
qed

lemma insist_commutes: "insist_from n high c reader (abs v) = onto abs (insist_from n low c reader v)"
proof (induction "uidReadRounds - n" arbitrary: n c v rule: less_induct)
  case less
  obtain u fin v1 where t: "transmitUID_from 1 low c v = ((u, fin), v1)" by (metis surj_pair)
  obtain q v2 where o: "reopen_from 1 low reader (a_sleep low resetReopenSettle (snd (a_disconnect low c ResetCard v1))) = (q, v2)" by force
  have "n < uidReadRounds \<Longrightarrow> insist_from (n + 1) high c' reader (abs v2)
      = onto abs (insist_from (n + 1) low c' reader v2)" for c'
    by (rule less) simp
  then show ?case
    by (cases q) (auto simp: insist_from.simps [of n] transmitUID_def transmitUID_from_commutes t reopenCardAfterReset_def
        reopen_commutes op_commutes o not_le simp del: One_nat_def)
qed

lemma attributes_commute:
  "readVendorSerial high c (abs v) = onto abs (readVendorSerial low c v)"
  "readChannelID high c (abs v) = onto abs (readChannelID low c v)"
  by (simp_all add: readVendorSerial_def readChannelID_def op_commutes Let_def split: prod.split sum.split)

lemma pinning_commutes: "pinning n high live (abs v) = abs (pinning n low live v)"
  by (cases live) (induction n arbitrary: v; simp add: op_commutes)+

lemma release_commutes: "release high live (abs v) = abs (release low live v)"
  by (simp add: release_def op_commutes split: option.split)

end

section \<open>The probe\<close>

locale probe_refinement = card_refinement "wa_cards low" "wa_cards high" abs
  for low :: "'v watch_api" and high :: "'w watch_api" and abs :: "'v \<Rightarrow> 'w" +
  assumes look_commutes: "wa_look high (abs v) = onto abs (wa_look low v)"
    and same_upper: "wa_upper high = wa_upper low"
begin

lemma snapshot_commutes: "snapshot_now (wa_look high) root (abs v) = onto abs (snapshot_now (wa_look low) root v)"
  by (simp add: snapshot_now_def look_commutes split: prod.split)

lemma read_unit_commutes: "read_unit (wa_cards high) (wa_look high) reader root usb c (abs v)
    = onto abs (read_unit (wa_cards low) (wa_look low) reader root usb c v)"
  by (simp add: read_unit_def attributes_commute look_commutes split: prod.split)

lemma pin_port_commutes: "pin_port (wa_cards high) (wa_look high) up reader root before claims live (abs v)
    = onto abs (pin_port (wa_cards low) (wa_look low) up reader root before claims live v)"
  by (simp add: pin_port_def pinning_commutes snapshot_commutes look_commutes split: prod.split)

lemma probe_commutes:
  "probeReaderCard (wa_cards high) (wa_look high) up reader root usb claims remembered (abs v)
    = onto abs (probeReaderCard (wa_cards low) (wa_look low) up reader root usb claims remembered v)"
proof -
  let ?known = "f_serial remembered \<noteq> [] \<or> f_port remembered \<noteq> []"
  obtain b v1 where b: "(if usb \<and> \<not> ?known then snapshot_now (wa_look low) root v else (None, v)) = (b, v1)" by force
  then have b': "(if usb \<and> \<not> ?known then snapshot_now (wa_look high) root (abs v) else (None, abs v)) = (b, abs v1)"
    by (auto simp: snapshot_commutes split: if_splits)
  obtain q v2 where o: "openCard (wa_cards low) reader v1 = (q, v2)" by force
  then have o': "openCard (wa_cards high) reader (abs v1) = (q, abs v2)"
    by (simp add: openCard_def openCard_from_commutes)
  show ?thesis
  proof (cases q)
    case (Inl e)
    show ?thesis unfolding probeReaderCard_def Let_def b b' prod.case o o' Inl sum.case by simp
  next
    case (Inr c)
    obtain serial port v3 where u: "(if ?known then ((f_serial remembered, f_port remembered), v2)
        else read_unit (wa_cards low) (wa_look low) reader root usb c v2) = ((serial, port), v3)" by (metis surj_pair)
    then have u': "(if ?known then ((f_serial remembered, f_port remembered), abs v2)
        else read_unit (wa_cards high) (wa_look high) reader root usb c (abs v2)) = ((serial, port), abs v3)"
      by (auto simp: read_unit_commutes split: if_splits)
    obtain uid protocol live v4 where i: "insistUID (wa_cards low) c reader v3 = ((uid, protocol, live), v4)"
      by (metis surj_pair)
    then have i': "insistUID (wa_cards high) c reader (abs v3) = ((uid, protocol, live), abs v4)"
      by (simp add: insistUID_def insist_commutes)
    obtain port' v5 where p: "(if usb \<and> \<not> ?known \<and> serial = [] \<and> port = []
        then pin_port (wa_cards low) (wa_look low) up reader root b claims live v4 else (port, v4)) = (port', v5)" by force
    then have p': "(if usb \<and> \<not> ?known \<and> serial = [] \<and> port = []
        then pin_port (wa_cards high) (wa_look high) up reader root b claims live (abs v4) else (port, abs v4)) = (port', abs v5)"
      by (auto simp: pin_port_commutes split: if_splits)
    show ?thesis unfolding probeReaderCard_def Let_def b b' prod.case o o' Inr sum.case u u' i i' p p'
      by (simp add: release_commutes)
  qed
qed

lemma inventory_commutes: "identify_all high env sts reg (abs v) = onto abs (identify_all low env sts reg v)"
proof (induction sts arbitrary: reg v)
  case (Cons st sts)
  have one: "identify_reader high env st reg (abs v)
      = (case identify_reader low env st reg v of (info, reg, v) \<Rightarrow> (info, reg, abs v))"
    by (simp add: identify_reader_def probe_commutes look_commutes same_upper Let_def split: prod.split)
  show ?case by (simp add: one Cons.IH split: prod.split)
qed simp

end

section \<open>The log is a ghost\<close>

interpretation beside_cards: card_refinement "beside api" api fst for api
  by unfold_locales (auto simp: beside_def split: prod.split)

interpretation logged_probe: probe_refinement "logged_watch api" api fst for api
  by unfold_locales (auto simp: logged_watch_def beside_def split: prod.split)

end
