(* ===== verification/Inventory.thy ===== *)
theory Inventory
  imports WatchLog Ghost
begin

text \<open>
  Properties of single events and of the startup inventory (\<open>readers.go\<close>): what an insertion event
  carries, that the inventory reports what the watch loop will report, and that no two readers of an
  inventory share a port.
\<close>

section \<open>Random UIDs never get through\<close>

lemma classify_not_random: "classify r = (uid, fin, x) \<Longrightarrow> \<not> isRandomUID uid"
  by (auto simp: classify_def Let_def isRandomUID_def split: sum.splits if_splits)

lemma transmitUID_not_random: "\<not> isRandomUID (fst (fst (transmitUID_from n api c w)))"
proof (induction "uidReadAttempts - n" arbitrary: n w rule: less_induct)
  case less
  obtain q w1 where q: "a_transmit api c uidAPDU 64 w = (q, w1)" by force
  obtain u fin x where cl: "classify q = (u, fin, x)" by (metis surj_pair)
  have next_try: "\<not> isRandomUID (fst (fst (transmitUID_from (Suc n) api c v)))" if "n < uidReadAttempts" for v
    using less.hyps [of "Suc n" v] that by simp
  show ?case
    using classify_not_random [OF cl] next_try
    by (auto simp: transmitUID_from.simps [of n] uidExchange_def q cl isRandomUID_def not_le)
qed

lemma not_random_nil: "\<not> isRandomUID []"
  by (simp add: isRandomUID_def)

lemma insist_not_random: "\<not> isRandomUID (fst (fst (insist_from n api c reader w)))"
proof (induction "uidReadRounds - n" arbitrary: n c w rule: less_induct)
  case less
  obtain u fin w1 where t: "transmitUID_from 1 api c w = ((u, fin), w1)" by (metis surj_pair)
  have u: "\<not> isRandomUID u" using transmitUID_not_random [of 1 api c w] by (simp add: t del: One_nat_def)
  have next_round: "\<not> isRandomUID (fst (fst (insist_from (n + 1) api c' reader v)))" if "n < uidReadRounds" for c' v
    using less.hyps [of "n + 1" c' v] that by simp
  obtain q w2 where o: "reopenCardAfterReset api reader (snd (a_disconnect api c ResetCard w1)) = (q, w2)" by force
  show ?case using u next_round
    by (cases q) (auto simp: insist_from.simps [of n] transmitUID_def t o not_le not_random_nil
        simp del: One_nat_def)
qed

lemma probe_not_random:
  "\<not> isRandomUID (f_uid (fst (probeReaderCard api look up reader root usb claims remembered w)))"
proof -
  let ?known = "f_serial remembered \<noteq> [] \<or> f_port remembered \<noteq> []"
  obtain b w1 where b: "(if usb \<and> \<not> ?known then snapshot_now look root w else (None, w)) = (b, w1)" by force
  obtain q w2 where o: "openCard api reader w1 = (q, w2)" by force
  show ?thesis
  proof (cases q)
    case (Inl e)
    show ?thesis unfolding probeReaderCard_def Let_def b prod.case o Inl sum.case by (simp add: not_random_nil)
  next
    case (Inr c)
    obtain serial port w3 where u: "(if ?known then ((f_serial remembered, f_port remembered), w2)
        else read_unit api look reader root usb c w2) = ((serial, port), w3)" by (metis surj_pair)
    obtain uid protocol live w4 where i: "insistUID api c reader w3 = ((uid, protocol, live), w4)" by (metis surj_pair)
    obtain port' w5 where p: "(if usb \<and> \<not> ?known \<and> serial = [] \<and> port = []
        then pin_port api look up reader root b claims live w4 else (port, w4)) = (port', w5)" by force
    have "\<not> isRandomUID uid" using insist_not_random [of 1 api c reader w3] i by (simp add: insistUID_def del: One_nat_def)
    then show ?thesis unfolding probeReaderCard_def Let_def b prod.case o Inr sum.case u i p by simp
  qed
qed

lemma adopt_uid: "f_uid (fst (adopt r reader fresh)) = f_uid fresh" "f_protocol (fst (adopt r reader fresh)) = f_protocol fresh"
  by (simp_all add: adopt_def Let_def)

text \<open>Every insertion event identifies a card: it carries a UID that is not random, the btag of exactly
  that UID and the type of the card's answer to reset, and the reader tag of the very serial and port it
  reports.\<close>

theorem insertion_identifies:
  assumes "e \<in> set (state_events api env st tr w)" "ev_Kind e = KindInsert"
  shows "\<exists>crd. ev_Card e = Some crd \<and> card_UID crd \<noteq> [] \<and> \<not> isRandomUID (card_UID crd)
    \<and> card_Type crd = DetectType (rs_atr st) \<and> card_ID crd = Btag (card_Type crd) (card_UID crd)
    \<and> ev_Reader e = rs_reader st
    \<and> ev_ReaderTag e = ReaderTagWithMachine (ev_Reader e) (ev_ReaderSerial e) (ev_ReaderPort e) (env_machine env)"
proof -
  have "\<not> isRandomUID (f_uid (probed_facts api env st tr w))"
    by (simp add: probed_facts_def adopt_uid probe_not_random)
  then show ?thesis using assms
    by (auto simp: state_events_def insert_event_def remove_event_def identify_def Let_def KindInsert_def
        KindRemove_def split: if_splits)
qed

section \<open>The inventory\<close>

lemma identify_reader_facts:
  "state_present st \<Longrightarrow> fst (identify_reader api env st (tr_units tr) w) =
     reader_info (env_machine env) st (f_serial (probed_facts api env st tr w)) (f_port (probed_facts api env st tr w))
       (Some (identify st (probed_facts api env st tr w)))"
  by (simp add: identify_reader_def probed_facts_def split: prod.split)

text \<open>The event a line of the report announces.\<close>

definition announced :: "ReaderInfo \<Rightarrow> Event list" where
  "announced info =
     (case ri_Card info of
        None \<Rightarrow> []
      | Some crd \<Rightarrow>
          if card_Source crd \<noteq> ''uid'' then []
          else [\<lparr>ev_Kind = KindInsert, ev_Card = Some crd, ev_Reader = ri_Reader info, ev_ReaderTag = ri_Tag info,
                 ev_ReaderSerial = ri_Serial info, ev_ReaderPort = ri_Port info\<rparr>])"

text \<open>A channel with room, that is no part of what a probe meets.\<close>

definition emits_only :: "'w watch_api \<Rightarrow> bool" where
  "emits_only api \<longleftrightarrow> (\<forall>e w. wa_emit api e w = (True, w))"

lemma logged_emit: "emits_only api \<Longrightarrow> wa_emit (logged_watch api) e (w, log) = (True, (w, log @ [Sent e]))"
  by (simp add: emits_only_def logged_watch_def)

lemma logged_probe_same:
  assumes "probeReaderCard (wa_cards api) (wa_look api) up reader root usb claims remembered w = (facts, v)"
  shows "probeReaderCard (wa_cards (logged_watch api)) (wa_look (logged_watch api)) up reader root usb claims remembered (w, log)
    = (facts, (v, log))"
proof -
  let ?low = "probeReaderCard (wa_cards (logged_watch api)) (wa_look (logged_watch api)) up reader root usb claims remembered (w, log)"
  have "onto fst ?low = (facts, v)" using logged_probe.probe_commutes [of api _ _ _ _ _ _ "(w, log)"] assms by simp
  moreover have "snd (snd ?low) = log" using looked.probe_keeps [of api _ _ _ _ _ _ "(w, log)"] by simp
  ultimately show ?thesis by (metis fst_map_prod prod.collapse snd_map_prod fst_conv snd_conv)
qed

lemma logged_upper: "wa_upper (logged_watch api) = wa_upper api"
  by (simp add: logged_watch_def)

lemma inventory_agrees_step:
  assumes "identify_reader api env st (tr_units tr) w = (info, reg, v)" "emits_only api" "\<not> was_present tr (rs_reader st)"
    and "\<not> env_useUSBPath env \<or> state_present st"
  shows "\<exists>tr'. poll_state (logged_watch api) env st tr (w, log) = (True, tr', (v, log @ map Sent (announced info)))
    \<and> tr_units tr' = reg \<and> tr_present tr' = (tr_present tr)(rs_reader st \<mapsto> state_present st)"
proof (cases "state_present st")
  case True
  obtain fresh v1 where p: "probeReaderCard (wa_cards api) (wa_look api) (wa_upper api) (rs_reader st)
      (env_sysfsRoot env) (env_useUSBPath env) (reg_byPort (tr_units tr)) (cached (tr_units tr) (rs_reader st)) w
    = (fresh, v1)" by force
  obtain facts units where a: "adopt (tr_units tr) (rs_reader st) fresh = (facts, units)" by force
  have out: "v = v1" "reg = units"
    "info = reader_info (env_machine env) st (f_serial facts) (f_port facts) (Some (identify st facts))"
    using assms(1) True by (simp_all add: identify_reader_def p a)
  then have "announced info = (if card_Source (identify st facts) \<noteq> ''uid'' then []
      else [insert_event (env_machine env) st facts])"
    by (simp add: announced_def reader_info_def insert_event_def)
  then show ?thesis using True assms(3)
    by (simp add: poll_state_def poll_insert_def logged_upper logged_probe_same [OF p] a logged_emit [OF assms(2)] out
        note_state_def Let_def)
next
  case False
  then show ?thesis using assms
    by (auto simp: poll_state_def identify_reader_def reader_info_def announced_def note_state_def)
qed

lemma inventory_agrees_all:
  assumes "identify_all api env sts (tr_units tr) w = (infos, v)" "emits_only api" "distinct (map rs_reader sts)"
    and "\<forall>st \<in> set sts. \<not> was_present tr (rs_reader st)" "\<not> env_useUSBPath env \<or> (\<forall>st \<in> set sts. state_present st)"
  shows "\<exists>tr'. poll_states (logged_watch api) env sts tr (w, log) =
      (True, tr', (v, log @ map Sent (concat (map announced infos))))
    \<and> dom (tr_present tr') = dom (tr_present tr) \<union> rs_reader ` set sts"
  using assms
proof (induction sts arbitrary: tr w infos log)
  case (Cons st sts)
  obtain info reg w1 where i: "identify_reader api env st (tr_units tr) w = (info, reg, w1)" by (metis surj_pair)
  obtain rest w2 where r: "identify_all api env sts reg w1 = (rest, w2)" by force
  have out: "infos = info # rest" "v = w2" using Cons.prems(1) by (simp_all add: i r)
  obtain tr1 where one: "poll_state (logged_watch api) env st tr (w, log) = (True, tr1, (w1, log @ map Sent (announced info)))"
    "tr_units tr1 = reg" "tr_present tr1 = (tr_present tr)(rs_reader st \<mapsto> state_present st)"
    using inventory_agrees_step [OF i Cons.prems(2), of log] Cons.prems(4,5) by auto
  have "was_present tr1 (rs_reader x) = was_present tr (rs_reader x)" if "x \<in> set sts" for x
  proof -
    have "rs_reader x \<in> rs_reader ` set sts" using that by (rule imageI)
    then have "rs_reader x \<noteq> rs_reader st" using Cons.prems(3) by auto
    then show ?thesis by (simp add: was_present_def one(3))
  qed
  then have "\<exists>tr'. poll_states (logged_watch api) env sts tr1 (w1, log @ map Sent (announced info)) =
      (True, tr', (v, (log @ map Sent (announced info)) @ map Sent (concat (map announced rest))))
    \<and> dom (tr_present tr') = dom (tr_present tr1) \<union> rs_reader ` set sts"
    using Cons.prems(2-5) r out(2) by (intro Cons.IH) (auto simp: one(2))
  then show ?case by (auto simp: one(1,3) out(1))
qed simp


lemma identify_reader_registry:
  assumes "identify_reader api env st reg w = (info, reg', w')" "reg_inv reg"
  shows "reg_inv reg' \<and> (\<forall>q. q \<noteq> rs_reader st \<longrightarrow> cached reg' q = cached reg q) \<and> ri_Reader info = rs_reader st
    \<and> (ri_Port info = [] \<or> ri_Port info = f_port (cached reg' (rs_reader st)))"
proof -
  have adopted: "reg_inv r' \<and> (\<forall>q. q \<noteq> rs_reader st \<longrightarrow> cached r' q = cached reg q) \<and> f = cached r' (rs_reader st)"
    if "adopt reg (rs_reader st) fresh = (f, r')" for fresh f r'
    using reg_inv_adopt [OF assms(2), of "rs_reader st" fresh] cached_adopt [of reg "rs_reader st" fresh] that by simp
  show ?thesis
    using assms adopted
    by (auto simp: identify_reader_def reader_info_def Let_def split: prod.splits if_splits)
qed

lemma identify_all_ports:
  "identify_all api env sts reg w = (infos, w') \<Longrightarrow> distinct (map rs_reader sts) \<Longrightarrow> reg_inv reg \<Longrightarrow>
   (\<forall>info \<in> set infos. \<forall>q. ri_Port info \<noteq> [] \<longrightarrow> q \<notin> rs_reader ` set sts \<longrightarrow> f_port (cached reg q) \<noteq> ri_Port info)
   \<and> distinct (filter (\<lambda>p. p \<noteq> []) (map ri_Port infos))"
proof (induction sts arbitrary: reg w infos w')
  case (Cons st sts)
  obtain info reg1 w1 where i: "identify_reader api env st reg w = (info, reg1, w1)" by (metis surj_pair)
  obtain rest w2 where r: "identify_all api env sts reg1 w1 = (rest, w2)" by force
  have infos: "infos = info # rest" using Cons.prems(1) by (simp add: i r)
  have one: "reg_inv reg1" "\<And>q. q \<noteq> rs_reader st \<Longrightarrow> cached reg1 q = cached reg q"
    "ri_Port info = [] \<or> ri_Port info = f_port (cached reg1 (rs_reader st))"
    using identify_reader_registry [OF i Cons.prems(3)] by auto
  have new: "rs_reader st \<notin> rs_reader ` set sts" and dist: "distinct (map rs_reader sts)" using Cons.prems(2) by auto
  have later: "\<And>info' q. info' \<in> set rest \<Longrightarrow> ri_Port info' \<noteq> [] \<Longrightarrow> q \<notin> rs_reader ` set sts \<Longrightarrow>
      f_port (cached reg1 q) \<noteq> ri_Port info'" "distinct (filter (\<lambda>p. p \<noteq> []) (map ri_Port rest))"
    using Cons.IH [OF r dist one(1)] by auto
  have mine: "f_port (cached reg q) \<noteq> ri_Port info" if "ri_Port info \<noteq> []" "q \<noteq> rs_reader st" for q
  proof
    assume "f_port (cached reg q) = ri_Port info"
    then have "f_port (cached reg1 q) = ri_Port info" "f_port (cached reg1 (rs_reader st)) = ri_Port info"
      using one(2) [OF that(2)] one(3) that(1) by auto
    then show False
      using reg_inv_owner [OF one(1), of q] reg_inv_owner [OF one(1), of "rs_reader st"] that by simp
  qed
  have "ri_Port info \<notin> ri_Port ` set rest" if "ri_Port info \<noteq> []"
  proof
    assume "ri_Port info \<in> ri_Port ` set rest"
    then obtain x where x: "x \<in> set rest" "ri_Port x = ri_Port info" by auto
    with later(1) [OF x(1) _ new] one(3) that show False by simp
  qed
  then have "distinct (filter (\<lambda>p. p \<noteq> []) (map ri_Port infos))" using later(2) by (auto simp: infos)
  moreover have "f_port (cached reg q) \<noteq> ri_Port info'"
    if "info' \<in> set infos" "ri_Port info' \<noteq> []" "q \<notin> rs_reader ` set (st # sts)" for info' q
  proof (cases "info' = info")
    case True
    with that mine show ?thesis by auto
  next
    case False
    then have "info' \<in> set rest" using that(1) by (simp add: infos)
    from later(1) [OF this that(2), of q] one(2) [of q] that(3) show ?thesis by simp
  qed
  ultimately show ?case by blast
qed simp

lemma distinct_filter_nth:
  "distinct (filter P ys) \<Longrightarrow> i < length ys \<Longrightarrow> j < length ys \<Longrightarrow> i \<noteq> j \<Longrightarrow> P (ys ! i) \<Longrightarrow> ys ! i \<noteq> ys ! j"
proof (induction ys arbitrary: i j)
  case (Cons y ys)
  have mem: "k < length ys \<Longrightarrow> P (ys ! k) \<Longrightarrow> ys ! k \<in> set (filter P ys)" for k by simp
  show ?case
  proof (cases i)
    case 0
    with Cons.prems obtain k where "j = Suc k" "k < length ys" by (cases j) auto
    with 0 Cons.prems mem [of k] show ?thesis by (cases "ys ! k = y") auto
  next
    case (Suc m)
    with Cons.prems mem [of m] Cons.IH [of m] show ?thesis by (cases j) (auto split: if_splits)
  qed
qed simp

text \<open>C23. No two readers of an inventory report the same USB port, whatever their probes and the device scan
  resolve.\<close>

theorem inventory_ports_distinct:
  assumes "identify_all api env sts newUnitRegistry w = (infos, w')" "distinct (map rs_reader sts)"
    and "i < length infos" "j < length infos" "i \<noteq> j" "ri_Port (infos ! i) \<noteq> []"
  shows "ri_Port (infos ! i) \<noteq> ri_Port (infos ! j)"
  using distinct_filter_nth [of "\<lambda>p. p \<noteq> []" "map ri_Port infos" i j]
    identify_all_ports [OF assms(1,2) reg_inv_new] assms(3-6) by simp

text \<open>Without a card only the port can be known: the reported tag is that of the port or of the model, also
  for a reader whose insertions will carry a serial.\<close>

lemma cardless_tag_has_no_serial:
  assumes "identify_reader api env st reg w = (info, reg', w')" "\<not> state_present st"
  shows "ri_Serial info = [] \<and> ri_Card info = None
    \<and> ri_Tag info = ReaderTagWithMachine (rs_reader st) [] (ri_Port info) (env_machine env)"
  using assms by (auto simp: identify_reader_def reader_info_def Let_def split: prod.splits if_splits)

section \<open>Witnesses\<close>

definition sample_watch :: "nat watch_api" where
  "sample_watch = \<lparr>
     wa_cards = sample_api, wa_look = (\<lambda>n. (Map.empty, n)), wa_upper = (\<lambda>s. s),
     wa_states = (\<lambda>n. (Inr [], n)), wa_wait = (\<lambda>t n. (None, n)), wa_emit = (\<lambda>e n. (True, n)),
     wa_pause = (\<lambda>t n. (True, n)), wa_done = (\<lambda>n. False), wa_order = (\<lambda>n keys. keys)\<rparr>"

definition sample_env :: watchEnv where
  "sample_env = \<lparr>env_socketPath = [], env_sysfsRoot = ''/s'', env_useUSBPath = False, env_machine = []\<rparr>"

definition sample_tracking :: reader_tracking where
  "sample_tracking = newTracking\<lparr>tr_present := [''R'' \<mapsto> True]\<rparr>"

definition sample_state :: "string \<Rightarrow> u32 \<Rightarrow> reader_state" where
  "sample_state reader flags =
     \<lparr>rs_reader = reader, rs_eventCounter = 1, rs_state = flags, rs_atr = [], rs_protocol = 0\<rparr>"

lemma sample_presence [simp]:
  "state_present (sample_state reader 4)" "\<not> state_present (sample_state reader 0)"
  "rs_reader (sample_state reader flags) = reader"
  by (simp_all add: state_present_def sample_state_def ReaderPresent_def)

theorem state_reported_witness:
  "[Sent (remove_event ''R'')] = [] @ map Sent (state_events (logged_watch sample_watch) sample_env (sample_state ''R'' 0) sample_tracking (0, []))"
proof -
  have "poll_state (logged_watch sample_watch) sample_env (sample_state ''R'' 0) sample_tracking (0, []) =
    (True, note_state (sample_state ''R'' 0) sample_tracking, (0, [Sent (remove_event ''R'')]))"
    by (simp add: poll_state_def was_present_def sample_tracking_def logged_watch_def sample_watch_def)
  from conjunct1 [OF state_reported [OF this]] show ?thesis .
qed

lemma sample_turn:
  "poll_snapshot (logged_watch sample_watch) sample_env [] sample_tracking (0, log) =
     (True, drop_reader ''R'' sample_tracking, (0, log @ [Sent (remove_event ''R'')]))"
proof -
  have "range_keys (logged_watch sample_watch) [''R'' \<mapsto> True] (0, log) = [''R'']"
    by (simp add: range_keys_def logged_watch_def sample_watch_def)
  moreover have "wa_emit (logged_watch sample_watch) e (0, log) = (True, (0, log @ [Sent e]))" for e
    by (simp add: logged_watch_def sample_watch_def)
  ultimately show ?thesis by (simp add: poll_snapshot_def sample_tracking_def was_present_def)
qed

theorem snapshot_reported_witness:
  "tr_present (drop_reader ''R'' sample_tracking) ''R'' = map_option state_present (state_of [] ''R'')"
proof -
  have "finite (dom (tr_present sample_tracking))" "dom (tr_counters sample_tracking) \<subseteq> dom (tr_present sample_tracking)"
    by (simp_all add: sample_tracking_def newTracking_def)
  from snapshot_reported [OF sample_turn _ this] show ?thesis by auto
qed

theorem event_stream_ok_witness:
  "stream_ok ''R'' True [Seen [], Sent (remove_event ''R'')]"
proof -
  have "poll_for 1 (logged_watch sample_watch) sample_env sample_tracking (0, []) =
    (Again, drop_reader ''R'' sample_tracking, (0, [Seen [], Sent (remove_event ''R'')]))"
    using sample_turn [of "[Seen []]"] by (simp add: poll_turn_def) (simp add: logged_watch_def sample_watch_def)
  moreover have "unique_readers sample_watch" by (simp add: unique_readers_def sample_watch_def)
  moreover have "was_present sample_tracking ''R''" by (simp add: was_present_def sample_tracking_def)
  ultimately show ?thesis
    using event_stream_ok [of 1 sample_watch sample_env sample_tracking 0 "drop_reader ''R'' sample_tracking" 0 _ "''R''"]
    by (simp add: sample_tracking_def newTracking_def)
qed

theorem reconnect_is_silent_witness:
  "\<exists>tr'. poll_snapshot sample_watch sample_env [sample_state ''R'' 4] (fresh_session sample_tracking) 0 = (True, tr', 0)"
  by (rule reconnect_is_silent) (simp_all add: was_present_def sample_tracking_def newTracking_def)


lemma sample_identity:
  "fst (probeReaderCard sample_api look up ''R'' root False claims zero_facts 1) =
     \<lparr>f_serial = [], f_port = [], f_uid = [0x04, 0xA1], f_protocol = 2\<rparr>"
proof -
  have "ProtocolRaw \<noteq> ProtocolAny" by (simp add: ProtocolRaw_def ProtocolAny_def ProtocolT0_def ProtocolT1_def)
  then have o: "openCard sample_api ''R'' 1 = (Inr sample_card, 1)"
    by (simp add: openCard_def openCard_from.simps [of "Suc 0"] connectCard_def sample_api_def)
  have "insistUID sample_api sample_card ''R'' 1 = ((if isRandomUID [0x04, 0xA1] then [] else [0x04, 0xA1],
      ca_protocol sample_card, Some sample_card), 1)"
    by (simp add: insistUID_def insist_from.simps [of "Suc 0"] transmitUID_def transmitUID_from.simps [of "Suc 0"]
        uidExchange_def classify_def isRandomUID_def sample_api_def)
  then have i: "insistUID sample_api sample_card ''R'' 1 = (([0x04, 0xA1], 2, Some sample_card), 1)"
    by (simp add: isRandomUID_def sample_card_def)
  have "TrimSpace [] = []" by code_simp
  then have u: "read_unit sample_api look ''R'' root False sample_card 1 = (([], []), 1)"
    by (simp add: read_unit_def readVendorSerial_def sample_api_def Trim_def string_of_def)
  show ?thesis by (simp add: probeReaderCard_def o i u del: One_nat_def)
qed

lemma sample_facts:
  "probed_facts sample_watch sample_env (sample_state ''R'' 4) newTracking 1 =
     \<lparr>f_serial = [], f_port = [], f_uid = [0x04, 0xA1], f_protocol = 2\<rparr>"
  using sample_identity [of "wa_look sample_watch" "wa_upper sample_watch" "env_sysfsRoot sample_env" "reg_byPort newUnitRegistry"]
  by (simp add: probed_facts_def newTracking_def sample_watch_def sample_env_def newUnitRegistry_def adopt_def Let_def
      del: One_nat_def)

abbreviation sample_uid_facts :: reader_facts where
  "sample_uid_facts \<equiv> \<lparr>f_serial = [], f_port = [], f_uid = [0x04, 0xA1], f_protocol = 2\<rparr>"

lemma sample_insertion:
  "state_events sample_watch sample_env (sample_state ''R'' 4) newTracking 1 =
     [insert_event [] (sample_state ''R'' 4) sample_uid_facts]"
proof -
  have "wants_insert newTracking (sample_state ''R'' 4)"
    by (simp add: wants_insert_def was_present_def newTracking_def)
  moreover have "env_machine sample_env = []" by (simp add: sample_env_def)
  ultimately show ?thesis by (simp add: state_events_def sample_facts del: One_nat_def)
qed

theorem insertion_identifies_witness:
  "\<exists>crd :: Card. card_UID crd \<noteq> [] \<and> card_ID crd = Btag (card_Type crd) (card_UID crd)"
proof -
  have e: "insert_event [] (sample_state ''R'' 4) sample_uid_facts
      \<in> set (state_events sample_watch sample_env (sample_state ''R'' 4) newTracking 1)"
    unfolding sample_insertion by simp
  have "ev_Kind (insert_event [] (sample_state ''R'' 4) sample_uid_facts) = KindInsert" by simp
  from insertion_identifies [OF e this] show ?thesis by blast
qed


definition single_tree :: tree where
  "single_tree = map_of
     [([''/s''], Dir [''1'', ''1:0'']), ([''/s'', ''1''], Dir []), ([''/s'', ''1:0'', ''bInterfaceClass''], File ''0b''),
      ([''/s'', ''1'', ''product''], File ''R''), ([''/s'', ''1'', ''devpath''], File ''4'')]"

lemma single_scan:
  "usbPortPathByReader (\<lambda>s. s) single_tree ''/s'' ''R 00'' None None Map.empty = (''4'', Fine)"
  "usbPortPathByReader (\<lambda>s. s) single_tree ''/s'' ''R 01'' None None [''4'' \<mapsto> ''R 00''] = ([], PortOwned ''4'')"
  by code_simp+

theorem inventory_ports_distinct_witness:
  "\<exists>infos :: ReaderInfo list. ri_Port (infos ! 0) = ''4'' \<and> ri_Port (infos ! 0) \<noteq> ri_Port (infos ! 1)"
proof -
  let ?api = "sample_watch\<lparr>wa_look := (\<lambda>n. (single_tree, n))\<rparr>"
  let ?env = "sample_env\<lparr>env_useUSBPath := True\<rparr>"
  let ?sts = "[sample_state ''R 00'' 0, sample_state ''R 01'' 0]"
  let ?infos = "[reader_info [] (sample_state ''R 00'' 0) [] ''4'' None, reader_info [] (sample_state ''R 01'' 0) [] [] None]"
  have claim: "adopt newUnitRegistry ''R 00'' (zero_facts\<lparr>f_port := ''4''\<rparr>) = (zero_facts\<lparr>f_port := ''4''\<rparr>,
      \<lparr>reg_facts = [''R 00'' \<mapsto> zero_facts\<lparr>f_port := ''4''\<rparr>], reg_byPort = [''4'' \<mapsto> ''R 00'']\<rparr>)"
    by (simp add: adopt_def newUnitRegistry_def cached_def foreign_owner_def zero_facts_def Let_def)
  have "identify_all ?api ?env ?sts newUnitRegistry 0 = (?infos, 0)"
  proof -
    have "reg_byPort newUnitRegistry = Map.empty" by (simp add: newUnitRegistry_def)
    then show ?thesis
      by (simp add: identify_reader_def claim single_scan sample_watch_def sample_env_def Let_def)
  qed
  from inventory_ports_distinct [OF this, of 0 1] show ?thesis
    by (intro exI [of _ ?infos]) (simp add: reader_info_def)
qed

end
