(* ===== verification/Session.thy ===== *)
theory Session
  imports Inventory
begin

text \<open>
  \<open>Watch\<close> of \<open>pcscid.go\<close> as one session: dialling pcscd, the outer loop with its reconnects over the
  loop of theory \<open>Watch\<close>, and the events its channel delivers. The log of a session is the one of
  \<open>logged_watch\<close>, kept across connections; \<open>extends\<close> is the relation between two logs of a session.
\<close>

section \<open>The session\<close>

definition logged_host :: "'w watch_host \<Rightarrow> ('w \<times> obs list) watch_host" where
  "logged_host host = \<lparr>
     wh_dial = (\<lambda>path (w, l). case wh_dial host path w of (r, w) \<Rightarrow> (r, (w, l))),
     wh_close = (\<lambda>cl (w, l). (wh_close host cl w, l)),
     wh_client = (\<lambda>cl. logged_watch (wh_client host cl)),
     wh_done = (\<lambda>(w, l). wh_done host w),
     wh_pause = (\<lambda>t (w, l). case wh_pause host t w of (r, w) \<Rightarrow> (r, (w, l))),
     wh_arm = (\<lambda>cl (w, l). (wh_arm host cl w, l)),
     wh_disarm = (\<lambda>cl (w, l). (wh_disarm host cl w, l))\<rparr>"

text \<open>The outcome of \<open>Watch\<close>: an error, or the state and the log in which the channel is closed;
  \<open>None\<close> while it is open.\<close>

definition Watch :: "'w watch_host \<Rightarrow> watchEnv \<Rightarrow> 'w \<Rightarrow> perror + ('w \<times> obs list) option" where
  "Watch host env w =
     (case wh_dial host (env_socketPath env) w of
        (Inl err, w) \<Rightarrow> Inl err
      | (Inr cl, w) \<Rightarrow> Inr (watchLoop (logged_host host) env cl (w, [])))"

fun delivered :: "obs list \<Rightarrow> Event list" where
  "delivered [] = []"
| "delivered (Seen sts # log) = delivered log"
| "delivered (Sent e # log) = e # delivered log"

lemma delivered_append [simp]: "delivered (a @ b) = delivered a @ delivered b"
  by (induction a rule: delivered.induct) simp_all

lemma delivered_sent [simp]: "delivered (map Sent evs) = evs"
  by (induction evs) simp_all

section \<open>What a session may deliver\<close>

text \<open>An insertion names a card by a UID that is not random, carries its btag, and the tag of the very
  unit facts it reports; a removal carries no card.\<close>

definition genuine :: "string \<Rightarrow> Event \<Rightarrow> bool" where
  "genuine machine e \<longleftrightarrow>
     (if ev_Kind e = KindInsert
      then (\<exists>crd. ev_Card e = Some crd \<and> card_UID crd \<noteq> [] \<and> \<not> isRandomUID (card_UID crd)
          \<and> card_Type crd = DetectType (card_ATR crd) \<and> card_ID crd = Btag (card_Type crd) (card_UID crd)
          \<and> card_Reader crd = ev_Reader e \<and> card_Source crd = ''uid'')
        \<and> ev_ReaderTag e = ReaderTagWithMachine (ev_Reader e) (ev_ReaderSerial e) (ev_ReaderPort e) machine
      else ev_Kind e = KindRemove \<and> ev_Card e = None)"

definition extends :: "string \<Rightarrow> obs list \<Rightarrow> obs list \<Rightarrow> bool" where
  "extends machine log log' \<longleftrightarrow> (\<exists>more. log' = log @ more \<and> list_all (genuine machine) (delivered more))"

lemma extends_refl [simp]: "extends machine log log"
  by (simp add: extends_def)

lemma extends_trans [trans]: "extends machine a b \<Longrightarrow> extends machine b c \<Longrightarrow> extends machine a c"
  by (fastforce simp: extends_def)

lemma extends_seen: "extends machine log (log @ [Seen sts])"
  by (simp add: extends_def)

lemma extends_sent: "genuine machine e \<Longrightarrow> extends machine log (log @ [Sent e])"
  by (simp add: extends_def)

lemma genuine_remove: "genuine machine (remove_event q)"
  by (simp add: genuine_def remove_event_def KindRemove_def KindInsert_def)

lemma genuine_insert:
  "f_uid facts \<noteq> [] \<Longrightarrow> \<not> isRandomUID (f_uid facts) \<Longrightarrow> genuine machine (insert_event machine st facts)"
  by (simp add: genuine_def insert_event_def identify_def Let_def)

context event_channel
begin

lemma emit_extends: "genuine machine e \<Longrightarrow> wa_emit api e w = (ok, w') \<Longrightarrow> extends machine (sent w) (sent w')"
  using emit_op [of e w ok w'] by (cases ok) (simp_all add: extends_sent)

lemma poll_insert_extends:
  assumes "poll_insert api env st tr w = (ok, tr', w')"
  shows "extends (env_machine env) (sent w) (sent w')"
proof -
  obtain fresh w1 where p: "probeReaderCard (wa_cards api) (wa_look api) (wa_upper api) (rs_reader st)
      (env_sysfsRoot env) (env_useUSBPath env) (reg_byPort (tr_units tr)) (cached (tr_units tr) (rs_reader st)) w
    = (fresh, w1)" by force
  obtain facts units where a: "adopt (tr_units tr) (rs_reader st) fresh = (facts, units)" by force
  obtain ok1 w2 where e: "wa_emit api (insert_event (env_machine env) st facts) w1 = (ok1, w2)" by force
  have w1: "sent w1 = sent w" using probe_keeps by (metis p snd_conv)
  have uid: "\<not> isRandomUID (f_uid facts)" using probe_not_random adopt_uid(1) by (metis p a fst_conv)
  have src: "card_Source (identify st facts) = (if f_uid facts = [] then ''none'' else ''uid'')"
    by (simp add: identify_def Let_def)
  show ?thesis
  proof (cases "f_uid facts = []")
    case True
    then have "w' = w1" using assms by (auto simp: poll_insert_def p a src Let_def)
    then show ?thesis by (simp add: w1)
  next
    case False
    then have "w' = w2" using assms by (auto simp: poll_insert_def p a src e Let_def)
    with emit_extends [OF genuine_insert [OF False uid] e] show ?thesis by (simp add: w1)
  qed
qed

lemma poll_state_extends:
  assumes "poll_state api env st tr w = (ok, tr', w')"
  shows "extends (env_machine env) (sent w) (sent w')"
proof -
  obtain ok1 tr1 w1 where i: "poll_insert api env st tr w = (ok1, tr1, w1)" by (metis surj_pair)
  obtain ok2 w2 where e: "wa_emit api (remove_event (rs_reader st)) w = (ok2, w2)" by force
  have "w' = w \<or> w' = w1 \<or> w' = w2"
    using assms by (auto simp: poll_state_def i e split: if_splits)
  with poll_insert_extends [OF i] emit_extends [OF genuine_remove e] show ?thesis by auto
qed

lemma poll_states_extends:
  "poll_states api env sts tr w = (ok, tr', w') \<Longrightarrow> extends (env_machine env) (sent w) (sent w')"
proof (induction sts arbitrary: tr w)
  case (Cons st sts)
  obtain ok1 tr1 w1 where p: "poll_state api env st tr w = (ok1, tr1, w1)" by (metis surj_pair)
  note poll_state_extends [OF p]
  also have "extends (env_machine env) (sent w1) (sent w')"
    using Cons.prems Cons.IH [of tr1 w1] by (cases ok1) (simp_all add: p)
  finally show ?case .
qed simp

lemma poll_gone_extends:
  "poll_gone api seen qs tr w = (ok, tr', w') \<Longrightarrow> extends machine (sent w) (sent w')"
proof (induction qs arbitrary: tr w)
  case (Cons q qs)
  obtain ok1 w1 where e: "wa_emit api (remove_event q) w = (ok1, w1)" by force
  show ?case
  proof (cases "\<not> seen q \<and> was_present tr q")
    case True
    note emit_extends [OF genuine_remove e, of machine]
    also have "extends machine (sent w1) (sent w')"
      using True Cons.prems Cons.IH [of "drop_reader q tr" w1] by (cases ok1) (simp_all add: e)
    finally show ?thesis .
  next
    case False
    then show ?thesis using Cons.prems Cons.IH [of tr w] Cons.IH [of "drop_reader q tr" w] by (auto split: if_splits)
  qed
qed simp

lemma poll_turn_extends:
  assumes "poll_turn api env tr w = (t, tr', w')"
  shows "extends (env_machine env) (sent w) (sent w')"
proof -
  obtain r w1 where r: "wa_states api w = (r, w1)" by force
  show ?thesis
  proof (cases r)
    case (Inl err)
    then have "w' = w1" using assms by (simp add: poll_turn_def r)
    then show ?thesis using states_seen [of w] by (simp add: r Inl)
  next
    case (Inr sts)
    obtain ok1 tr1 w2 where p: "poll_states api env sts tr w1 = (ok1, tr1, w2)" by (metis surj_pair)
    obtain ok2 tr2 w3 where g: "poll_gone api (\<lambda>q. q \<in> rs_reader ` set sts) (range_keys api (tr_present tr1) w2) tr1 w2
      = (ok2, tr2, w3)" by (metis surj_pair)
    obtain full w4 where pause: "wa_pause api reconnectDelay w3 = (full, w4)" by force
    obtain e w5 where wait: "wa_wait api waitTick w3 = (e, w5)" by force
    have "sent w4 = sent w3" "sent w5 = sent w3"
      using pause_keeps [of reconnectDelay w3] wait_keeps [of waitTick w3] by (simp_all add: pause wait)
    then have end': "sent w' = sent w2 \<or> sent w' = sent w3"
      using assms by (auto simp: poll_turn_def r Inr poll_snapshot_def p g pause wait split: if_splits option.splits)
    have "extends (env_machine env) (sent w) (sent w1)"
      using states_seen [of w] by (simp add: r Inr extends_seen)
    also note poll_states_extends [OF p]
    also have "extends (env_machine env) (sent w2) (sent w')" using end' poll_gone_extends [OF g] by auto
    finally show ?thesis .
  qed
qed

lemma poll_turns_extends:
  assumes "poll_turns api env tr w = Some (err, tr', w')"
  shows "extends (env_machine env) (sent w) (sent w')"
proof -
  have "a = api \<longrightarrow> extends (env_machine env) (sent w) (sent (snd (snd r)))"
    if "poll_turns a env tr w = Some r" for a env tr w r
  proof (rule poll_turns.raw_induct [where P = "\<lambda>a env tr w r. a = api \<longrightarrow> extends (env_machine env) (sent w) (sent (snd (snd r)))",
        OF _ that], rule impI)
    fix f a env tr w r
    assume IH: "\<And>a env tr w r. f a env tr w = Some r \<Longrightarrow> a = api \<longrightarrow> extends (env_machine env) (sent w) (sent (snd (snd r)))"
      and eq: "(case poll_turn a env tr w of (Again, tr, w) \<Rightarrow> f a env tr w
        | (Return err, tr, w) \<Rightarrow> Some (err, tr, w)) = Some r" and a: "a = api"
    obtain t tr1 w1 where t: "poll_turn api env tr w = (t, tr1, w1)" by (metis surj_pair)
    note poll_turn_extends [OF t]
    also have "extends (env_machine env) (sent w1) (sent (snd (snd r)))"
      using eq IH [of a env tr1 w1 r] by (cases t) (auto simp: a t)
    finally show "extends (env_machine env) (sent w) (sent (snd (snd r)))" .
  qed
  with assms show ?thesis by fastforce
qed

end

section \<open>Connections of one session\<close>

text \<open>The contract of the outer loop: every client it dials is an \<open>event_channel\<close> on the one log, and
  nothing else touches that log.\<close>

locale event_session =
  fixes host :: "'w watch_host" and sent :: "'w \<Rightarrow> obs list"
  assumes client_channel: "event_channel (wh_client host cl) sent"
    and dial_keeps: "sent (snd (wh_dial host path w)) = sent w"
    and close_keeps: "sent (wh_close host cl w) = sent w"
    and delay_keeps: "sent (snd (wh_pause host t w)) = sent w"
    and arm_keeps: "sent (wh_arm host cl w) = sent w"
    and disarm_keeps: "sent (wh_disarm host cl w) = sent w"
begin

lemma redial_keeps:
  assumes "redial host env w = Some (cl, w')"
  shows "sent w' = sent w"
proof -
  have "h = host \<longrightarrow> sent (snd r) = sent w" if "redial h env w = Some r" for h env w r
  proof (rule redial.raw_induct [where P = "\<lambda>h env w r. h = host \<longrightarrow> sent (snd r) = sent w", OF _ that], rule impI)
    fix f h env w r
    assume IH: "\<And>h env w r. f h env w = Some r \<Longrightarrow> h = host \<longrightarrow> sent (snd r) = sent w"
      and eq: "(case wh_pause h reconnectDelay w of (full, w) \<Rightarrow>
          if \<not> full then Some (None, w)
          else (case wh_dial h (env_socketPath env) w of (Inl x, w) \<Rightarrow> f h env w | (Inr cl, w) \<Rightarrow> Some (Some cl, w))) = Some r"
      and h: "h = host"
    obtain full w1 where p: "wh_pause host reconnectDelay w = (full, w1)" by force
    obtain d w2 where d: "wh_dial host (env_socketPath env) w1 = (d, w2)" by force
    have "sent w1 = sent w" "sent w2 = sent w1"
      using delay_keeps [of reconnectDelay w] dial_keeps [of "env_socketPath env" w1] by (simp_all add: p d)
    moreover have "sent (snd r) = sent w1 \<or> sent (snd r) = sent w2"
      using eq IH [of h env w2 r] by (cases d) (auto simp: h p d split: if_splits)
    ultimately show "sent (snd r) = sent w" by auto
  qed
  with assms show ?thesis by fastforce
qed

lemma watch_from_extends:
  assumes "watch_from host env cl tr w = Some w'"
  shows "extends (env_machine env) (sent w) (sent w')"
proof -
  have "h = host \<longrightarrow> extends (env_machine env) (sent w) (sent r)" if "watch_from h env cl tr w = Some r" for h env cl tr w r
  proof (rule watch_from.raw_induct [where P = "\<lambda>h env cl tr w r. h = host \<longrightarrow> extends (env_machine env) (sent w) (sent r)",
        OF _ that], rule impI)
    fix f h env cl tr w r
    assume IH: "\<And>h env cl tr w r. f h env cl tr w = Some r \<Longrightarrow> h = host \<longrightarrow> extends (env_machine env) (sent w) (sent r)"
      and eq: "(case pollLoop (wh_client h cl) env tr (wh_arm h cl w) of None \<Rightarrow> None
        | Some (x, tr, w) \<Rightarrow> let w = wh_close h cl (wh_disarm h cl w) in if wh_done h w then Some w
            else (case redial h env w of None \<Rightarrow> None | Some (None, w) \<Rightarrow> Some w
                  | Some (Some cl, w) \<Rightarrow> f h env cl tr w)) = Some r"
      and h: "h = host"
    from eq obtain err tr1 w1 where p: "pollLoop (wh_client host cl) env tr (wh_arm host cl w) = Some (err, tr1, w1)"
      by (auto simp: h split: option.splits)
    have "extends (env_machine env) (sent w) (sent w1)"
      using event_channel.poll_turns_extends [OF client_channel p [unfolded pollLoop_def]] by (simp add: arm_keeps)
    also have "extends (env_machine env) (sent w1) (sent r)"
    proof (cases "wh_done host (wh_close host cl (wh_disarm host cl w1))")
      case True
      then show ?thesis using eq close_keeps [of cl "wh_disarm host cl w1"] by (auto simp: h p disarm_keeps)
    next
      case False
      then obtain next_cl w2 where d: "redial host env (wh_close host cl (wh_disarm host cl w1)) = Some (next_cl, w2)"
        using eq by (auto simp: h p Let_def split: option.splits)
      have "sent w2 = sent w1" using redial_keeps [OF d] by (simp add: close_keeps disarm_keeps)
      then show ?thesis using eq False IH [of h env _ tr1 w2 r] by (cases next_cl) (auto simp: h p d Let_def)
    qed
    finally show "extends (env_machine env) (sent w) (sent r)" .
  qed
  with assms show ?thesis by simp
qed

end

interpretation session: event_session "logged_host host" snd for host
  by unfold_locales (auto simp: logged_host_def logged_watch_def beside_def split: prod.split sum.split)

text \<open>C17. Every event a finished session delivered is genuine, across all its connections: whatever pcscd
  answered, an insertion carries a card with a UID that is not random, the btag of that UID and of the
  type of its answer to reset, and the tag of the reported serial and port; nothing but insertions and
  removals goes out.\<close>

theorem session_genuine:
  assumes "Watch host env w = Inr (Some (w', log))"
  shows "list_all (genuine (env_machine env)) (delivered log)"
proof -
  obtain cl w0 where "watch_from (logged_host host) env cl newTracking (w0, []) = Some (w', log)"
    using assms by (auto simp: Watch_def watchLoop_def split: prod.splits sum.splits)
  from session.watch_from_extends [OF this] show ?thesis by (auto simp: extends_def)
qed

section \<open>Turns of a loop\<close>

lemma poll_turns_for:
  "poll_for n api env tr w = (Again, tr', w') \<Longrightarrow> poll_turns api env tr w = poll_turns api env tr' w'"
proof (induction n arbitrary: tr w)
  case (Suc n)
  then obtain tr1 w1 where t: "poll_turn api env tr w = (Again, tr1, w1)" "poll_for n api env tr1 w1 = (Again, tr', w')"
    by (auto split: prod.splits turn.splits)
  from Suc.IH [OF t(2)] show ?case by (subst poll_turns.simps) (simp add: t(1))
qed simp

section \<open>Witnesses\<close>

text \<open>A host whose reader gets one card in its second snapshot and whose session is then cancelled.\<close>

definition sample_client :: "nat watch_api" where
  "sample_client = sample_watch\<lparr>
     wa_states := (\<lambda>n. if n = 0 then (Inr [], 1) else if n = 1 then (Inr [sample_state ''R'' 4], 1) else (Inl ErrTimeout, n)),
     wa_done := (\<lambda>n. 2 \<le> n)\<rparr>"

definition sample_ipc :: ipcClient where
  "sample_ipc = \<lparr>cl_context = 1, cl_major = 4, cl_minor = 5\<rparr>"

definition sample_host :: "nat watch_host" where
  "sample_host = \<lparr>wh_dial = (\<lambda>path n. (Inr sample_ipc, n)), wh_close = (\<lambda>cl n. n),
     wh_client = (\<lambda>cl. sample_client), wh_done = (\<lambda>n. 2 \<le> n), wh_pause = (\<lambda>t n. (True, n)),
     wh_arm = (\<lambda>cl n. n), wh_disarm = (\<lambda>cl n. n)\<rparr>"

lemma besides_probe:
  "probeReaderCard (beside sample_api) look up ''R'' root False claims zero_facts (1, log) = (sample_uid_facts, (2, log))"
proof -
  have "ProtocolRaw \<noteq> ProtocolAny" by (simp add: ProtocolRaw_def ProtocolAny_def ProtocolT0_def ProtocolT1_def)
  then have o: "openCard (beside sample_api) ''R'' (1, log) = (Inr sample_card, (1, log))"
    by (simp add: openCard_def openCard_from.simps [of "Suc 0"] connectCard_def sample_api_def beside_def)
  have "insistUID (beside sample_api) sample_card ''R'' (1, log) = ((if isRandomUID [0x04, 0xA1] then [] else [0x04, 0xA1],
      ca_protocol sample_card, Some sample_card), (1, log))"
    by (simp add: insistUID_def insist_from.simps [of "Suc 0"] transmitUID_def transmitUID_from.simps [of "Suc 0"]
        uidExchange_def classify_def isRandomUID_def sample_api_def beside_def)
  then have i: "insistUID (beside sample_api) sample_card ''R'' (1, log) = (([0x04, 0xA1], 2, Some sample_card), (1, log))"
    by (simp add: isRandomUID_def sample_card_def)
  have "TrimSpace [] = []" by code_simp
  then have u: "read_unit (beside sample_api) look ''R'' root False sample_card (1, log) = (([], []), (1, log))"
    by (simp add: read_unit_def readVendorSerial_def sample_api_def beside_def Trim_def string_of_def)
  have r: "release (beside sample_api) (Some sample_card) (1, log) = (2, log)"
    by (simp add: release_def sample_api_def beside_def)
  show ?thesis by (simp add: probeReaderCard_def o i u r del: One_nat_def)
qed

abbreviation sample_sent :: "string \<Rightarrow> Event" where
  "sample_sent machine \<equiv> insert_event machine (sample_state ''R'' 4) sample_uid_facts"

lemma sample_session_turn:
  assumes "\<not> env_useUSBPath env"
  shows "\<exists>tr. poll_for 1 (logged_watch sample_client) env (fresh_session newTracking) (1, log) =
    (Again, tr, (2, log @ [Seen [sample_state ''R'' 4], Sent (sample_sent (env_machine env))]))"
proof -
  let ?api = "logged_watch sample_client"
  have parts: "wa_cards ?api = beside sample_api" "wa_emit ?api e (2, l) = (True, (2, l @ [Sent e]))"
    "wa_states ?api (1, l) = (Inr [sample_state ''R'' 4], (1, l @ [Seen [sample_state ''R'' 4]]))"
    "wa_wait ?api t (2, l) = (None, (2, l))" for e l t
    by (simp_all add: logged_watch_def sample_client_def sample_watch_def)
  have none: "cached newUnitRegistry ''R'' = zero_facts" by (simp add: newUnitRegistry_def cached_def)
  obtain units where clean: "adopt newUnitRegistry ''R'' sample_uid_facts = (sample_uid_facts, units)"
    by (simp add: newUnitRegistry_def cached_def adopt_def Let_def)
  have src: "card_Source (identify st sample_uid_facts) = ''uid''" for st by (simp add: identify_def Let_def)
  have "\<exists>tr. poll_state ?api env (sample_state ''R'' 4) (fresh_session newTracking) (1, log @ [Seen [sample_state ''R'' 4]])
    = (True, tr, (2, log @ [Seen [sample_state ''R'' 4], Sent (sample_sent (env_machine env))]))
    \<and> dom (tr_present tr) = {''R''}"
    using assms
    by (simp add: poll_state_def poll_insert_def parts was_present_def fresh_session_def newTracking_def none clean
        besides_probe src Let_def note_state_def del: One_nat_def)
  then obtain tr where tr: "poll_state ?api env (sample_state ''R'' 4) (fresh_session newTracking) (1, log @ [Seen [sample_state ''R'' 4]])
    = (True, tr, (2, log @ [Seen [sample_state ''R'' 4], Sent (sample_sent (env_machine env))]))"
    "dom (tr_present tr) = {''R''}" by blast
  have "poll_gone ?api (\<lambda>q. q \<in> {''R''}) (range_keys ?api (tr_present tr) v) tr v = (True, tr, v)" for v
    by (rule poll_gone_seen) (simp add: range_keys_set tr(2))
  then have "poll_turn ?api env (fresh_session newTracking) (1, log) =
    (Again, tr, (2, log @ [Seen [sample_state ''R'' 4], Sent (sample_sent (env_machine env))]))"
    by (simp add: poll_turn_def parts poll_snapshot_def tr(1) del: One_nat_def)
  then show ?thesis by simp
qed

lemma sample_session:
  assumes "\<not> env_useUSBPath env"
  shows "Watch sample_host env 1 = Inr (Some (2, [Seen [sample_state ''R'' 4], Sent (sample_sent (env_machine env))]))"
proof -
  obtain tr where turn: "poll_for 1 (logged_watch sample_client) env (fresh_session newTracking) (1, []) =
    (Again, tr, (2, [Seen [sample_state ''R'' 4], Sent (sample_sent (env_machine env))]))"
    using sample_session_turn [OF assms, of "[]"] by auto
  have "poll_turns (logged_watch sample_client) env tr (2, log) = Some (None, tr, (2, log))" for log
    by (subst poll_turns.simps) (simp add: poll_turn_def logged_watch_def sample_client_def)
  then have "pollLoop (wh_client (logged_host sample_host) sample_ipc) env newTracking (1, []) =
    Some (None, tr, (2, [Seen [sample_state ''R'' 4], Sent (sample_sent (env_machine env))]))"
    using poll_turns_for [OF turn] by (simp add: pollLoop_def logged_host_def sample_host_def)
  then have "watch_from (logged_host sample_host) env sample_ipc newTracking (1, []) =
    Some (2, [Seen [sample_state ''R'' 4], Sent (sample_sent (env_machine env))])"
    by (subst watch_from.simps) (simp add: logged_host_def sample_host_def)
  moreover have "wh_dial sample_host path 1 = (Inr sample_ipc, 1)" for path by (simp add: sample_host_def)
  ultimately show ?thesis by (simp add: Watch_def watchLoop_def)
qed

theorem session_genuine_witness: "genuine [] (sample_sent [])"
proof -
  have "\<not> env_useUSBPath sample_env" "env_machine sample_env = []" by (simp_all add: sample_env_def)
  with session_genuine [OF sample_session, of sample_env] show ?thesis by simp
qed

end
