(* ===== verification/Clients.thy ===== *)
theory Clients
  imports Session
begin

text \<open>
  The connections to pcscd that the watch loop and the startup report open and close (\<open>pcscid.go\<close>,
  \<open>readers.go\<close>). A ledger beside the world of any host records every dialled and every closed client;
  the locale \<open>loop_frame\<close> is the frame rule of the whole loop, the locale \<open>client_ledger\<close> the contract of a
  host towards its ledger.
\<close>

section \<open>The frame of the loop\<close>

text \<open>What neither a probe nor the event channel changes, no snapshot changes.\<close>

locale emit_frame = probe_frame api kept
  for api :: "'w watch_api" and kept :: "'w \<Rightarrow> 'b" +
  assumes emit_keeps: "kept (snd (wa_emit api e w)) = kept w"
begin

lemma emit_op: "wa_emit api e w = (ok, w') \<Longrightarrow> kept w' = kept w"
  by (metis emit_keeps snd_conv)

lemma probed_keeps:
  "probeReaderCard (wa_cards api) (wa_look api) up reader root usb claims remembered w = (facts, w') \<Longrightarrow> kept w' = kept w"
  by (metis probe_keeps snd_conv)

lemma poll_state_keeps: "poll_state api env st tr w = (ok, tr', w') \<Longrightarrow> kept w' = kept w"
  by (auto simp: poll_state_def poll_insert_def Let_def dest!: probed_keeps emit_op split: if_splits prod.splits)

lemma poll_states_keeps: "poll_states api env sts tr w = (ok, tr', w') \<Longrightarrow> kept w' = kept w"
proof (induction sts arbitrary: tr w)
  case (Cons st sts)
  obtain ok1 tr1 w1 where p: "poll_state api env st tr w = (ok1, tr1, w1)" by (metis surj_pair)
  from poll_state_keeps [OF p] Cons show ?case by (auto simp: p split: if_splits)
qed simp

lemma poll_gone_keeps: "poll_gone api seen qs tr w = (ok, tr', w') \<Longrightarrow> kept w' = kept w"
proof (induction qs arbitrary: tr w)
  case (Cons q qs)
  obtain ok1 w1 where e: "wa_emit api (remove_event q) w = (ok1, w1)" by force
  from emit_op [OF e] Cons show ?case by (auto simp: e split: if_splits)
qed simp

lemma poll_snapshot_keeps: "poll_snapshot api env sts tr w = (ok, tr', w') \<Longrightarrow> kept w' = kept w"
  by (auto simp: poll_snapshot_def dest!: poll_states_keeps poll_gone_keeps split: prod.splits if_splits)

end

text \<open>What no operation of a client changes, no number of turns of the loop changes.\<close>

locale loop_frame = emit_frame api kept
  for api :: "'w watch_api" and kept :: "'w \<Rightarrow> 'b" +
  assumes states_keeps: "kept (snd (wa_states api w)) = kept w"
    and wait_keeps: "kept (snd (wa_wait api t w)) = kept w"
    and pause_keeps: "kept (snd (wa_pause api t w)) = kept w"
begin

lemma api_keeps:
  "wa_states api w = (r, w') \<Longrightarrow> kept w' = kept w"
  "wa_wait api t w = (err, w') \<Longrightarrow> kept w' = kept w" "wa_pause api t w = (ok, w') \<Longrightarrow> kept w' = kept w"
  by (metis states_keeps snd_conv) (metis wait_keeps snd_conv, metis pause_keeps snd_conv)

lemma poll_turn_keeps: "poll_turn api env tr w = (t, tr', w') \<Longrightarrow> kept w' = kept w"
  by (auto simp: poll_turn_def dest!: api_keeps poll_snapshot_keeps
      split: prod.splits sum.splits if_splits option.splits)

lemma poll_turns_keeps:
  assumes "poll_turns api env tr w = Some (err, tr', w')"
  shows "kept w' = kept w"
proof -
  have "a = api \<longrightarrow> kept (snd (snd r)) = kept w" if "poll_turns a env tr w = Some r" for a env tr w r
  proof (rule poll_turns.raw_induct [where P = "\<lambda>a env tr w r. a = api \<longrightarrow> kept (snd (snd r)) = kept w", OF _ that],
      rule impI)
    fix f a env tr w r
    assume IH: "\<And>a env tr w r. f a env tr w = Some r \<Longrightarrow> a = api \<longrightarrow> kept (snd (snd r)) = kept w"
      and eq: "(case poll_turn a env tr w of (Again, tr, w) \<Rightarrow> f a env tr w
        | (Return err, tr, w) \<Rightarrow> Some (err, tr, w)) = Some r" and a: "a = api"
    obtain t tr1 w1 where t: "poll_turn api env tr w = (t, tr1, w1)" by (metis surj_pair)
    have "kept (snd (snd r)) = kept w1" using eq IH [of a env tr1 w1 r] by (cases t) (auto simp: a t)
    with poll_turn_keeps [OF t] show "kept (snd (snd r)) = kept w" by simp
  qed
  with assms show ?thesis by fastforce
qed

lemma identify_all_keeps: "identify_all api env sts reg w = (infos, w') \<Longrightarrow> kept w' = kept w"
proof (induction sts arbitrary: reg w infos w')
  case (Cons st sts)
  obtain info reg1 w1 where i: "identify_reader api env st reg w = (info, reg1, w1)" by (metis surj_pair)
  obtain infos' w2 where a: "identify_all api env sts reg1 w1 = (infos', w2)" by force
  have "kept w1 = kept w"
    using i by (auto simp: identify_reader_def Let_def dest!: probed_keeps look_op split: if_splits prod.splits)
  with Cons.IH [OF a] Cons.prems show ?case by (simp add: i a)
qed simp

end

section \<open>The ledger\<close>

datatype ledger_entry = Dialled ipcClient | Closed ipcClient

text \<open>One client after the other, each closed before the next one is dialled.\<close>

definition one_at_a_time :: "ipcClient list \<Rightarrow> ledger_entry list" where
  "one_at_a_time cls = concat (map (\<lambda>cl. [Dialled cl, Closed cl]) cls)"

lemma one_at_a_time_simps [simp]:
  "one_at_a_time [] = []" "one_at_a_time (cl # cls) = Dialled cl # Closed cl # one_at_a_time cls"
  by (simp_all add: one_at_a_time_def)

locale client_ledger =
  fixes host :: "'w watch_host" and ledger :: "'w \<Rightarrow> ledger_entry list"
  assumes client_frame: "loop_frame (wh_client host cl) ledger"
    and dial_noted: "ledger (snd (wh_dial host path w)) =
      ledger w @ (case fst (wh_dial host path w) of Inl _ \<Rightarrow> [] | Inr cl \<Rightarrow> [Dialled cl])"
    and close_noted: "ledger (wh_close host cl w) = ledger w @ [Closed cl]"
    and delay_keeps: "ledger (snd (wh_pause host t w)) = ledger w"
    and arm_keeps: "ledger (wh_arm host cl w) = ledger w"
    and disarm_keeps: "ledger (wh_disarm host cl w) = ledger w"
begin

lemma dial_op: "wh_dial host path w = (r, w') \<Longrightarrow>
    ledger w' = ledger w @ (case r of Inl _ \<Rightarrow> [] | Inr cl \<Rightarrow> [Dialled cl])"
  by (metis dial_noted fst_conv snd_conv)

lemma redial_noted:
  assumes "redial host env w = Some (r, w')"
  shows "ledger w' = ledger w @ (case r of None \<Rightarrow> [] | Some cl \<Rightarrow> [Dialled cl])"
proof -
  let ?P = "\<lambda>h env w r. h = host \<longrightarrow> ledger (snd r) = ledger w @ (case fst r of None \<Rightarrow> [] | Some cl \<Rightarrow> [Dialled cl])"
  have "?P h env w r" if "redial h env w = Some r" for h env w r
  proof (rule redial.raw_induct [where P = ?P, OF _ that], rule impI)
    fix f h env w r
    assume IH: "\<And>h env w r. f h env w = Some r \<Longrightarrow> ?P h env w r"
      and eq: "(case wh_pause h reconnectDelay w of (full, w) \<Rightarrow>
          if \<not> full then Some (None, w)
          else (case wh_dial h (env_socketPath env) w of (Inl x, w) \<Rightarrow> f h env w | (Inr cl, w) \<Rightarrow> Some (Some cl, w))) = Some r"
      and h: "h = host"
    obtain full w1 where p: "wh_pause host reconnectDelay w = (full, w1)" by force
    obtain d w2 where d: "wh_dial host (env_socketPath env) w1 = (d, w2)" by force
    have "ledger w1 = ledger w" using delay_keeps [of reconnectDelay w] by (simp add: p)
    with dial_op [OF d] show "ledger (snd r) = ledger w @ (case fst r of None \<Rightarrow> [] | Some cl \<Rightarrow> [Dialled cl])"
      using eq IH [of h env w2 r] by (cases d) (auto simp: h p d split: if_splits)
  qed
  with assms show ?thesis by fastforce
qed

lemma watch_from_noted:
  assumes "watch_from host env cl tr w = Some w'"
  shows "\<exists>cls. ledger w' = ledger w @ Closed cl # one_at_a_time cls"
proof -
  let ?P = "\<lambda>h env cl tr w w'. h = host \<longrightarrow> (\<exists>cls. ledger w' = ledger w @ Closed cl # one_at_a_time cls)"
  have "?P h env cl tr w r" if "watch_from h env cl tr w = Some r" for h env cl tr w r
  proof (rule watch_from.raw_induct [where P = ?P, OF _ that], rule impI)
    fix f h env cl tr w r
    assume IH: "\<And>h env cl tr w r. f h env cl tr w = Some r \<Longrightarrow> ?P h env cl tr w r"
      and eq: "(case pollLoop (wh_client h cl) env tr (wh_arm h cl w) of None \<Rightarrow> None
        | Some (x, tr, w) \<Rightarrow> let w = wh_close h cl (wh_disarm h cl w) in if wh_done h w then Some w
            else (case redial h env w of None \<Rightarrow> None | Some (None, w) \<Rightarrow> Some w
                  | Some (Some cl, w) \<Rightarrow> f h env cl tr w)) = Some r"
      and h: "h = host"
    from eq obtain err tr1 w1 where p: "pollLoop (wh_client host cl) env tr (wh_arm host cl w) = Some (err, tr1, w1)"
      by (auto simp: h split: option.splits)
    have "ledger w1 = ledger w"
      using loop_frame.poll_turns_keeps [OF client_frame p [unfolded pollLoop_def]] by (simp add: arm_keeps)
    then have closed: "ledger (wh_close host cl (wh_disarm host cl w1)) = ledger w @ [Closed cl]"
      by (simp add: close_noted disarm_keeps)
    show "\<exists>cls. ledger r = ledger w @ Closed cl # one_at_a_time cls"
    proof (cases "wh_done host (wh_close host cl (wh_disarm host cl w1))")
      case True
      then show ?thesis using eq closed by (intro exI [of _ "[]"]) (simp add: h p)
    next
      case False
      then obtain next_cl w2 where d: "redial host env (wh_close host cl (wh_disarm host cl w1)) = Some (next_cl, w2)"
        using eq by (auto simp: h p Let_def split: option.splits)
      show ?thesis
      proof (cases next_cl)
        case None
        then show ?thesis using eq False redial_noted [OF d] closed by (intro exI [of _ "[]"]) (simp add: h p d)
      next
        case (Some cl')
        then obtain cls where "ledger r = ledger w2 @ Closed cl' # one_at_a_time cls"
          using eq False IH [of h env cl' tr1 w2 r] by (auto simp: h p d)
        then show ?thesis using redial_noted [OF d] closed Some by (intro exI [of _ "cl' # cls"]) simp
      qed
    qed
  qed
  with assms show ?thesis by simp
qed

lemma inventory_noted:
  assumes "IdentifyReaders host env w = (r, w')"
  shows "\<exists>cls. length cls \<le> 1 \<and> ledger w' = ledger w @ one_at_a_time cls"
proof -
  obtain d w1 where d: "wh_dial host (env_socketPath env) w = (d, w1)" by force
  show ?thesis
  proof (cases d)
    case (Inl e)
    then show ?thesis using assms dial_op [OF d] by (intro exI [of _ "[]"]) (simp add: IdentifyReaders_def d)
  next
    case (Inr cl)
    obtain q w2 where s: "wa_states (wh_client host cl) w1 = (q, w2)" by force
    have "ledger w2 = ledger w1" by (rule loop_frame.api_keeps(1) [OF client_frame s])
    moreover have "ledger w3 = ledger w2" if "identify_all (wh_client host cl) env sts newUnitRegistry w2 = (infos, w3)" for sts infos w3
      by (rule loop_frame.identify_all_keeps [OF client_frame that])
    ultimately show ?thesis using assms dial_op [OF d] Inr
      by (intro exI [of _ "[cl]"]) (auto simp: IdentifyReaders_def d s close_noted split: sum.splits prod.splits)
  qed
qed

end

section \<open>Any host with a ledger beside its world\<close>

definition beside_watch :: "'w watch_api \<Rightarrow> ('w \<times> 'l) watch_api" where
  "beside_watch api = \<lparr>
     wa_cards = beside (wa_cards api),
     wa_look = (\<lambda>(w, l). case wa_look api w of (t, w) \<Rightarrow> (t, (w, l))),
     wa_upper = wa_upper api,
     wa_states = (\<lambda>(w, l). case wa_states api w of (r, w) \<Rightarrow> (r, (w, l))),
     wa_wait = (\<lambda>t (w, l). case wa_wait api t w of (r, w) \<Rightarrow> (r, (w, l))),
     wa_emit = (\<lambda>e (w, l). case wa_emit api e w of (ok, w) \<Rightarrow> (ok, (w, l))),
     wa_pause = (\<lambda>t (w, l). case wa_pause api t w of (r, w) \<Rightarrow> (r, (w, l))),
     wa_done = (\<lambda>(w, l). wa_done api w),
     wa_order = (\<lambda>(w, l). wa_order api w)\<rparr>"

definition ledger_host :: "'w watch_host \<Rightarrow> ('w \<times> ledger_entry list) watch_host" where
  "ledger_host host = \<lparr>
     wh_dial = (\<lambda>path (w, l). case wh_dial host path w of (r, w) \<Rightarrow>
       (r, (w, l @ (case r of Inl _ \<Rightarrow> [] | Inr cl \<Rightarrow> [Dialled cl])))),
     wh_close = (\<lambda>cl (w, l). (wh_close host cl w, l @ [Closed cl])),
     wh_client = (\<lambda>cl. beside_watch (wh_client host cl)),
     wh_done = (\<lambda>(w, l). wh_done host w),
     wh_pause = (\<lambda>t (w, l). case wh_pause host t w of (r, w) \<Rightarrow> (r, (w, l))),
     wh_arm = (\<lambda>cl (w, l). (wh_arm host cl w, l)),
     wh_disarm = (\<lambda>cl (w, l). (wh_disarm host cl w, l))\<rparr>"

interpretation framed: loop_frame "beside_watch api" snd for api
  by unfold_locales (auto simp: beside_watch_def beside_def split: prod.split)

interpretation framed_log: loop_frame "logged_watch (beside_watch api)" "\<lambda>w. snd (fst w)" for api
  by unfold_locales (auto simp: logged_watch_def beside_watch_def beside_def split: prod.split)

interpretation inventory_ledger: client_ledger "ledger_host host" snd for host
  by unfold_locales (auto simp: ledger_host_def beside_watch_def beside_def split: prod.split sum.split)

interpretation session_ledger: client_ledger "logged_host (ledger_host host)" "\<lambda>w. snd (fst w)" for host
  by unfold_locales
    (auto simp: ledger_host_def logged_host_def logged_watch_def beside_watch_def beside_def split: prod.split sum.split)

section \<open>Property\<close>

text \<open>C9. No connection to pcscd is leaked, and never is more than one open. Whatever pcscd answers and however
  often it is lost, a finished watch session closed every client it dialled, each before it dialled the
  next; and the startup report, failed or not, closed the one client it dialled.\<close>

theorem clients_closed:
  "(Watch (ledger_host host) env (w, []) = Inr (Some ((w', led), log)) \<longrightarrow> (\<exists>cls. cls \<noteq> [] \<and> led = one_at_a_time cls))
   \<and> (IdentifyReaders (ledger_host host) env (w, []) = (r, (v, led')) \<longrightarrow> (\<exists>cls. length cls \<le> 1 \<and> led' = one_at_a_time cls))"
proof (intro conjI impI)
  assume "Watch (ledger_host host) env (w, []) = Inr (Some ((w', led), log))"
  then obtain cl w0 led0 where d: "wh_dial (ledger_host host) (env_socketPath env) (w, []) = (Inr cl, (w0, led0))"
    and run: "watch_from (logged_host (ledger_host host)) env cl newTracking ((w0, led0), []) = Some ((w', led), log)"
    by (auto simp: Watch_def watchLoop_def split: prod.splits sum.splits)
  have "led0 = [Dialled cl]" using inventory_ledger.dial_op [OF d] by simp
  with session_ledger.watch_from_noted [OF run] show "\<exists>cls. cls \<noteq> [] \<and> led = one_at_a_time cls"
    by (auto intro: exI [of _ "cl # _"])
next
  assume "IdentifyReaders (ledger_host host) env (w, []) = (r, (v, led'))"
  from inventory_ledger.inventory_noted [OF this] show "\<exists>cls. length cls \<le> 1 \<and> led' = one_at_a_time cls" by simp
qed

section \<open>Witness\<close>

text \<open>A host that loses pcscd once: the second client it dials is the one the cancelled session closes.\<close>

definition lossy_host :: "nat watch_host" where
  "lossy_host = \<lparr>wh_dial = (\<lambda>path n. (Inr sample_ipc, Suc n)), wh_close = (\<lambda>cl n. n),
     wh_client = (\<lambda>cl. sample_client\<lparr>wa_states := (\<lambda>n. (Inl ErrTimeout, n))\<rparr>), wh_done = (\<lambda>n. 2 \<le> n),
     wh_pause = (\<lambda>t n. (True, n)), wh_arm = (\<lambda>cl n. n), wh_disarm = (\<lambda>cl n. n)\<rparr>"

lemma lossy_poll:
  "\<exists>e. pollLoop (logged_watch (beside_watch (sample_client\<lparr>wa_states := (\<lambda>n. (Inl ErrTimeout, n))\<rparr>))) env tr ((n, led), log)
    = Some (e, fresh_session tr, ((n, led), log))"
  unfolding pollLoop_def
  by (subst poll_turns.simps) (simp add: poll_turn_def logged_watch_def beside_watch_def)

lemma lossy_session:
  "Watch (ledger_host lossy_host) env (0, []) = Inr (Some ((2, one_at_a_time [sample_ipc, sample_ipc]), []))"
proof -
  let ?h = "logged_host (ledger_host lossy_host)"
  have client: "wh_client ?h cl = logged_watch (beside_watch (sample_client\<lparr>wa_states := (\<lambda>n. (Inl ErrTimeout, n))\<rparr>))" for cl
    by (simp add: logged_host_def ledger_host_def lossy_host_def)
  have ops: "wh_dial ?h path ((n, led), log) = (Inr sample_ipc, ((Suc n, led @ [Dialled sample_ipc]), log))"
    "wh_close ?h cl ((n, led), log) = ((n, led @ [Closed cl]), log)" "wh_done ?h ((n, led), log) = (2 \<le> n)"
    "wh_pause ?h t ((n, led), log) = (True, ((n, led), log))"
    "wh_arm ?h cl ((n, led), log) = ((n, led), log)" "wh_disarm ?h cl ((n, led), log) = ((n, led), log)" for path n led log cl t
    by (simp_all add: logged_host_def ledger_host_def lossy_host_def)
  have again: "redial ?h env ((n, led), log) = Some (Some sample_ipc, ((Suc n, led @ [Dialled sample_ipc]), log))" for n led log
    by (subst redial.simps) (simp add: ops)
  have poll: "\<exists>e. pollLoop (wh_client ?h cl) env tr ((n, led), log) = Some (e, fresh_session tr, ((n, led), log))" for cl tr n led log
    unfolding client by (rule lossy_poll)
  have last: "watch_from ?h env cl tr ((2, led), log) = Some ((2, led @ [Closed cl]), log)" for cl tr led log
    using poll [of cl tr 2 led log] by (subst watch_from.simps) (auto simp: ops)
  have "watch_from ?h env cl tr ((1, led), log)
      = Some ((2, led @ [Closed cl, Dialled sample_ipc, Closed sample_ipc]), log)" for cl tr led log
    using poll [of cl tr 1 led log]
    by (subst watch_from.simps) (auto simp: ops again last [unfolded numeral_2_eq_2] numeral_2_eq_2)
  moreover have "wh_dial (ledger_host lossy_host) path (0, []) = (Inr sample_ipc, (1, [Dialled sample_ipc]))" for path
    by (simp add: ledger_host_def lossy_host_def)
  ultimately show ?thesis by (simp add: Watch_def watchLoop_def)
qed

theorem clients_closed_witness:
  "\<exists>cls. cls \<noteq> [] \<and> [Dialled sample_ipc, Closed sample_ipc, Dialled sample_ipc, Closed sample_ipc] = one_at_a_time cls"
proof -
  have "Watch (ledger_host lossy_host) sample_env (0, []) = Inr (Some ((2, [Dialled sample_ipc, Closed sample_ipc,
      Dialled sample_ipc, Closed sample_ipc]), []))" using lossy_session by simp
  with clients_closed [of lossy_host sample_env 0] show ?thesis by blast
qed

end
