(* ===== verification/Cancel.thy ===== *)
theory Cancel
  imports Clients
begin

text \<open>
  The cancellation of a watch session (\<open>pcscid.go\<close>, \<open>watchLoop\<close>). \<open>ctx_host\<close> puts a context beside the world
  of any host: it is cancelled after some number of blocking operations, and from then on the function
  given to \<open>context.AfterFunc\<close> closes the armed client, at once or after some more of them. The locale
  \<open>cancellable\<close> is the contract of one client under such a context, \<open>cancellable_host\<close> the contract of the
  host; both give that the loops end, by induction on the operations that are left.
\<close>

section \<open>A context beside a host\<close>

text \<open>\<open>cx_before\<close> blocking operations begin before the cancellation, and \<open>cx_delay\<close> more before the goroutine
  of \<open>AfterFunc\<close> gets to close the client. \<open>cx_armed\<close> is that the function is registered and not stopped,
  \<open>cx_closed\<close> that it has run for this client.\<close>

record ctx =
  cx_before :: nat
  cx_delay :: nat
  cx_armed :: bool
  cx_closed :: bool

definition in_context :: "nat \<Rightarrow> nat \<Rightarrow> 'w \<Rightarrow> 'w \<times> ctx" where
  "in_context k d w = (w, \<lparr>cx_before = k, cx_delay = d, cx_armed = False, cx_closed = False\<rparr>)"

definition elapse :: "'w watch_host \<Rightarrow> ipcClient \<Rightarrow> 'w \<times> ctx \<Rightarrow> 'w \<times> ctx" where
  "elapse host cl s =
     (case s of (w, c) \<Rightarrow>
        if 0 < cx_before c then (w, c\<lparr>cx_before := cx_before c - 1\<rparr>)
        else if \<not> cx_armed c \<or> cx_closed c then (w, c)
        else if cx_delay c = 0 then (wh_close host cl w, c\<lparr>cx_closed := True\<rparr>)
        else (w, c\<lparr>cx_delay := cx_delay c - 1\<rparr>))"

text \<open>A request on a closed connection fails where it sets its deadline. A pause during which the context ends may
  go either way, one that begins later does not elapse. Whatever else a client does is the host's.\<close>

definition closed_error :: perror where
  "closed_error = NetErr ''deadline'' NetFailure"

definition ctx_client :: "'w watch_host \<Rightarrow> ipcClient \<Rightarrow> ('w \<times> ctx) watch_api" where
  "ctx_client host cl = (beside_watch (wh_client host cl))\<lparr>
     wa_states := (\<lambda>s. case elapse host cl s of (w, c) \<Rightarrow>
       if cx_closed c then (Inl closed_error, (w, c))
       else (case wa_states (wh_client host cl) w of (r, w) \<Rightarrow> (r, (w, c)))),
     wa_wait := (\<lambda>t s. case elapse host cl s of (w, c) \<Rightarrow>
       if cx_closed c then (Some closed_error, (w, c))
       else (case wa_wait (wh_client host cl) t w of (r, w) \<Rightarrow> (r, (w, c)))),
     wa_pause := (\<lambda>t s. case elapse host cl s of (w, c) \<Rightarrow>
       case wa_pause (wh_client host cl) t w of (full, w) \<Rightarrow>
         (cx_before (snd s) \<noteq> 0 \<and> (cx_before c \<noteq> 0 \<or> full), (w, c))),
     wa_done := (\<lambda>(w, c). cx_before c = 0)\<rparr>"

definition ctx_host :: "'w watch_host \<Rightarrow> ('w \<times> ctx) watch_host" where
  "ctx_host host = \<lparr>
     wh_dial = (\<lambda>path (w, c). case wh_dial host path w of (r, w) \<Rightarrow> (r, (w, c))),
     wh_close = (\<lambda>cl (w, c). (wh_close host cl w, c)),
     wh_client = ctx_client host,
     wh_done = (\<lambda>(w, c). cx_before c = 0),
     wh_pause = (\<lambda>t (w, c). case wh_pause host t w of (full, w) \<Rightarrow>
       (cx_before c \<noteq> 0 \<and> (cx_before c \<noteq> 1 \<or> full), (w, c\<lparr>cx_before := cx_before c - 1\<rparr>))),
     wh_arm = (\<lambda>cl (w, c). (wh_arm host cl w, c\<lparr>cx_armed := True, cx_closed := False\<rparr>)),
     wh_disarm = (\<lambda>cl (w, c). (wh_disarm host cl w, c\<lparr>cx_armed := False\<rparr>))\<rparr>"

section \<open>The loop of one client\<close>

text \<open>\<open>left\<close> bounds the snapshots an armed client can still take, \<open>taken\<close> counts those it took: together
  they never grow.\<close>

locale cancellable = emit_frame api "\<lambda>w. (armed w, left w, taken w)"
  for api :: "'w watch_api" and armed :: "'w \<Rightarrow> bool" and left taken :: "'w \<Rightarrow> nat" +
  assumes states_spend: "wa_states api w = (Inr sts, w') \<Longrightarrow> armed w \<Longrightarrow>
      armed w' \<and> left w' < left w \<and> taken w' + left w' \<le> taken w + left w"
    and states_fail: "wa_states api w = (Inl err, w') \<Longrightarrow> left w' \<le> left w \<and> taken w' + left w' \<le> taken w + left w"
    and wait_spends: "wa_wait api t w = (r, w') \<Longrightarrow>
      (armed w \<longrightarrow> armed w') \<and> left w' \<le> left w \<and> taken w' + left w' \<le> taken w + left w"
    and pause_spends: "wa_pause api t w = (full, w') \<Longrightarrow>
      (armed w \<longrightarrow> armed w') \<and> left w' \<le> left w \<and> taken w' + left w' \<le> taken w + left w"
begin

lemma turn_spends:
  assumes "poll_turn api env tr w = (t, tr', w')" "armed w"
  shows "left w' \<le> left w \<and> taken w' + left w' \<le> taken w + left w \<and> (t = Again \<longrightarrow> armed w' \<and> left w' < left w)"
proof -
  obtain r w1 where r: "wa_states api w = (r, w1)" by force
  show ?thesis
  proof (cases r)
    case (Inl err)
    then show ?thesis using assms(1) states_fail [OF r [unfolded Inl]] by (auto simp: poll_turn_def r)
  next
    case (Inr sts)
    note spent = states_spend [OF r [unfolded Inr] assms(2)]
    obtain ok tr2 w2 where p: "poll_snapshot api env sts tr w1 = (ok, tr2, w2)" by (metis surj_pair)
    obtain full w3 where pause: "wa_pause api reconnectDelay w2 = (full, w3)" by force
    obtain e w4 where wait: "wa_wait api waitTick w2 = (e, w4)" by force
    have keep: "armed w2 = armed w1 \<and> left w2 = left w1 \<and> taken w2 = taken w1" using poll_snapshot_keeps [OF p] by simp
    have "w' = w2 \<and> t \<noteq> Again \<or> w' = w3 \<or> w' = w4"
      using assms(1) by (auto simp: poll_turn_def r Inr p pause wait split: if_splits option.splits)
    then show ?thesis using spent keep pause_spends [OF pause] wait_spends [OF wait] by auto
  qed
qed

lemma poll_turns_end:
  "armed w \<Longrightarrow> \<exists>err tr' w'. poll_turns api env tr w = Some (err, tr', w') \<and> left w' \<le> left w
     \<and> taken w' + left w' \<le> taken w + left w"
proof (induction "left w" arbitrary: tr w rule: less_induct)
  case less
  obtain t tr1 w1 where t: "poll_turn api env tr w = (t, tr1, w1)" by (metis surj_pair)
  note spent = turn_spends [OF t less.prems]
  show ?case
  proof (cases t)
    case Again
    with spent have "left w1 < left w" "armed w1" by auto
    from less.hyps [OF this, of tr1] obtain err tr' w' where
      "poll_turns api env tr1 w1 = Some (err, tr', w')" "left w' \<le> left w1" "taken w' + left w' \<le> taken w1 + left w1" by blast
    then show ?thesis using spent
      by (intro exI [of _ err] exI [of _ tr'] exI [of _ w']) (subst poll_turns.simps, simp add: t Again)
  next
    case (Return err)
    then show ?thesis using spent
      by (intro exI [of _ err] exI [of _ tr1] exI [of _ w1]) (subst poll_turns.simps, simp add: t)
  qed
qed

end

section \<open>The clients of a session\<close>

locale cancellable_host =
  fixes host :: "'w watch_host" and armed :: "'w \<Rightarrow> bool" and left taken :: "'w \<Rightarrow> nat"
  assumes client: "cancellable (wh_client host cl) armed left taken"
    and arm_arms: "armed (wh_arm host cl w)"
    and arm_keeps: "left (wh_arm host cl w) = left w \<and> taken (wh_arm host cl w) = taken w"
    and disarm_keeps: "left (wh_disarm host cl w) = left w \<and> taken (wh_disarm host cl w) = taken w"
    and close_keeps: "left (wh_close host cl w) = left w \<and> taken (wh_close host cl w) = taken w"
    and dial_keeps: "wh_dial host path w = (r, w') \<Longrightarrow> left w' = left w \<and> taken w' = taken w"
    and pause_elapses: "wh_pause host t w = (full, w') \<Longrightarrow> left w' \<le> left w \<and> taken w' = taken w
      \<and> (if full then left w' < left w else wh_done host w')"
begin

lemma redial_ends:
  "\<exists>r w'. redial host env w = Some (r, w') \<and> left w' \<le> left w \<and> taken w' = taken w
     \<and> (case r of None \<Rightarrow> wh_done host w' | Some cl \<Rightarrow> left w' < left w)"
proof (induction "left w" arbitrary: w rule: less_induct)
  case less
  obtain full w1 where p: "wh_pause host reconnectDelay w = (full, w1)" by force
  note paused = pause_elapses [OF p]
  show ?case
  proof (cases full)
    case False
    then show ?thesis using paused
      by (intro exI [of _ None] exI [of _ w1]) (subst redial.simps, simp add: p)
  next
    case full: True
    obtain d w2 where d: "wh_dial host (env_socketPath env) w1 = (d, w2)" by force
    have shorter: "left w2 < left w" "taken w2 = taken w" using paused full dial_keeps [OF d] by auto
    show ?thesis
    proof (cases d)
      case (Inl err)
      from less.hyps [OF shorter(1)] obtain r w' where r: "redial host env w2 = Some (r, w')" "left w' \<le> left w2"
        "taken w' = taken w2" "case r of None \<Rightarrow> wh_done host w' | Some cl \<Rightarrow> left w' < left w2" by blast
      have "redial host env w = Some (r, w')" using r(1) by (subst redial.simps) (simp add: p full d Inl)
      moreover have "case r of None \<Rightarrow> wh_done host w' | Some cl \<Rightarrow> left w' < left w"
        using r(4) shorter(1) by (auto split: option.splits)
      ultimately show ?thesis using r(2,3) shorter by (intro exI [of _ r] exI [of _ w']) simp
    next
      case (Inr cl)
      then show ?thesis using shorter
        by (intro exI [of _ "Some cl"] exI [of _ w2]) (subst redial.simps, simp add: p full d)
    qed
  qed
qed

lemma watch_from_ends:
  "\<exists>w'. watch_from host env cl tr w = Some w' \<and> wh_done host w' \<and> taken w' + left w' \<le> taken w + left w"
proof (induction "left w" arbitrary: cl tr w rule: less_induct)
  case less
  obtain err tr1 w1 where p: "pollLoop (wh_client host cl) env tr (wh_arm host cl w) = Some (err, tr1, w1)"
    and polled: "left w1 \<le> left w" "taken w1 + left w1 \<le> taken w + left w"
    using cancellable.poll_turns_end [OF client [of cl] arm_arms [of cl w], of env "fresh_session tr"]
    by (auto simp: pollLoop_def arm_keeps)
  let ?w2 = "wh_close host cl (wh_disarm host cl w1)"
  have w2: "left ?w2 = left w1" "taken ?w2 = taken w1" by (simp_all add: close_keeps disarm_keeps)
  show ?case
  proof (cases "wh_done host ?w2")
    case True
    then show ?thesis using polled w2 by (intro exI [of _ ?w2]) (subst watch_from.simps, simp add: p)
  next
    case False
    obtain r w3 where r: "redial host env ?w2 = Some (r, w3)" "left w3 \<le> left ?w2" "taken w3 = taken ?w2"
      "case r of None \<Rightarrow> wh_done host w3 | Some cl \<Rightarrow> left w3 < left ?w2" using redial_ends by blast
    show ?thesis
    proof (cases r)
      case None
      then show ?thesis using r polled w2 False
        by (intro exI [of _ w3]) (subst watch_from.simps, simp add: p Let_def)
    next
      case (Some cl')
      with r(4) w2 polled have "left w3 < left w" by simp
      from less.hyps [OF this, of cl' tr1] obtain w' where
        "watch_from host env cl' tr1 w3 = Some w'" "wh_done host w'" "taken w' + left w' \<le> taken w3 + left w3" by blast
      moreover then have "watch_from host env cl tr w = Some w'"
        using r(1) False by (subst watch_from.simps) (simp add: p Some Let_def)
      ultimately show ?thesis using r(2,3) w2 polled by (intro exI [of _ w']) simp
    qed
  qed
qed

end

section \<open>Any host under a context\<close>

definition is_snapshot :: "obs \<Rightarrow> bool" where
  "is_snapshot x = (case x of Seen _ \<Rightarrow> True | Sent _ \<Rightarrow> False)"

abbreviation snapshots :: "obs list \<Rightarrow> nat" where
  "snapshots log \<equiv> length (filter is_snapshot log)"

abbreviation ops_left :: "ctx \<Rightarrow> nat" where
  "ops_left c \<equiv> cx_before c + cx_delay c"

lemma elapse_spends:
  assumes "elapse host cl (w, c) = (w', c')"
  shows "ops_left c' \<le> ops_left c" "cx_armed c' = cx_armed c" "cx_armed c \<Longrightarrow> \<not> cx_closed c' \<Longrightarrow> ops_left c' < ops_left c"
  using assms by (auto simp: elapse_def split: if_splits)

interpretation timed_client: cancellable "logged_watch (ctx_client host cl)" "\<lambda>w. cx_armed (snd (fst w))"
  "\<lambda>w. ops_left (snd (fst w))" "\<lambda>w. snapshots (snd w)" for host cl
  by unfold_locales
    (auto simp: logged_watch_def ctx_client_def beside_watch_def beside_def is_snapshot_def
      dest: elapse_spends split: prod.splits sum.splits if_splits)

interpretation timed: cancellable_host "logged_host (ctx_host host)" "\<lambda>w. cx_armed (snd (fst w))"
  "\<lambda>w. ops_left (snd (fst w))" "\<lambda>w. snapshots (snd w)" for host
  by (rule cancellable_host.intro)
    (simp add: logged_host_def ctx_host_def timed_client.cancellable_axioms,
     auto simp: logged_host_def ctx_host_def split: prod.splits if_splits)

section \<open>Property\<close>

text \<open>C38. A session ends when its context does. Over any pcscd and any card, wherever in the session the
  cancellation falls, in a turn, in a pause or in a reconnect, and however late the function of
  \<open>context.AfterFunc\<close> gets to close the client: unless the first dial fails, the channel is closed, never
  before the cancellation, and no more snapshots were taken than blocking operations began before the
  client was closed. It is the armed close that ends the loop: the client itself may answer for good.\<close>

theorem cancelled_session_ends:
  "case Watch (ctx_host host) env (in_context k d w) of
     Inl err \<Rightarrow> fst (wh_dial host (env_socketPath env) w) = Inl err
   | Inr ended \<Rightarrow> \<exists>w' c log. ended = Some ((w', c), log) \<and> cx_before c = 0 \<and> snapshots log \<le> k + d"
proof -
  obtain r w0 where d: "wh_dial host (env_socketPath env) w = (r, w0)" by force
  let ?c = "\<lparr>cx_before = k, cx_delay = d, cx_armed = False, cx_closed = False\<rparr>"
  have dial: "wh_dial (ctx_host host) (env_socketPath env) (in_context k d w) = (r, (w0, ?c))"
    by (simp add: ctx_host_def in_context_def d)
  show ?thesis
  proof (cases r)
    case (Inl err)
    then show ?thesis by (simp add: Watch_def dial d)
  next
    case (Inr cl)
    obtain w' where run: "watch_from (logged_host (ctx_host host)) env cl newTracking ((w0, ?c), []) = Some w'"
      and fin: "wh_done (logged_host (ctx_host host)) w'" "snapshots (snd w') + ops_left (snd (fst w')) \<le> k + d"
      using timed.watch_from_ends [of host env cl newTracking "((w0, ?c), [])"] by auto
    obtain v c log where w': "w' = ((v, c), log)" by (metis surj_pair)
    have "cx_before c = 0" "snapshots log \<le> k + d" using fin by (simp_all add: w' logged_host_def ctx_host_def)
    with run show ?thesis by (simp add: Watch_def dial Inr watchLoop_def w')
  qed
qed

end
