(* ===== verification/Command.thy ===== *)
theory Command
  imports Session SshSign Bridge Loopback
begin

text \<open>
  The command \<open>cmd/pcscid/main.go\<close> and \<open>version.go\<close>: the settings from the environment, the startup
  report of the readers, the signer, the guarded bridge, and the loop that prints one line for every
  presented card and feeds the bridge.

  What the command finds outside is a \<open>host\<close>: the arguments and the environment, the key file, whether
  the listener can be bound, the network interfaces, pcscd (the \<open>watch_host\<close> of theory \<open>Watch\<close>) and the
  instants at which the bridge is made and fed. The hash and the signature scheme are the parameters of
  theory \<open>SshSign\<close>. An outcome is what the finished process leaves behind: the lines of stdout, the
  report of the readers, the bridge, and the error; \<open>None\<close> while it runs. The settings line is
  \<open>settings_report\<close>, the trace on stderr is not modelled.
\<close>

section \<open>Version\<close>

definition defaultVersion :: string where "defaultVersion = ''v0.0.165''"

fun vcs_revision :: "(string \<times> string) list \<Rightarrow> string option" where
  "vcs_revision [] = None"
| "vcs_revision ((key, val) # settings) =
     (if key = ''vcs.revision'' \<and> 7 \<le> length val then Some (''devel-'' @ take 7 val) else vcs_revision settings)"

text \<open>\<open>Version\<close>, from the linked version and the build information.\<close>

definition Version :: "string \<Rightarrow> (string \<times> string) list option \<Rightarrow> string" where
  "Version version info =
     (if version \<noteq> [] then version
      else case Option.bind info vcs_revision of Some v \<Rightarrow> v | None \<Rightarrow> defaultVersion)"

section \<open>Settings\<close>

definition envEnabled :: "(string \<Rightarrow> string) \<Rightarrow> string \<Rightarrow> bool" where
  "envEnabled getenv name = (let val = getenv name in val \<noteq> [] \<and> val \<noteq> ''0'')"

definition socketSetting :: "(string \<Rightarrow> string) \<Rightarrow> string" where
  "socketSetting getenv =
     (let env = getenv ''PCSCLITE_CSOCK_NAME'' in
      if env \<noteq> [] then env @ '' (PCSCLITE_CSOCK_NAME)''
      else ''default (/run/pcscd/pcscd.comm, /var/run/pcscd/pcscd.comm)'')"

definition settingOrOff :: "string \<Rightarrow> string" where
  "settingOrOff val = (if val = [] then ''off'' else val)"

section \<open>The host\<close>

record 'w host =
  ho_showVersion :: bool
  ho_version :: string
  ho_buildInfo :: "(string \<times> string) list option"
  ho_getenv :: "string \<Rightarrow> string"
  ho_readFile :: "string \<Rightarrow> byte list option"
  ho_listen :: "string \<Rightarrow> bool"
  ho_net :: "'w \<Rightarrow> tree"
  ho_pcsc :: "'w watch_host"
  ho_start :: int
  ho_times :: "nat \<Rightarrow> int"

text \<open>The settings line: a key for every parameter of the environment.\<close>

definition go_bool :: "bool \<Rightarrow> string" where
  "go_bool b = (if b then ''true'' else ''false'')"

definition settings_report :: "'w host \<Rightarrow> (string \<times> string) list" where
  "settings_report h =
     (let getenv = ho_getenv h in
      [(''version'', Version (ho_version h) (ho_buildInfo h)),
       (''debug'', go_bool (envEnabled getenv ''DEBUG'')),
       (''socket'', socketSetting getenv),
       (''usb_path_id'', go_bool (envEnabled getenv ''PCSCID_USB_PATH_ID'')),
       (''mac_id'', go_bool (envEnabled getenv ''PCSCID_MAC_ID'')),
       (''sign_key'', settingOrOff (getenv ''PCSCID_SIGN_KEY'')),
       (''http_addr'', settingOrOff (getenv ''PCSCID_HTTP_ADDR'')),
       (''http_allow_remote'', go_bool (envEnabled getenv ''PCSCID_HTTP_ALLOW_REMOTE''))])"

record crypto =
  cr_sha512 :: "byte list \<Rightarrow> byte list"
  cr_sign :: "byte list \<Rightarrow> byte list \<Rightarrow> byte list"
  cr_verify :: "byte list \<Rightarrow> byte list \<Rightarrow> byte list \<Rightarrow> bool"

datatype load_error = KeyUnreadable | KeyUnusable key_error

datatype run_error = InventoryFailed perror | SignKeyFailed load_error | ListenRefused listen_error
  | ListenFailed | WatchFailed perror | NilCard

record outcome =
  oc_stdout :: "string list"
  oc_report :: "(string \<times> string) list list"
  oc_bridge :: "Bridge option"
  oc_error :: "run_error option"

text \<open>\<open>NewSigner\<close>: the key of the file; a signer is its method value \<open>Sign\<close>.\<close>

definition NewSigner :: "crypto \<Rightarrow> (string \<Rightarrow> byte list option) \<Rightarrow> string \<Rightarrow> load_error + Signer" where
  "NewSigner cr readFile path =
     (case readFile path of
        None \<Rightarrow> Inl KeyUnreadable
      | Some data \<Rightarrow>
          (case parseOpenSSHEd25519 (cr_sign cr) (cr_verify cr) data of
             Inl e \<Rightarrow> Inl (KeyUnusable e)
           | Inr key \<Rightarrow> Inr (Sign (cr_sha512 cr) (cr_sign cr) key)))"

section \<open>The startup report\<close>

text \<open>\<open>fmt.Sprintf("% X")\<close>\<close>

definition spaced_hex :: "byte list \<Rightarrow> string" where
  "spaced_hex bs = Join '' '' (map (\<lambda>b. [hex_digit (unat b div 16), hex_digit (unat b mod 16)]) bs)"

text \<open>The details of one reader, \<open>None\<close> where a present card without its \<open>Card\<close> would panic.\<close>

definition reader_details :: "ReaderInfo \<Rightarrow> (string \<times> string) list option" where
  "reader_details r =
     (let details = [(''reader'', ri_Reader r), (''model'', ri_ModelTag r), (''tag'', ri_Tag r), (''tier'', ri_Tier r)];
          details = (if ri_Serial r \<noteq> [] then details @ [(''serial'', ri_Serial r)] else details);
          details = (if ri_Port r \<noteq> [] then details @ [(''port'', ri_Port r)] else details)
      in if ri_CardPresent r then
           (case ri_Card r of None \<Rightarrow> None
            | Some c \<Rightarrow> Some (
                if card_Source c = ''uid'' then
                  details @ [(''card'', card_ID c), (''card_type'', card_Type c), (''card_source'', card_Source c)]
                else
                  details @ [(''card'', ''present without a valid uid, no btag''), (''card_type'', card_Type c),
                    (''card_source'', card_Source c), (''card_atr'', spaced_hex (card_ATR c))]))
         else
           let note = (if ri_Port r \<noteq> []
             then ''usb port pinned from the sysfs device scan; the hardware serial needs a presented card''
             else ''unit facts need a presented card, the report starts at the model level tag'')
           in Some (details @ [(''card'', ''absent''), (''note'', note)]))"

section \<open>The loop\<close>

definition event_tag :: "Event \<Rightarrow> string" where
  "event_tag ev =
     (let readerTag = ev_ReaderTag ev in
      if readerTag = [] then ReaderTagWithUnit (ev_Reader ev) (ev_ReaderSerial ev) (ev_ReaderPort ev) else readerTag)"

definition output_line :: "Signer option \<Rightarrow> string \<Rightarrow> string" where
  "output_line signer line =
     (case signer of None \<Rightarrow> line | Some sign \<Rightarrow> line @ [sshsigSeparator] @ sign (bytes_of line))"

fun emit_events :: "Signer option \<Rightarrow> Bridge option \<Rightarrow> (int \<times> Event) list \<Rightarrow> string list \<times> Bridge option \<times> bool" where
  "emit_events signer bridge [] = ([], bridge, True)"
| "emit_events signer bridge ((now, ev) # evs) =
     (if ev_Kind ev \<noteq> KindInsert then emit_events signer bridge evs
      else case ev_Card ev of
        None \<Rightarrow> ([], bridge, False)
      | Some c \<Rightarrow>
          let line = output_line signer (''#'' @ event_tag ev @ '':'' @ card_ID c);
              (lines, bridge, ok) = emit_events signer (map_option (\<lambda>b. Feed b now ev) bridge) evs
          in (line # lines, bridge, ok))"

section \<open>The run\<close>

definition command_options :: "(string \<Rightarrow> string) \<Rightarrow> Options" where
  "command_options getenv = \<lparr>opt_SocketPath = [], opt_SysfsUSBRoot = [],
     opt_USBPathID = envEnabled getenv ''PCSCID_USB_PATH_ID'', opt_MACID = envEnabled getenv ''PCSCID_MAC_ID'',
     opt_MachineID = []\<rparr>"

definition command_env :: "'w host \<Rightarrow> 'w \<Rightarrow> watchEnv" where
  "command_env h w = watchOptions (ho_net h w) (Some (command_options (ho_getenv h)))"

definition fails :: "(string \<times> string) list list \<Rightarrow> Bridge option \<Rightarrow> run_error \<Rightarrow> outcome" where
  "fails report bridge e = \<lparr>oc_stdout = [], oc_report = report, oc_bridge = bridge, oc_error = Some e\<rparr>"

definition load_signer :: "crypto \<Rightarrow> 'w host \<Rightarrow> load_error + Signer option" where
  "load_signer cr h =
     (let signKey = ho_getenv h ''PCSCID_SIGN_KEY'' in
      if signKey = [] then Inr None
      else case NewSigner cr (ho_readFile h) signKey of Inl e \<Rightarrow> Inl e | Inr s \<Rightarrow> Inr (Some s))"

definition open_bridge :: "'w host \<Rightarrow> Signer option \<Rightarrow> run_error + Bridge option" where
  "open_bridge h signer =
     (let bridgeAddr = ho_getenv h ''PCSCID_HTTP_ADDR'';
          allowRemote = envEnabled (ho_getenv h) ''PCSCID_HTTP_ALLOW_REMOTE'' in
      if bridgeAddr = [] then Inr None
      else case RequireLoopback bridgeAddr allowRemote of
        Some e \<Rightarrow> Inl (ListenRefused e)
      | None \<Rightarrow>
          if \<not> ho_listen h bridgeAddr then Inl ListenFailed
          else Inr (Some (NewBridge (Some \<lparr>o_Capacity = 0, o_DedupWindow = 0, o_StartupGrace = 0,
            o_Signer = signer\<rparr>) (ho_start h))))"

text \<open>The events of the channel, each with the instant at which it is fed to the bridge.\<close>

definition timed :: "(nat \<Rightarrow> int) \<Rightarrow> Event list \<Rightarrow> (int \<times> Event) list" where
  "timed clock evs = map (\<lambda>(i, ev). (clock i, ev)) (enumerate 0 evs)"

definition run :: "crypto \<Rightarrow> 'w host \<Rightarrow> 'w \<Rightarrow> outcome option" where
  "run cr h w =
     (if ho_showVersion h
      then Some \<lparr>oc_stdout = [''pcscid '' @ Version (ho_version h) (ho_buildInfo h)], oc_report = [],
        oc_bridge = None, oc_error = None\<rparr>
      else case IdentifyReaders (ho_pcsc h) (command_env h w) w of
        (Inl e, w) \<Rightarrow> Some (fails [] None (InventoryFailed e))
      | (Inr readers, w) \<Rightarrow>
      (case those (map reader_details readers) of
        None \<Rightarrow> Some (fails [] None NilCard)
      | Some report \<Rightarrow>
      (case load_signer cr h of
        Inl e \<Rightarrow> Some (fails report None (SignKeyFailed e))
      | Inr signer \<Rightarrow>
      (case open_bridge h signer of
        Inl e \<Rightarrow> Some (fails report None e)
      | Inr bridge \<Rightarrow>
      (case Watch (ho_pcsc h) (command_env h w) w of
        Inl e \<Rightarrow> Some (fails report bridge (WatchFailed e))
      | Inr None \<Rightarrow> None
      | Inr (Some (w, log)) \<Rightarrow>
          (case emit_events signer bridge (timed (ho_times h) (delivered log)) of (lines, bridge, ok) \<Rightarrow>
             Some \<lparr>oc_stdout = lines, oc_report = report, oc_bridge = bridge,
               oc_error = (if ok then None else Some NilCard)\<rparr>))))))"

text \<open>How \<open>main\<close> ends the process: an error of \<open>run\<close> gives status 1, a panic the status 2 of the Go runtime.\<close>

definition exit_status :: "outcome \<Rightarrow> nat" where
  "exit_status oc = (case oc_error oc of None \<Rightarrow> 0 | Some NilCard \<Rightarrow> 2 | Some _ \<Rightarrow> 1)"

section \<open>Lines and presentations\<close>

definition plain_line :: "Event \<Rightarrow> string" where
  "plain_line ev = ''#'' @ event_tag ev @ '':'' @ (case ev_Card ev of None \<Rightarrow> [] | Some c \<Rightarrow> card_ID c)"

definition inserts :: "Event list \<Rightarrow> Event list" where
  "inserts evs = filter (\<lambda>ev. ev_Kind ev = KindInsert) evs"

lemma emit_genuine:
  "list_all (genuine machine) (map snd feeds) \<Longrightarrow>
   emit_events signer bridge feeds =
     (map (output_line signer \<circ> plain_line) (inserts (map snd feeds)), map_option (\<lambda>b. feed_all b feeds) bridge, True)"
proof (induction feeds arbitrary: bridge)
  case Nil
  then show ?case by (cases bridge) (simp_all add: inserts_def feed_all_def)
next
  case (Cons feed feeds)
  obtain now ev where feed: "feed = (now, ev)" by (cases feed)
  have rest: "feed_all b (feed # feeds) = feed_all (Feed b now ev) feeds" for b by (simp add: feed_all_def feed)
  have gen: "genuine machine ev" "list_all (genuine machine) (map snd feeds)" using Cons.prems by (simp_all add: feed)
  show ?case
  proof (cases "ev_Kind ev = KindInsert")
    case True
    then obtain c where "ev_Card ev = Some c" using gen(1) by (auto simp: genuine_def)
    then show ?thesis
      using True Cons.IH [OF gen(2)]
      by (simp add: feed inserts_def plain_line_def rest [unfolded feed] option.map_comp comp_def)
  next
    case False
    then show ?thesis
      using Cons.IH [OF gen(2)] by (simp add: feed inserts_def rest [unfolded feed] Feed_def)
  qed
qed

lemma timed_events [simp]: "map snd (timed clock evs) = evs"
  by (simp add: timed_def comp_def case_prod_unfold)

text \<open>A reader of the inventory with a card has its \<open>Card\<close>.\<close>

lemma identified_details: "identify_reader api env st reg w = (info, reg', w') \<Longrightarrow> reader_details info \<noteq> None"
  by (auto simp: identify_reader_def reader_info_def reader_details_def Let_def split: prod.splits if_splits)

lemma inventory_details:
  "identify_all api env sts reg w = (infos, w') \<Longrightarrow> those (map reader_details infos) \<noteq> None"
proof (induction sts arbitrary: reg w infos w')
  case (Cons st sts)
  obtain info reg1 w1 where i: "identify_reader api env st reg w = (info, reg1, w1)" by (metis surj_pair)
  obtain rest w2 where r: "identify_all api env sts reg1 w1 = (rest, w2)" by force
  have "infos = info # rest" using Cons.prems by (simp add: i r)
  with identified_details [OF i] Cons.IH [OF r] show ?case by auto
qed simp

lemma report_made:
  "IdentifyReaders host env w = (Inr readers, w') \<Longrightarrow> those (map reader_details readers) \<noteq> None"
  by (auto simp: IdentifyReaders_def dest: inventory_details split: prod.splits sum.splits)

lemma run_details:
  assumes "run cr h w = Some oc" "\<not> ho_showVersion h"
  shows "(\<exists>report bridge e. oc = fails report bridge e \<and> e \<noteq> NilCard
        \<and> (\<forall>b. bridge = Some b \<longrightarrow> (\<exists>signer. load_signer cr h = Inr signer \<and> open_bridge h signer = Inr (Some b))))
    \<or> (\<exists>w1 w2 log signer bridge. load_signer cr h = Inr signer \<and> open_bridge h signer = Inr bridge
        \<and> Watch (ho_pcsc h) (command_env h w1) w1 = Inr (Some (w2, log))
        \<and> list_all (genuine (env_machine (command_env h w1))) (delivered log)
        \<and> oc_error oc = None
        \<and> oc_stdout oc = map (output_line signer \<circ> plain_line) (inserts (delivered log))
        \<and> oc_bridge oc = map_option (\<lambda>b. feed_all b (timed (ho_times h) (delivered log))) bridge)"
proof -
  obtain r w1 where r: "IdentifyReaders (ho_pcsc h) (command_env h w) w = (r, w1)" by force
  show ?thesis
  proof (cases r)
    case (Inl e)
    then show ?thesis using assms by (auto simp: run_def r)
  next
    case (Inr readers)
    obtain report where rep: "those (map reader_details readers) = Some report"
      using report_made [OF r [unfolded Inr]] by blast
    show ?thesis
    proof (cases "load_signer cr h")
      case (Inl e)
      then show ?thesis using assms by (auto simp: run_def r Inr rep)
    next
      case (Inr signer)
      note sig = Inr
      show ?thesis
      proof (cases "open_bridge h signer")
        case (Inl e)
        moreover have "e \<noteq> NilCard" using Inl by (auto simp: open_bridge_def Let_def split: if_splits option.splits)
        ultimately show ?thesis using assms by (auto simp: run_def r \<open>r = Inr readers\<close> rep sig)
      next
        case (Inr bridge)
        have run: "(case Watch (ho_pcsc h) (command_env h w1) w1 of
            Inl e \<Rightarrow> Some (fails report bridge (WatchFailed e))
          | Inr None \<Rightarrow> None
          | Inr (Some (w, log)) \<Rightarrow>
              (case emit_events signer bridge (timed (ho_times h) (delivered log)) of (lines, bridge, ok) \<Rightarrow>
                 Some \<lparr>oc_stdout = lines, oc_report = report, oc_bridge = bridge,
                   oc_error = (if ok then None else Some NilCard)\<rparr>)) = Some oc"
          using assms by (simp add: run_def r \<open>r = Inr readers\<close> rep sig Inr)
        show ?thesis
        proof (cases "Watch (ho_pcsc h) (command_env h w1) w1")
          case (Inl e)
          then have "oc = fails report bridge (WatchFailed e)" using run by simp
          then show ?thesis using sig Inr by blast
        next
          case watch: (Inr res)
          with run obtain w2 log where res: "res = Some (w2, log)" by (cases res) auto
          note gen = session_genuine [OF watch [unfolded res]]
          from gen have "list_all (genuine (env_machine (command_env h w1))) (map snd (timed (ho_times h) (delivered log)))"
            by simp
          from emit_genuine [OF this, of signer bridge] run watch res
          have "oc_error oc = None" "oc_stdout oc = map (output_line signer \<circ> plain_line) (inserts (delivered log))"
            "oc_bridge oc = map_option (\<lambda>b. feed_all b (timed (ho_times h) (delivered log))) bridge"
            by auto
          with gen watch res sig Inr show ?thesis by blast
        qed
      qed
    qed
  qed
qed

section \<open>Properties\<close>

text \<open>The command never panics: every insertion it prints and every card its startup report describes has
  its \<open>Card\<close>, whatever pcscd, the environment and the key file hold.\<close>

theorem command_never_panics: "map_option oc_error (run cr h w) \<noteq> Some (Some NilCard)"
proof
  assume "map_option oc_error (run cr h w) = Some (Some NilCard)"
  then obtain oc where oc: "run cr h w = Some oc" "oc_error oc = Some NilCard" by auto
  moreover from this have "\<not> ho_showVersion h" by (auto simp: run_def)
  ultimately show False using run_details [of cr h w oc] by (auto simp: fails_def)
qed

lemma plain_line_genuine:
  assumes "genuine machine ev" "ev_Kind ev = KindInsert"
  shows "\<exists>crd. plain_line ev = ''#'' @ ReaderTagWithMachine (ev_Reader ev) (ev_ReaderSerial ev) (ev_ReaderPort ev) machine
      @ '':'' @ Btag (card_Type crd) (card_UID crd)
    \<and> ev_Card ev = Some crd \<and> card_UID crd \<noteq> [] \<and> \<not> isRandomUID (card_UID crd)
    \<and> card_Type crd = DetectType (card_ATR crd) \<and> card_Reader crd = ev_Reader ev"
proof -
  have "tag_shape ''xx-xxxx-xx'' (ReaderTagWithMachine r s p m)" for r s p m
    by (simp add: ReaderTagWithMachine_def ReaderTagWithUnit_def ReaderTag_def btagFormat_8)
  moreover have "tag_shape (x # p) s \<Longrightarrow> s \<noteq> []" for x p s by (auto simp: tag_shape_def)
  ultimately have "ReaderTagWithMachine r s p m \<noteq> []" for r s p m by blast
  with assms show ?thesis by (auto simp: genuine_def plain_line_def event_tag_def)
qed

lemma tag_shape_append: "tag_shape p s \<Longrightarrow> tag_shape q t \<Longrightarrow> tag_shape (p @ q) (s @ t)"
  by (simp add: tag_shape_def list_all2_appendI)

lemma plain_line_shape:
  assumes "genuine machine ev" "ev_Kind ev = KindInsert"
  shows "tag_shape ''#xx-xxxx-xx:xxx-xxx-xxxx'' (plain_line ev)"
proof -
  have reader: "tag_shape ''xx-xxxx-xx'' (ReaderTagWithMachine r s p m)" for r s p m
    by (simp add: ReaderTagWithMachine_def ReaderTagWithUnit_def ReaderTag_def btagFormat_8)
  have btag: "tag_shape ''xxx-xxx-xxxx'' (Btag t u)" for t u by (simp add: Btag_def btagFormat_10)
  have pattern: "''#xx-xxxx-xx:xxx-xxx-xxxx'' = ''#'' @ ''xx-xxxx-xx'' @ '':'' @ ''xxx-xxx-xxxx''" by simp
  have "tag_shape (''#'' @ ''xx-xxxx-xx'' @ '':'' @ ''xxx-xxx-xxxx'') (''#'' @ ReaderTagWithMachine r s p m @ '':'' @ Btag t u)"
    for r s p m t u
    by (intro tag_shape_append reader btag) (simp_all add: tag_shape_def)
  then show ?thesis using plain_line_genuine [OF assms] unfolding pattern by metis
qed

text \<open>C3. What the command prints is its watch session: without an error there is one line for every insertion
  of the session, in order, and none besides; every line has the form \<open>#xx-xxxx-xx:xxx-xxx-xxxx\<close>, the
  tag of the unit facts of the reader and the btag of a UID that is not random with the type of the
  card's answer to reset, and, with a key configured, \<open>$\<close> and the signature of these very bytes.\<close>

theorem command_prints:
  assumes "run cr h w = Some oc" "\<not> ho_showVersion h" "oc_error oc = None"
  shows "\<exists>w1 w2 log signer. Watch (ho_pcsc h) (command_env h w1) w1 = Inr (Some (w2, log))
    \<and> load_signer cr h = Inr signer
    \<and> list_all2 (\<lambda>line ev. \<exists>plain crd. line = output_line signer plain \<and> ev_Card ev = Some crd
        \<and> plain = ''#'' @ ReaderTagWithMachine (ev_Reader ev) (ev_ReaderSerial ev) (ev_ReaderPort ev)
            (env_machine (command_env h w1)) @ '':'' @ Btag (card_Type crd) (card_UID crd)
        \<and> tag_shape ''#xx-xxxx-xx:xxx-xxx-xxxx'' plain
        \<and> card_UID crd \<noteq> [] \<and> \<not> isRandomUID (card_UID crd) \<and> card_Type crd = DetectType (card_ATR crd))
      (oc_stdout oc) (inserts (delivered log))"
proof -
  have "oc \<noteq> fails report bridge e" for report bridge e using assms(3) by (auto simp: fails_def)
  with run_details [OF assms(1,2)] obtain w1 w2 log signer where
    run: "Watch (ho_pcsc h) (command_env h w1) w1 = Inr (Some (w2, log))" "load_signer cr h = Inr signer"
    "list_all (genuine (env_machine (command_env h w1))) (delivered log)"
    "oc_stdout oc = map (output_line signer \<circ> plain_line) (inserts (delivered log))" by blast
  have "\<exists>crd. plain_line ev = ''#'' @ ReaderTagWithMachine (ev_Reader ev) (ev_ReaderSerial ev) (ev_ReaderPort ev)
            (env_machine (command_env h w1)) @ '':'' @ Btag (card_Type crd) (card_UID crd)
        \<and> tag_shape ''#xx-xxxx-xx:xxx-xxx-xxxx'' (plain_line ev) \<and> ev_Card ev = Some crd
        \<and> card_UID crd \<noteq> [] \<and> \<not> isRandomUID (card_UID crd) \<and> card_Type crd = DetectType (card_ATR crd)"
    if "ev \<in> set (inserts (delivered log))" for ev
  proof -
    from that run(3) have "genuine (env_machine (command_env h w1)) ev" "ev_Kind ev = KindInsert"
      by (auto simp: inserts_def list_all_iff)
    from plain_line_genuine [OF this] plain_line_shape [OF this] show ?thesis by blast
  qed
  then have "list_all2 (\<lambda>line ev. \<exists>plain crd. line = output_line signer plain \<and> ev_Card ev = Some crd
        \<and> plain = ''#'' @ ReaderTagWithMachine (ev_Reader ev) (ev_ReaderSerial ev) (ev_ReaderPort ev)
            (env_machine (command_env h w1)) @ '':'' @ Btag (card_Type crd) (card_UID crd)
        \<and> tag_shape ''#xx-xxxx-xx:xxx-xxx-xxxx'' plain
        \<and> card_UID crd \<noteq> [] \<and> \<not> isRandomUID (card_UID crd) \<and> card_Type crd = DetectType (card_ATR crd))
      (oc_stdout oc) (inserts (delivered log))"
    unfolding run(4) list_all2_map1 comp_def by (intro list_all2_same [THEN iffD2] ballI) blast
  with run(1,2) show ?thesis by blast
qed

lemma calls_fed: "(now, reader, btag) \<in> set (calls_of feeds) \<Longrightarrow>
    \<exists>ev \<in> set (inserts (map snd feeds)). plain_line ev = ''#'' @ reader @ '':'' @ btag"
proof (induction feeds rule: calls_of.induct)
  case (2 now' ev feeds)
  then show ?case
    by (cases "feed_call ev") (auto simp: inserts_def feed_call_def plain_line_def event_tag_def Let_def
        split: if_splits option.splits)
qed simp

lemma in_numbered: "e \<in> set (numbered m ps) \<Longrightarrow> \<exists>i. \<exists>p \<in> set ps. e = presentation i p"
proof (induction ps arbitrary: m)
  case (Cons p ps)
  then consider "e = presentation (Suc m) p" | "e \<in> set (numbered (Suc m) ps)" by (auto simp: numbered_Cons)
  then show ?case
  proof cases
    case 2
    from Cons.IH [OF this] show ?thesis by auto
  qed (simp, blast)
qed (simp add: numbered_def)

lemma bridge_presented:
  assumes "e \<in> set (h_buf (b_hub (feed_all b feeds)))" "b = NewBridge (Some opts) start"
  shows "\<exists>ev \<in> set (inserts (map snd feeds)). plain_line ev = ''#'' @ be_Reader e @ '':'' @ be_Card e
    \<and> be_Sig e = signature_of (o_Signer opts) (be_Reader e) (be_Card e)"
proof -
  define ps where "ps = granted (o_Signer opts) (fst (allow_all (b_dd b) (calls_of feeds))) (calls_of feeds)"
  obtain cap where "b_hub b = newBridgeHub cap" unfolding assms(2) NewBridge_parts by blast
  then have "b_hub (feed_all b feeds) = add_all (newBridgeHub cap) ps"
    unfolding feed_all_hub ps_def by (simp add: assms(2) NewBridge_parts)
  with assms(1) have "e \<in> set (numbered 0 ps)" by (auto simp: hub_after keep_last_def dest: in_set_dropD)
  from in_numbered [OF this] obtain i p where p: "p \<in> set ps" "e = presentation i p" by blast
  then obtain now reader btag where call: "(now, reader, btag) \<in> set (calls_of feeds)"
    "p = (reader, btag, signature_of (o_Signer opts) reader btag)"
    by (auto simp: ps_def granted_def dest: set_zip_rightD)
  from calls_fed [OF call(1)] p(2) call(2) show ?thesis by (auto simp: presentation_def)
qed

text \<open>C22. The browser bridge shows nothing stdout does not: for every event in the replay buffer the line
  with its reader tag, its card and its signature was printed.\<close>

theorem bridge_matches_stdout:
  assumes "run cr h w = Some oc" "oc_bridge oc = Some b" "e \<in> set (h_buf (b_hub b))"
  shows "''#'' @ be_Reader e @ '':'' @ be_Card e @ (if ho_getenv h ''PCSCID_SIGN_KEY'' = [] then [] else ''$'' @ be_Sig e)
    \<in> set (oc_stdout oc)"
proof -
  have fresh: "\<exists>opts. b0 = NewBridge (Some opts) (ho_start h) \<and> o_Signer opts = signer"
    if "open_bridge h signer = Inr (Some b0)" for b0 signer
    using that by (auto simp: open_bridge_def Let_def split: if_splits option.splits)
  have keyed: "signer = None \<longleftrightarrow> ho_getenv h ''PCSCID_SIGN_KEY'' = []" if "load_signer cr h = Inr signer" for signer
    using that by (auto simp: load_signer_def Let_def split: if_splits sum.splits)
  have shown: "\<not> ho_showVersion h" using assms(1,2) by (auto simp: run_def)
  from run_details [OF assms(1) this] show ?thesis
  proof
    assume "\<exists>report bridge e. oc = fails report bridge e \<and> e \<noteq> NilCard
        \<and> (\<forall>b. bridge = Some b \<longrightarrow> (\<exists>signer. load_signer cr h = Inr signer \<and> open_bridge h signer = Inr (Some b)))"
    then obtain signer where "open_bridge h signer = Inr (Some b)" using assms(2) by (auto simp: fails_def)
    from fresh [OF this] have "h_buf (b_hub b) = []" by (auto simp: NewBridge_parts newBridgeHub_def)
    with assms(3) show ?thesis by simp
  next
    assume "\<exists>w1 w2 log signer bridge. load_signer cr h = Inr signer \<and> open_bridge h signer = Inr bridge
        \<and> Watch (ho_pcsc h) (command_env h w1) w1 = Inr (Some (w2, log))
        \<and> list_all (genuine (env_machine (command_env h w1))) (delivered log)
        \<and> oc_error oc = None
        \<and> oc_stdout oc = map (output_line signer \<circ> plain_line) (inserts (delivered log))
        \<and> oc_bridge oc = map_option (\<lambda>b. feed_all b (timed (ho_times h) (delivered log))) bridge"
    then obtain log signer bridge where all: "load_signer cr h = Inr signer" "open_bridge h signer = Inr bridge"
      "oc_stdout oc = map (output_line signer \<circ> plain_line) (inserts (delivered log))"
      "oc_bridge oc = map_option (\<lambda>b. feed_all b (timed (ho_times h) (delivered log))) bridge" by blast
    then obtain b0 where "bridge = Some b0" "b = feed_all b0 (timed (ho_times h) (delivered log))"
      using assms(2) by (cases bridge) auto
    with all have run: "load_signer cr h = Inr signer" "open_bridge h signer = Inr (Some b0)"
      "oc_stdout oc = map (output_line signer \<circ> plain_line) (inserts (delivered log))"
      "b = feed_all b0 (timed (ho_times h) (delivered log))" by simp_all
    from fresh [OF run(2)] obtain opts where "b0 = NewBridge (Some opts) (ho_start h)" "o_Signer opts = signer" by blast
    with bridge_presented [of e b0 "timed (ho_times h) (delivered log)" opts] assms(3) run(4) obtain ev where
      ev: "ev \<in> set (inserts (delivered log))" "plain_line ev = ''#'' @ be_Reader e @ '':'' @ be_Card e"
      "be_Sig e = signature_of signer (be_Reader e) (be_Card e)" by auto
    from ev(1) have "output_line signer (plain_line ev) \<in> set (oc_stdout oc)" by (simp add: run(3))
    with keyed [OF run(1)] ev(2,3) show ?thesis
      by (cases signer) (simp_all add: output_line_def signature_of_def sshsigSeparator_def)
  qed
qed

text \<open>C34. A setup that cannot be honoured stops the command: a configured key that does not load, or a listen
  address that is not loopback without the override, ends it with that error and exit status 1 before anything is printed
  or served, never with unsigned lines or an open bridge.\<close>

theorem command_fails_closed:
  assumes "\<not> ho_showVersion h"
    and "ho_getenv h ''PCSCID_SIGN_KEY'' \<noteq> [] \<and> NewSigner cr (ho_readFile h) (ho_getenv h ''PCSCID_SIGN_KEY'') = Inl bad
      \<or> ho_getenv h ''PCSCID_HTTP_ADDR'' \<noteq> [] \<and> ho_getenv h ''PCSCID_HTTP_ALLOW_REMOTE'' \<in> {[], ''0''}
        \<and> RequireLoopback (ho_getenv h ''PCSCID_HTTP_ADDR'') False \<noteq> None"
  shows "\<exists>oc e. run cr h w = Some oc \<and> oc_stdout oc = [] \<and> oc_bridge oc = None \<and> oc_error oc = Some e
    \<and> exit_status oc = 1
    \<and> (case e of SignKeyFailed _ \<Rightarrow> ho_getenv h ''PCSCID_SIGN_KEY'' \<noteq> []
        | ListenRefused _ \<Rightarrow> ho_getenv h ''PCSCID_HTTP_ADDR'' \<noteq> []
        | e \<Rightarrow> \<exists>w1 perr. e = InventoryFailed perr \<and> IdentifyReaders (ho_pcsc h) (command_env h w) w = (Inl perr, w1))"
proof -
  obtain r w1 where r: "IdentifyReaders (ho_pcsc h) (command_env h w) w = (r, w1)" by force
  show ?thesis
  proof (cases r)
    case (Inl e)
    then show ?thesis using assms(1) by (simp add: run_def r fails_def exit_status_def)
  next
    case (Inr readers)
    obtain report where rep: "those (map reader_details readers) = Some report"
      using report_made [OF r [unfolded Inr]] by blast
    show ?thesis
    proof (cases "load_signer cr h")
      case (Inl e)
      then have "ho_getenv h ''PCSCID_SIGN_KEY'' \<noteq> []" by (auto simp: load_signer_def Let_def split: if_splits)
      then show ?thesis using assms(1) Inl by (simp add: run_def r \<open>r = Inr readers\<close> rep fails_def exit_status_def)
    next
      case (Inr signer)
      then have "\<not> (ho_getenv h ''PCSCID_SIGN_KEY'' \<noteq> []
          \<and> NewSigner cr (ho_readFile h) (ho_getenv h ''PCSCID_SIGN_KEY'') = Inl bad)"
        by (auto simp: load_signer_def Let_def split: if_splits)
      with assms(2) have addr: "ho_getenv h ''PCSCID_HTTP_ADDR'' \<noteq> []"
        "RequireLoopback (ho_getenv h ''PCSCID_HTTP_ADDR'') False \<noteq> None"
        "\<not> envEnabled (ho_getenv h) ''PCSCID_HTTP_ALLOW_REMOTE''"
        by (auto simp: envEnabled_def Let_def)
      then obtain e where "open_bridge h signer = Inl (ListenRefused e)"
        by (auto simp: open_bridge_def Let_def)
      then show ?thesis using assms(1) addr(1) Inr by (simp add: run_def r \<open>r = Inr readers\<close> rep fails_def exit_status_def)
    qed
  qed
qed

section \<open>Witnesses\<close>

definition sample_crypto :: crypto where
  "sample_crypto = \<lparr>cr_sha512 = (\<lambda>m. m), cr_sign = (\<lambda>key m. m), cr_verify = (\<lambda>pub m sig. m = sig)\<rparr>"

text \<open>A run with the bridge on the given address.\<close>

definition sample_command :: "string \<Rightarrow> nat host" where
  "sample_command addr = \<lparr>ho_showVersion = False, ho_version = [], ho_buildInfo = None,
     ho_getenv = (\<lambda>name. if name = ''PCSCID_HTTP_ADDR'' then addr else []), ho_readFile = (\<lambda>path. None),
     ho_listen = (\<lambda>addr. True), ho_net = (\<lambda>n. Map.empty), ho_pcsc = sample_host, ho_start = 0,
     ho_times = (\<lambda>i. 3000000000)\<rparr>"

lemma sample_command_env:
  "\<not> env_useUSBPath (command_env (sample_command addr) w)" "env_machine (command_env (sample_command addr) w) = []"
  by (simp_all add: command_env_def watchOptions_def command_options_def sample_command_def envEnabled_def Let_def)

definition sample_bridge_now :: Bridge where
  "sample_bridge_now = feed_all (NewBridge (Some \<lparr>o_Capacity = 0, o_DedupWindow = 0, o_StartupGrace = 0, o_Signer = None\<rparr>) 0)
     [(3000000000, sample_sent [])]"

lemma sample_command_run:
  "\<exists>oc. run sample_crypto (sample_command ''127.0.0.1:1'') 0 = Some oc \<and> oc_error oc = None
    \<and> oc_stdout oc = [plain_line (sample_sent [])] \<and> oc_bridge oc = Some sample_bridge_now"
proof -
  let ?h = "sample_command ''127.0.0.1:1''"
  have "IdentifyReaders sample_host env 0 = (Inr [], 1)" for env
    by (simp add: IdentifyReaders_def sample_host_def sample_client_def)
  then have inv: "IdentifyReaders (ho_pcsc ?h) env 0 = (Inr [], 1)" for env by (simp add: sample_command_def)
  have "RequireLoopback ''127.0.0.1:1'' False = None" by code_simp
  then have open': "load_signer sample_crypto ?h = Inr None" "open_bridge ?h None =
      Inr (Some (NewBridge (Some \<lparr>o_Capacity = 0, o_DedupWindow = 0, o_StartupGrace = 0, o_Signer = None\<rparr>) 0))"
    by (simp_all add: load_signer_def open_bridge_def sample_command_def envEnabled_def Let_def)
  have watch: "Watch (ho_pcsc ?h) (command_env ?h 1) 1 = Inr (Some (2, [Seen [sample_state ''R'' 4], Sent (sample_sent [])]))"
    using sample_session [of "command_env ?h 1"] by (simp add: sample_command_env del: One_nat_def) (simp add: sample_command_def)
  have "genuine [] (sample_sent [])" by (rule genuine_insert) (simp_all add: isRandomUID_def)
  then have "list_all (genuine []) (map snd (timed (ho_times ?h) [sample_sent []]))" by simp
  note emitted = emit_genuine [OF this, of None]
  have timed: "timed (ho_times ?h) [sample_sent []] = [(3000000000, sample_sent [])]"
    by (simp add: timed_def sample_command_def)
  have "emit_events None bridge (timed (ho_times ?h) [sample_sent []]) = ([plain_line (sample_sent [])],
      map_option (\<lambda>b. feed_all b [(3000000000, sample_sent [])]) bridge, True)" for bridge
    unfolding emitted by (simp add: timed inserts_def output_line_def)
  moreover have "\<not> ho_showVersion ?h" by (simp add: sample_command_def)
  ultimately show ?thesis
    by (simp add: run_def inv open' watch sample_bridge_now_def del: One_nat_def emit_events.simps)
qed

text \<open>One line for the one card.\<close>

theorem command_prints_witness:
  "\<exists>oc line. run sample_crypto (sample_command ''127.0.0.1:1'') 0 = Some oc \<and> oc_stdout oc = [line]
    \<and> tag_shape ''#xx-xxxx-xx:xxx-xxx-xxxx'' line"
proof -
  obtain oc where oc: "run sample_crypto (sample_command ''127.0.0.1:1'') 0 = Some oc" "oc_error oc = None"
    "oc_stdout oc = [plain_line (sample_sent [])]" using sample_command_run by blast
  have "\<not> ho_showVersion (sample_command ''127.0.0.1:1'')" by (simp add: sample_command_def)
  from command_prints [OF oc(1) this oc(2)] obtain signer ev where
    "load_signer sample_crypto (sample_command ''127.0.0.1:1'') = Inr signer"
    "\<exists>plain. plain_line (sample_sent []) = output_line signer plain \<and> tag_shape ''#xx-xxxx-xx:xxx-xxx-xxxx'' plain"
    unfolding oc(3) list_all2_Cons1 by blast
  moreover have "load_signer sample_crypto (sample_command ''127.0.0.1:1'') = Inr None"
    by (simp add: load_signer_def sample_command_def)
  ultimately show ?thesis using oc by (auto simp: output_line_def)
qed

theorem bridge_matches_stdout_witness:
  "\<exists>e. h_buf (b_hub sample_bridge_now) = [e] \<and> be_ID e = 1
    \<and> ''#'' @ be_Reader e @ '':'' @ be_Card e = plain_line (sample_sent [])"
proof -
  obtain oc where oc: "run sample_crypto (sample_command ''127.0.0.1:1'') 0 = Some oc"
    "oc_stdout oc = [plain_line (sample_sent [])]" "oc_bridge oc = Some sample_bridge_now"
    using sample_command_run by blast
  obtain reader btag where call: "feed_call (sample_sent []) = Some (reader, btag)"
    by (simp add: feed_call_def insert_event_def)
  have "\<not> Sub 3000000000 0 <s bridgeStartupGrace" by (simp add: Sub_def bridgeStartupGrace_def word_sless_alt)
  then have "fst (allow (newBridgeDedup bridgeDedupWindow bridgeStartupGrace 0) 3000000000 reader btag)"
    by (simp add: allow_def newBridgeDedup_def Let_def)
  then have "\<exists>e. h_buf (b_hub sample_bridge_now) = [e] \<and> be_ID e = 1"
    by (simp add: sample_bridge_now_def feed_all_def Feed_cases call NewBridge_parts add_def newBridgeHub_def Let_def)
  then obtain e where e: "h_buf (b_hub sample_bridge_now) = [e]" "be_ID e = 1" by blast
  have "ho_getenv (sample_command ''127.0.0.1:1'') ''PCSCID_SIGN_KEY'' = []" by (simp add: sample_command_def)
  with bridge_matches_stdout [OF oc(1,3), of e] e oc(2) show ?thesis by simp
qed

theorem command_fails_closed_witness:
  "\<exists>oc. run sample_crypto (sample_command ''0.0.0.0:1'') 0 = Some oc \<and> oc_stdout oc = [] \<and> oc_bridge oc = None
    \<and> oc_error oc \<noteq> None"
proof -
  let ?h = "sample_command ''0.0.0.0:1''"
  have "RequireLoopback ''0.0.0.0:1'' False \<noteq> None" by code_simp
  then have "ho_getenv ?h ''PCSCID_HTTP_ADDR'' \<noteq> [] \<and> ho_getenv ?h ''PCSCID_HTTP_ALLOW_REMOTE'' \<in> {[], ''0''}
        \<and> RequireLoopback (ho_getenv ?h ''PCSCID_HTTP_ADDR'') False \<noteq> None"
    by (simp add: sample_command_def)
  moreover have "\<not> ho_showVersion ?h" by (simp add: sample_command_def)
  ultimately show ?thesis using command_fails_closed [of ?h sample_crypto _ 0] by blast
qed

end
