(* ===== verification/Delivery.thy ===== *)
theory Delivery
  imports Command
begin

text \<open>
  The event channel between the watch loop and the command, with both running at once: \<open>emit\<close> and
  \<open>sleepCtx\<close> of \<open>pcscid.go\<close> with their selects, the buffer of \<open>Watch\<close>, and the body of the range loop of
  \<open>cmd/pcscid/main.go\<close>. Theory \<open>Command\<close> composes the two one after the other; here they are
  interleaved in any order, and what is printed and fed to the bridge is the same.
\<close>

section \<open>Select\<close>

text \<open>A select over one other case and \<open>ctx.Done()\<close>: which of the two fires, \<open>None\<close> while it blocks. When
  both are ready the runtime picks.\<close>

definition select_ctx :: "bool \<Rightarrow> bool \<Rightarrow> bool \<Rightarrow> bool option" where
  "select_ctx pick ready cancelled =
     (if ready \<and> cancelled then Some pick else if ready then Some True
      else if cancelled then Some False else None)"

definition sleepCtx :: "bool \<Rightarrow> bool \<Rightarrow> bool \<Rightarrow> bool option" where
  "sleepCtx pick elapsed cancelled = select_ctx pick elapsed cancelled"

section \<open>The channel\<close>

definition eventBuffer :: nat where "eventBuffer = 8"

text \<open>\<open>de_todo\<close> are the events the loop has yet to emit; the last three are the state of the command's loop,
  \<open>de_ok\<close> that it has not panicked.\<close>

record delivery =
  de_todo :: "Event list"
  de_queue :: "Event list"
  de_cancelled :: bool
  de_closed :: bool
  de_lines :: "string list"
  de_bridge :: "Bridge option"
  de_ok :: bool

definition opened_channel :: "Event list \<Rightarrow> Bridge option \<Rightarrow> delivery" where
  "opened_channel evs bridge = \<lparr>de_todo = evs, de_queue = [], de_cancelled = False, de_closed = False,
     de_lines = [], de_bridge = bridge, de_ok = True\<rparr>"

definition emit :: "bool \<Rightarrow> Event \<Rightarrow> delivery \<Rightarrow> (bool \<times> delivery) option" where
  "emit pick ev d =
     (case select_ctx pick (length (de_queue d) < eventBuffer) (de_cancelled d) of
        None \<Rightarrow> None
      | Some sends \<Rightarrow> Some (sends, if sends then d\<lparr>de_queue := de_queue d @ [ev]\<rparr> else d))"

text \<open>The body of the command's loop.\<close>

definition print_event :: "Signer option \<Rightarrow> int \<Rightarrow> Event \<Rightarrow> delivery \<Rightarrow> delivery" where
  "print_event signer now ev d =
     (if ev_Kind ev \<noteq> KindInsert then d
      else case ev_Card ev of
        None \<Rightarrow> d\<lparr>de_ok := False\<rparr>
      | Some c \<Rightarrow> d\<lparr>de_lines := de_lines d @ [output_line signer (''#'' @ event_tag ev @ '':'' @ card_ID c)],
                    de_bridge := map_option (\<lambda>b. Feed b now ev) (de_bridge d)\<rparr>)"

text \<open>The loop emits its next event, or returns when \<open>emit\<close> refuses it; the command takes an event, with
  the instant it is fed to the bridge; the context is cancelled; the loop returns because of that.\<close>

datatype delivery_op = Emitting bool | Taking int | Cancelling | Ending

fun deliver_step :: "Signer option \<Rightarrow> delivery \<Rightarrow> delivery_op \<Rightarrow> delivery" where
  "deliver_step signer d (Emitting pick) =
     (if de_closed d then d
      else case de_todo d of
        [] \<Rightarrow> d
      | ev # evs \<Rightarrow>
          (case emit pick ev d of
             None \<Rightarrow> d
           | Some (True, d) \<Rightarrow> d\<lparr>de_todo := evs\<rparr>
           | Some (False, d) \<Rightarrow> d\<lparr>de_closed := True\<rparr>))"
| "deliver_step signer d (Taking now) =
     (if \<not> de_ok d then d
      else case de_queue d of
        [] \<Rightarrow> d
      | ev # q \<Rightarrow> print_event signer now ev (d\<lparr>de_queue := q\<rparr>))"
| "deliver_step signer d Cancelling = d\<lparr>de_cancelled := True\<rparr>"
| "deliver_step signer d Ending = (if de_cancelled d then d\<lparr>de_closed := True\<rparr> else d)"

section \<open>The invariant\<close>

lemma emit_events_snoc:
  "emit_events signer bridge (feeds @ [(now, ev)]) =
     (case emit_events signer bridge feeds of (lines, b, ok) \<Rightarrow>
        if \<not> ok then (lines, b, False)
        else case emit_events signer b [(now, ev)] of (after, b, ok) \<Rightarrow> (lines @ after, b, ok))"
  by (induction signer bridge feeds rule: emit_events.induct)
    (auto simp: Let_def simp del: emit_events.simps(2) simp: emit_events.simps(2) split: prod.split option.split)

text \<open>What the command has done is what \<open>emit_events\<close> does with the events it took, and the rest of the
  events is in the buffer or still to be emitted.\<close>

definition delivery_inv :: "Signer option \<Rightarrow> Event list \<Rightarrow> Bridge option \<Rightarrow> delivery \<Rightarrow> bool" where
  "delivery_inv signer evs bridge d \<longleftrightarrow>
     (\<exists>taken. (de_lines d, de_bridge d, de_ok d) = emit_events signer bridge taken
        \<and> evs = map snd taken @ de_queue d @ de_todo d)
     \<and> length (de_queue d) \<le> eventBuffer \<and> (de_closed d \<longrightarrow> de_cancelled d)"

lemma print_event_fields [simp]:
  "de_todo (print_event signer now ev d) = de_todo d" "de_queue (print_event signer now ev d) = de_queue d"
  "de_closed (print_event signer now ev d) = de_closed d" "de_cancelled (print_event signer now ev d) = de_cancelled d"
  by (simp_all add: print_event_def split: option.split)

lemma print_event_emits:
  assumes "de_ok d" "(de_lines d, de_bridge d, de_ok d) = emit_events signer bridge taken"
  shows "(de_lines (print_event signer now ev d), de_bridge (print_event signer now ev d), de_ok (print_event signer now ev d))
    = emit_events signer bridge (taken @ [(now, ev)])"
  unfolding emit_events_snoc assms(2) [symmetric]
  using assms(1) by (simp add: print_event_def Let_def split: option.split)

lemma deliver_step_inv:
  assumes "delivery_inv signer evs bridge d"
  shows "delivery_inv signer evs bridge (deliver_step signer d op)"
proof (cases op)
  case (Emitting pick)
  then show ?thesis using assms
    by (auto simp: delivery_inv_def emit_def select_ctx_def split: list.splits if_splits)
next
  case (Taking now)
  from assms obtain taken where taken: "(de_lines d, de_bridge d, de_ok d) = emit_events signer bridge taken"
    "evs = map snd taken @ de_queue d @ de_todo d" unfolding delivery_inv_def by blast
  show ?thesis
  proof (cases "de_ok d \<and> de_queue d \<noteq> []")
    case True
    then obtain ev q where q: "de_queue d = ev # q" by (cases "de_queue d") auto
    let ?d = "d\<lparr>de_queue := q\<rparr>"
    have "evs = map snd (taken @ [(now, ev)]) @ q @ de_todo d" by (simp add: taken(2) q)
    with print_event_emits [of ?d signer bridge taken now ev] taken(1) True assms q show ?thesis
      by (auto simp: Taking delivery_inv_def)
  qed (use assms in \<open>auto simp: Taking split: list.split\<close>)
qed (use assms in \<open>auto simp: delivery_inv_def\<close>)

interpretation delivering: invariant_machine "opened_channel evs bridge" "deliver_step signer" "delivery_inv signer evs bridge"
  for signer evs bridge
proof
  show "delivery_inv signer evs bridge (opened_channel evs bridge)"
    unfolding delivery_inv_def opened_channel_def by (auto intro!: exI [of _ "[]"])
qed (rule deliver_step_inv)

abbreviation deliver :: "Signer option \<Rightarrow> delivery \<Rightarrow> delivery_op list \<Rightarrow> delivery" where
  "deliver signer \<equiv> foldl (deliver_step signer)"

section \<open>No deadlock\<close>

text \<open>Whatever happened, taking and emitting in turn delivers everything, unless the loop has returned.\<close>

fun rounds :: "nat \<Rightarrow> (nat \<Rightarrow> int) \<Rightarrow> delivery_op list" where
  "rounds 0 clock = []"
| "rounds (Suc n) clock = Taking (clock n) # Emitting True # rounds n clock"

text \<open>What is on its way: the buffer and, while the loop runs, the events it has yet to emit.\<close>

definition in_flight :: "delivery \<Rightarrow> Event list" where
  "in_flight d = de_queue d @ (if de_closed d then [] else de_todo d)"

lemma print_event_ok:
  "genuine machine ev \<Longrightarrow> de_ok (print_event signer now ev d) = de_ok d"
  by (auto simp: print_event_def genuine_def split: option.split)

definition effort :: "delivery \<Rightarrow> nat" where
  "effort d = 2 * length (in_flight d) - length (de_queue d)"

lemma one_round:
  assumes "de_ok d \<and> length (de_queue d) \<le> eventBuffer" "list_all (genuine machine) (in_flight d)"
    and "d' = deliver_step signer (deliver_step signer d (Taking now)) (Emitting True)"
  shows "(de_ok d' \<and> length (de_queue d') \<le> eventBuffer) \<and> de_closed d' = de_closed d \<and> list_all (genuine machine) (in_flight d')
    \<and> effort d' \<le> effort d - 1
    \<and> (de_closed d \<longrightarrow> de_todo d' = de_todo d)"
proof (cases "de_queue d")
  case Nil
  then show ?thesis unfolding assms(3) using assms(1,2)
    by (cases "de_todo d"; cases "de_closed d") (auto simp: in_flight_def effort_def emit_def select_ctx_def eventBuffer_def)
next
  case (Cons ev q)
  then have "genuine machine ev" using assms(2) by (simp add: in_flight_def)
  with Cons show ?thesis unfolding assms(3) using assms(1,2)
    by (cases "de_todo d") (auto simp: in_flight_def effort_def emit_def select_ctx_def eventBuffer_def print_event_ok)
qed

lemma rounds_drain:
  assumes "de_ok d \<and> length (de_queue d) \<le> eventBuffer" "list_all (genuine machine) (in_flight d)" "effort d \<le> n"
  shows "in_flight (deliver signer d (rounds n clock)) = []
    \<and> de_closed (deliver signer d (rounds n clock)) = de_closed d
    \<and> (de_closed d \<longrightarrow> de_todo (deliver signer d (rounds n clock)) = de_todo d)"
  using assms
proof (induction n arbitrary: d)
  case 0
  then show ?case by (auto simp: effort_def in_flight_def split: if_splits)
next
  case (Suc n)
  let ?d = "deliver_step signer (deliver_step signer d (Taking (clock n))) (Emitting True)"
  note round = one_round [OF Suc.prems(1,2) refl, of signer "clock n"]
  then have "effort ?d \<le> n" using Suc.prems(3) by linarith
  with Suc.IH [of ?d] round show ?case by (simp del: deliver_step.simps)
qed

section \<open>Properties\<close>

text \<open>C6. The command and the watch loop run at once over a channel of eight events, and it makes no
  difference. After any interleaving the lines printed and the bridge are those of the sequential
  \<open>emit_events\<close> on the events taken so far, which with the buffer and the events still to come are the
  events of the loop in order: none is lost, doubled or overtaken, also by a cancellation. And from there
  on the two cannot block each other: taking and emitting in turn ends with the events of the loop all
  printed, or those it emitted before a cancellation made it return.\<close>

theorem delivery_in_order:
  assumes "d = deliver signer (opened_channel evs bridge) ops" "list_all (genuine machine) evs"
    and "d' = deliver signer d (rounds (2 * length evs) clock)"
  shows "(\<exists>taken. (de_lines d, de_bridge d, True) = emit_events signer bridge taken
      \<and> evs = map snd taken @ de_queue d @ de_todo d) \<and> length (de_queue d) \<le> 8
    \<and> (de_closed d \<longrightarrow> de_cancelled d) \<and> de_queue d' = []
    \<and> de_lines d' = map (output_line signer \<circ> plain_line)
        (inserts (if de_closed d then take (length evs - length (de_todo d)) evs else evs))"
proof -
  have ok: "de_ok d \<and> length (de_queue d) \<le> eventBuffer" "list_all (genuine machine) (in_flight d)" "effort d \<le> 2 * length evs"
    and taken: "\<exists>taken. (de_lines d, de_bridge d, True) = emit_events signer bridge taken
      \<and> evs = map snd taken @ de_queue d @ de_todo d"
    and rest: "length (de_queue d) \<le> 8" "de_closed d \<longrightarrow> de_cancelled d"
    and inv: "delivery_inv signer evs bridge d"
  proof -
    show inv: "delivery_inv signer evs bridge d" unfolding assms(1) by (rule delivering.reachable_inv)
    then obtain taken where t: "(de_lines d, de_bridge d, de_ok d) = emit_events signer bridge taken"
      "evs = map snd taken @ de_queue d @ de_todo d" unfolding delivery_inv_def by blast
    with assms(2) have "list_all (genuine machine) (map snd taken)" by simp
    from emit_genuine [OF this] t(1) have "de_ok d" by simp
    with inv show "de_ok d \<and> length (de_queue d) \<le> eventBuffer" by (simp add: delivery_inv_def)
    from \<open>de_ok d\<close> t show "\<exists>taken. (de_lines d, de_bridge d, True) = emit_events signer bridge taken
      \<and> evs = map snd taken @ de_queue d @ de_todo d" by auto
    from t(2) assms(2) show "list_all (genuine machine) (in_flight d)" "effort d \<le> 2 * length evs"
      by (auto simp: in_flight_def effort_def)
    show "length (de_queue d) \<le> 8" "de_closed d \<longrightarrow> de_cancelled d" using inv by (simp_all add: delivery_inv_def eventBuffer_def)
  qed
  from rounds_drain [OF ok, of signer clock] have "in_flight d' = []" and same: "de_closed d' = de_closed d"
    "de_closed d \<longrightarrow> de_todo d' = de_todo d" by (simp_all add: assms(3))
  then have end': "de_queue d' = []" "\<not> de_closed d \<longrightarrow> de_todo d' = []" by (auto simp: in_flight_def)
  have "delivery_inv signer evs bridge d'" unfolding assms(3) by (rule delivering.run_inv [OF inv])
  then obtain out where t: "(de_lines d', de_bridge d', de_ok d') = emit_events signer bridge out"
    "evs = map snd out @ de_todo d'" using end'(1) unfolding delivery_inv_def by auto
  have "map snd out = (if de_closed d then take (length evs - length (de_todo d)) evs else evs)"
    using t(2) same(2) end'(2) by auto
  moreover have "list_all (genuine machine) (map snd out)" using t(2) assms(2) by simp
  from emit_genuine [OF this] have "de_lines d' = map (output_line signer \<circ> plain_line) (inserts (map snd out))"
    using t(1) by simp
  ultimately have "de_lines d' = map (output_line signer \<circ> plain_line)
        (inserts (if de_closed d then take (length evs - length (de_todo d)) evs else evs))" by simp
  with taken rest end'(1) show ?thesis by blast
qed

section \<open>Witness\<close>

text \<open>The loop emits an event, the context is cancelled, the loop returns before its second event, and the
  command still prints the first.\<close>

definition sample_schedule :: "delivery_op list" where
  "sample_schedule = [Emitting True, Cancelling, Emitting False]"

theorem delivery_in_order_witness:
  "de_lines (deliver None (opened_channel [sample_sent [], sample_sent []] None)
     (sample_schedule @ rounds 4 (\<lambda>_. 0))) = [plain_line (sample_sent [])]"
proof -
  let ?d = "deliver None (opened_channel [sample_sent [], sample_sent []] None) sample_schedule"
  have "genuine [] (sample_sent [])" by (rule genuine_insert) (simp_all add: isRandomUID_def)
  then have gen: "list_all (genuine []) [sample_sent [], sample_sent []]" by simp
  have d: "de_closed ?d" "de_todo ?d = [sample_sent []]"
    by (simp_all add: sample_schedule_def opened_channel_def emit_def select_ctx_def eventBuffer_def)
  have "ev_Kind (sample_sent []) = KindInsert" by (simp add: insert_event_def)
  then show ?thesis
    using delivery_in_order [OF refl gen refl, of None None sample_schedule "\<lambda>_. 0"] d
    by (simp add: inserts_def output_line_def del: deliver_step.simps rounds.simps)
qed

end
