(* ===== verification/Fake.thy ===== *)
theory Fake
  imports "HOL-Library.AList" "HOL-Library.List_Lexorder" "HOL-Library.Char_ord" Prelude
begin

text \<open>
  The in-process daemon of the tests (\<open>internal/pcscfake/pcscfake.go\<close>): its own codecs, its readers,
  cards and waiting connections, the serving loop of a connection with the version negotiation and
  the dispatch of every command, and the operations by which a test changes the readers.

  A \<open>Server\<close> is the struct of the same name together with the streams of its connections. The code
  holds a card by a pointer to its reader; a reader is never removed from the map and never replaced,
  so a card names its reader here. The handlers run under the server lock and are one step each; a
  connection is a number. Reading from a connection that has too few bytes blocks the serving loop
  of that connection: \<open>serve\<close> runs the loop until it blocks or ends. \<open>None\<close> is a panic of the daemon.
\<close>

unbundle bit_operations_syntax

type_synonym i64 = "64 word"

section \<open>Constants\<close>

definition daemon_establish :: u32 where "daemon_establish = 0x01"
definition daemon_release :: u32 where "daemon_release = 0x02"
definition daemon_connect :: u32 where "daemon_connect = 0x04"
definition daemon_disconnect :: u32 where "daemon_disconnect = 0x06"
definition daemon_transmit :: u32 where "daemon_transmit = 0x09"
definition daemon_getAttrib :: u32 where "daemon_getAttrib = 0x0F"
definition daemon_version :: u32 where "daemon_version = 0x11"
definition daemon_getReadersState :: u32 where "daemon_getReadersState = 0x12"
definition daemon_wait :: u32 where "daemon_wait = 0x13"
definition daemon_stopWaiting :: u32 where "daemon_stopWaiting = 0x14"

lemmas daemon_cmds = daemon_establish_def daemon_release_def daemon_connect_def daemon_disconnect_def
  daemon_transmit_def daemon_getAttrib_def daemon_version_def daemon_getReadersState_def
  daemon_wait_def daemon_stopWaiting_def

definition daemon_errInvalidHandle :: u32 where "daemon_errInvalidHandle = 0x80100003"
definition daemon_errUnknownReader :: u32 where "daemon_errUnknownReader = 0x80100009"
definition daemon_errNoSmartcard :: u32 where "daemon_errNoSmartcard = 0x8010000C"
definition daemon_errCommDataLost :: u32 where "daemon_errCommDataLost = 0x8010002F"
definition daemon_errUnsupportedFeature :: u32 where "daemon_errUnsupportedFeature = 0x8010001F"
definition daemon_errServiceStopped :: u32 where "daemon_errServiceStopped = 0x8010001E"

lemmas daemon_errs = daemon_errInvalidHandle_def daemon_errUnknownReader_def daemon_errNoSmartcard_def
  daemon_errCommDataLost_def daemon_errUnsupportedFeature_def daemon_errServiceStopped_def

definition daemon_serialAttr :: u32 where "daemon_serialAttr = 0x0103"
definition daemon_channelAttr :: u32 where "daemon_channelAttr = 0x0110"
definition daemon_maxATR :: nat where "daemon_maxATR = 33"
definition daemon_maxReaders :: nat where "daemon_maxReaders = 16"
definition daemon_maxAttr :: nat where "daemon_maxAttr = 264"
definition stateAbsent :: u32 where "stateAbsent = 0x0002"
definition statePresent :: u32 where "statePresent = 0x0004"
definition statePresentBits :: u32 where "statePresentBits = statePresent OR 0x0010 OR 0x0020 OR 0x0040"
definition daemon_protocolT1 :: u32 where "daemon_protocolT1 = 0x0002"
definition uidProbeA :: byte where "uidProbeA = 0xFF"
definition uidProbeB :: byte where "uidProbeB = 0xCA"
definition daemon_resetCard :: u32 where "daemon_resetCard = 0x0001"
definition daemon_stateSize :: nat where "daemon_stateSize = 184"

lemmas daemon_sizes = daemon_maxATR_def daemon_maxReaders_def daemon_maxAttr_def daemon_stateSize_def

section \<open>State\<close>

record Reader =
  fr_ATR :: "byte list"
  fr_UID :: "byte list"
  fr_Serial :: string
  fr_ChannelID :: u32
  fr_Present :: bool
  fr_EventCounter :: u32
  fr_FailConnects :: i64
  fr_FailUIDProbes :: i64
  fr_StuckUID :: bool
  fr_UIDProbes :: i64
  fr_AttribProbes :: i64
  fr_FailResetReconnects :: i64
  fr_resetLag :: bool

definition zero_reader :: Reader where
  "zero_reader = \<lparr>fr_ATR = [], fr_UID = [], fr_Serial = [], fr_ChannelID = 0, fr_Present = False,
     fr_EventCounter = 0, fr_FailConnects = 0, fr_FailUIDProbes = 0, fr_StuckUID = False, fr_UIDProbes = 0,
     fr_AttribProbes = 0, fr_FailResetReconnects = 0, fr_resetLag = False\<rparr>"

text \<open>The daemon's side of a connection: the bytes sent to it and not yet read, the bytes written and
  not yet taken by the client, and how far its serving loop is.\<close>

datatype phase = Negotiating | Serving | Gone

record link =
  ln_in :: "byte list"
  ln_out :: "byte list"
  ln_phase :: phase

record Server =
  sv_OfferedMinor :: u32
  sv_path :: string
  sv_closed :: bool
  sv_readers :: "(string \<times> Reader) list"
  sv_waiters :: "nat set"
  sv_conns :: "nat set"
  sv_cards :: "u32 \<Rightarrow> string option"
  sv_handles :: u32
  sv_links :: "nat \<Rightarrow> link"

definition no_link :: link where
  "no_link = \<lparr>ln_in = [], ln_out = [], ln_phase = Gone\<rparr>"

definition New :: "string \<Rightarrow> Server" where
  "New path = \<lparr>sv_OfferedMinor = 4, sv_path = path, sv_closed = False, sv_readers = [], sv_waiters = {},
     sv_conns = {}, sv_cards = (\<lambda>_. None), sv_handles = 0, sv_links = (\<lambda>_. no_link)\<rparr>"

abbreviation set_link :: "nat \<Rightarrow> (link \<Rightarrow> link) \<Rightarrow> Server \<Rightarrow> Server" where
  "set_link c f s \<equiv> s\<lparr>sv_links := (sv_links s)(c := f (sv_links s c))\<rparr>"

abbreviation put_reader :: "string \<Rightarrow> Reader \<Rightarrow> Server \<Rightarrow> Server" where
  "put_reader name r s \<equiv> s\<lparr>sv_readers := AList.update name r (sv_readers s)\<rparr>"

text \<open>\<open>conn.Write\<close>: whether it succeeded.\<close>

definition conn_write :: "nat \<Rightarrow> byte list \<Rightarrow> Server \<Rightarrow> bool \<times> Server" where
  "conn_write c b s =
     (if ln_phase (sv_links s c) = Gone then (False, s)
      else (True, set_link c (\<lambda>l. l\<lparr>ln_out := ln_out l @ b\<rparr>) s))"

section \<open>Codecs\<close>

definition daemon_encodeWait :: "u32 \<Rightarrow> u32 \<Rightarrow> byte list" where
  "daemon_encodeWait timeoutMS rv =
     (let buf = replicate 8 0; buf = copy_at 0 (put_le32 timeoutMS) buf in copy_at 4 (put_le32 rv) buf)"

definition daemon_encodeVersion :: "u32 \<Rightarrow> u32 \<Rightarrow> u32 \<Rightarrow> byte list" where
  "daemon_encodeVersion major minor rv =
     (let buf = replicate 12 0; buf = copy_at 0 (put_le32 major) buf; buf = copy_at 4 (put_le32 minor) buf
      in copy_at 8 (put_le32 rv) buf)"

definition daemon_decodeVersion :: "byte list \<Rightarrow> (u32 \<times> u32 \<times> u32) option" where
  "daemon_decodeVersion b = do {
     major \<leftarrow> le32_at 0 b; minor \<leftarrow> le32_at 4 b; rv \<leftarrow> le32_at 8 b;
     Some (major, minor, rv) }"

definition encodeReaderStateInto :: "nat \<Rightarrow> string \<Rightarrow> Reader \<Rightarrow> byte list \<Rightarrow> byte list" where
  "encodeReaderStateInto off name r buf =
     (let buf = copy_at off (bytes_of name) buf;
          buf = copy_at (off + 128) (put_le32 (fr_EventCounter r)) buf;
          state = (if fr_Present r then statePresentBits else stateAbsent);
          buf = copy_at (off + 132) (put_le32 state) buf;
          atr = take (min (length (fr_ATR r)) daemon_maxATR) (fr_ATR r);
          buf = copy_at (off + 140) atr buf;
          buf = copy_at (off + 176) (put_le32 (word_of_nat (length atr))) buf;
          proto = (if fr_Present r then daemon_protocolT1 else 0)
      in copy_at (off + 180) (put_le32 proto) buf)"

text \<open>\<open>readMessage\<close>: the frame at the start of a stream, with the rest of the stream.\<close>

datatype reading = Short | Oversized | Message u32 "byte list" "byte list"

definition readMessage :: "byte list \<Rightarrow> reading" where
  "readMessage stream =
     (case (le32_at 0 stream, le32_at 4 stream) of
        (Some size', Some command) \<Rightarrow>
          if 1048576 < size' then Oversized
          else let rest = drop 8 stream; n = unat size' in
            if n \<le> length rest then Message command (take n rest) (drop n rest) else Short
      | _ \<Rightarrow> Short)"

definition daemon_cString :: "byte list \<Rightarrow> string" where
  "daemon_cString b =
     (if 0 \<in> set b then string_of (takeWhile (\<lambda>x. x \<noteq> 0) b) else string_of b)"

section \<open>The readers\<close>

definition Reader_of :: "string \<Rightarrow> Server \<Rightarrow> Reader \<times> Server" where
  "Reader_of name s =
     (case map_of (sv_readers s) name of
        Some r \<Rightarrow> (r, s)
      | None \<Rightarrow> (zero_reader, put_reader name zero_reader s))"

definition wakeWaiters :: "Server \<Rightarrow> Server" where
  "wakeWaiters s =
     (let signal = daemon_encodeWait 0 0; woken = sv_waiters s
      in s\<lparr>sv_waiters := {},
           sv_links := (\<lambda>c. if c \<in> woken then sv_links (snd (conn_write c signal s)) c else sv_links s c)\<rparr>)"

definition InsertCard :: "string \<Rightarrow> byte list \<Rightarrow> byte list \<Rightarrow> Server \<Rightarrow> Server" where
  "InsertCard reader atr uid s =
     (let r = (case map_of (sv_readers s) reader of Some r \<Rightarrow> r | None \<Rightarrow> zero_reader);
          r = r\<lparr>fr_ATR := atr, fr_UID := uid, fr_Present := True,
                fr_EventCounter := fr_EventCounter r + 1, fr_resetLag := False\<rparr>
      in wakeWaiters (put_reader reader r s))"

definition SetSerial :: "string \<Rightarrow> string \<Rightarrow> Server \<Rightarrow> Server" where
  "SetSerial reader serial s =
     (case map_of (sv_readers s) reader of
        Some r \<Rightarrow> put_reader reader (r\<lparr>fr_Serial := serial\<rparr>) s
      | None \<Rightarrow> put_reader reader (zero_reader\<lparr>fr_Serial := serial\<rparr>) s)"

definition SetChannelID :: "string \<Rightarrow> u32 \<Rightarrow> Server \<Rightarrow> Server" where
  "SetChannelID reader ident s =
     (case map_of (sv_readers s) reader of
        Some r \<Rightarrow> put_reader reader (r\<lparr>fr_ChannelID := ident\<rparr>) s
      | None \<Rightarrow> put_reader reader (zero_reader\<lparr>fr_ChannelID := ident\<rparr>) s)"

definition RemoveCard :: "string \<Rightarrow> Server \<Rightarrow> Server" where
  "RemoveCard reader s =
     wakeWaiters
       (case map_of (sv_readers s) reader of
          Some r \<Rightarrow> put_reader reader (r\<lparr>fr_Present := False, fr_EventCounter := fr_EventCounter r + 1\<rparr>) s
        | None \<Rightarrow> s)"

definition encodeStatesLocked :: "Server \<Rightarrow> byte list" where
  "encodeStatesLocked s =
     fold (\<lambda>(i, name) buf. case map_of (sv_readers s) name of
             Some r \<Rightarrow> encodeReaderStateInto (i * daemon_stateSize) name r buf
           | None \<Rightarrow> buf)
       (enumerate 0 (take daemon_maxReaders (sort (map fst (sv_readers s)))))
       (replicate (daemon_maxReaders * daemon_stateSize) 0)"

section \<open>Waiting connections\<close>

definition register :: "nat \<Rightarrow> Server \<Rightarrow> Server" where
  "register c s = s\<lparr>sv_waiters := insert c (sv_waiters s)\<rparr>"

definition registerAndDump :: "nat \<Rightarrow> Server \<Rightarrow> bool \<times> Server" where
  "registerAndDump c s =
     (let s = s\<lparr>sv_waiters := insert c (sv_waiters s)\<rparr> in conn_write c (encodeStatesLocked s) s)"

definition unregister :: "nat \<Rightarrow> Server \<Rightarrow> bool \<times> Server" where
  "unregister c s = (c \<in> sv_waiters s, s\<lparr>sv_waiters := sv_waiters s - {c}\<rparr>)"

definition writeStates :: "nat \<Rightarrow> Server \<Rightarrow> bool \<times> Server" where
  "writeStates c s = conn_write c (encodeStatesLocked s) s"

section \<open>Cards\<close>

text \<open>What a connect finds in the reader: whether the card answers, and the failures it uses up.\<close>

definition activate :: "Reader \<Rightarrow> bool \<times> Reader" where
  "activate r =
     (let isPresent = fr_Present r;
          (isPresent, r) = (if isPresent \<and> 0 <s fr_FailConnects r
                            then (False, r\<lparr>fr_FailConnects := fr_FailConnects r - 1\<rparr>) else (isPresent, r));
          (isPresent, r) = (if isPresent \<and> fr_resetLag r \<and> 0 <s fr_FailResetReconnects r
                            then (False, r\<lparr>fr_FailResetReconnects := fr_FailResetReconnects r - 1\<rparr>)
                            else (isPresent, r))
      in (isPresent, if isPresent then r\<lparr>fr_resetLag := False\<rparr> else r))"

text \<open>The locked part of \<open>connect\<close>: whether the reader is known, whether the card is there, the handle.\<close>

definition open_card :: "string \<Rightarrow> Server \<Rightarrow> (bool \<times> bool \<times> u32) \<times> Server" where
  "open_card name s =
     (case map_of (sv_readers s) name of
        None \<Rightarrow> ((False, False, 0), s)
      | Some r \<Rightarrow>
          (case activate r of (isPresent, r) \<Rightarrow>
             let s = put_reader name r s in
             if isPresent
             then let handle = sv_handles s + 1 in
               ((True, True, handle), s\<lparr>sv_handles := handle, sv_cards := (sv_cards s)(handle \<mapsto> name)\<rparr>)
             else ((True, False, 0), s)))"

definition connect_rv :: "bool \<Rightarrow> bool \<Rightarrow> u32" where
  "connect_rv known isPresent =
     (if \<not> known then daemon_errUnknownReader else if \<not> isPresent then daemon_errNoSmartcard else 0)"

definition daemon_connect_reply :: "byte list \<Rightarrow> bool \<Rightarrow> bool \<Rightarrow> u32 \<Rightarrow> byte list option" where
  "daemon_connect_reply body known isPresent handle = do {
     head \<leftarrow> go_slice 0 132 body;
     modes \<leftarrow> go_slice 132 140 body;
     let resp = replicate 152 0;
     let resp = copy_at 0 head resp;
     let resp = copy_at 132 modes resp;
     let resp = copy_at 140 (put_le32 handle) resp;
     let resp = (if isPresent then copy_at 144 (put_le32 daemon_protocolT1) resp else resp);
     Some (copy_at 148 (put_le32 (connect_rv known isPresent)) resp) }"

definition serve_connect :: "nat \<Rightarrow> byte list \<Rightarrow> Server \<Rightarrow> (bool \<times> Server) option" where
  "serve_connect c body s = do {
     name \<leftarrow> go_slice 4 132 body;
     (case open_card (daemon_cString name) s of ((known, isPresent, handle), s) \<Rightarrow>
        map_option (\<lambda>resp. conn_write c resp s) (daemon_connect_reply body known isPresent handle)) }"

text \<open>The locked part of \<open>transmit\<close>: whether the handle is known, whether the exchange is dropped or
  the card stuck, and the UID.\<close>

definition ask_card :: "u32 \<Rightarrow> Server \<Rightarrow> (bool \<times> bool \<times> bool \<times> byte list) \<times> Server" where
  "ask_card handle s =
     (case sv_cards s handle of
        None \<Rightarrow> ((False, False, False, []), s)
      | Some name \<Rightarrow>
          let r = (case map_of (sv_readers s) name of Some r \<Rightarrow> r | None \<Rightarrow> zero_reader) in
          if 0 <s fr_FailUIDProbes r
          then ((True, True, False, []), put_reader name (r\<lparr>fr_FailUIDProbes := fr_FailUIDProbes r - 1\<rparr>) s)
          else if fr_StuckUID r
          then ((True, False, True, []), put_reader name (r\<lparr>fr_UIDProbes := fr_UIDProbes r + 1\<rparr>) s)
          else ((True, False, False, fr_UID r), s))"

definition isUIDProbe :: "byte list \<Rightarrow> bool" where
  "isUIDProbe send \<longleftrightarrow> length send = 5 \<and> send ! 0 = uidProbeA \<and> send ! 1 = uidProbeB \<and> send ! 2 = 0
     \<and> send ! 3 = 0 \<and> send ! 4 = 0"

definition card_answer :: "byte list \<Rightarrow> bool \<times> bool \<times> bool \<times> byte list \<Rightarrow> u32 \<times> byte list" where
  "card_answer send = (\<lambda>(known, flake, stuck, uid).
     if \<not> known then (daemon_errInvalidHandle, [])
     else if flake then (daemon_errCommDataLost, [])
     else if isUIDProbe send then
       (if uid = [] \<or> stuck then (0, [0x63, 0x00]) else (0, uid @ [0x90, 0x00]))
     else (0, [0x6D, 0x00]))"

definition transmit_head :: "u32 \<Rightarrow> u32 \<Rightarrow> u32 \<Rightarrow> u32 \<Rightarrow> u32 \<Rightarrow> byte list" where
  "transmit_head handle pci sendLength recvLength rv =
     (let head = replicate 32 0;
          head = copy_at 0 (put_le32 handle) head;
          head = copy_at 4 (put_le32 pci) head;
          head = copy_at 8 (put_le32 8) head;
          head = copy_at 12 (put_le32 sendLength) head;
          head = copy_at 16 (put_le32 pci) head;
          head = copy_at 20 (put_le32 8) head;
          head = copy_at 24 (put_le32 recvLength) head
      in copy_at 28 (put_le32 rv) head)"

text \<open>The outcome of a request: the rest of the stream is needed, a panic, or the request is served; then
  whether the loop goes on, and the stream after it.\<close>

datatype outcome = Waits | Panics | Served bool Server "byte list"

definition serve_transmit :: "nat \<Rightarrow> byte list \<Rightarrow> byte list \<Rightarrow> Server \<Rightarrow> outcome" where
  "serve_transmit c body rest s =
     (case (le32_at 0 body, le32_at 4 body, le32_at 12 body) of
        (Some handle, Some pci, Some sendLength) \<Rightarrow>
          let n = unat sendLength in
          if length rest < n then Waits
          else let send = take n rest in
            (case ask_card handle s of (found, s) \<Rightarrow>
             case card_answer send found of (rv, resp) \<Rightarrow>
             case conn_write c (transmit_head handle pci sendLength (word_of_nat (length resp)) rv) s of (ok, s) \<Rightarrow>
               if \<not> ok then Served False s (drop n rest)
               else if 0 < length resp then
                 (case conn_write c resp s of (ok, s) \<Rightarrow> Served ok s (drop n rest))
               else Served True s (drop n rest))
      | _ \<Rightarrow> Panics)"

text \<open>The locked part of \<open>getAttrib\<close>: whether the handle is known, and the value.\<close>

definition card_attribute :: "u32 \<Rightarrow> u32 \<Rightarrow> Server \<Rightarrow> (bool \<times> byte list option) \<times> Server" where
  "card_attribute handle attrID s =
     (case sv_cards s handle of
        None \<Rightarrow> ((False, None), s)
      | Some name \<Rightarrow>
          let r = (case map_of (sv_readers s) name of Some r \<Rightarrow> r | None \<Rightarrow> zero_reader);
              asked = put_reader name (r\<lparr>fr_AttribProbes := fr_AttribProbes r + 1\<rparr>) s in
          if attrID = daemon_serialAttr
          then ((True, if fr_Serial r \<noteq> [] then Some (bytes_of (fr_Serial r)) else None), asked)
          else if attrID = daemon_channelAttr
          then ((True, if fr_ChannelID r \<noteq> 0 then Some (put_le32 (fr_ChannelID r)) else None), asked)
          else ((True, None), s))"

definition attribute_rv :: "bool \<times> byte list option \<Rightarrow> u32" where
  "attribute_rv = (\<lambda>(known, value).
     if \<not> known then daemon_errInvalidHandle
     else if value = None then daemon_errUnsupportedFeature else 0)"

definition attribute_reply :: "u32 \<Rightarrow> u32 \<Rightarrow> bool \<times> byte list option \<Rightarrow> byte list" where
  "attribute_reply handle attrID found =
     (let value = (case snd found of Some v \<Rightarrow> v | None \<Rightarrow> []);
          resp = replicate (8 + daemon_maxAttr + 8) 0;
          resp = copy_at 0 (put_le32 handle) resp;
          resp = copy_at 4 (put_le32 attrID) resp;
          resp = copy_at 8 value resp;
          resp = copy_at (8 + daemon_maxAttr) (put_le32 (word_of_nat (length value))) resp
      in copy_at (8 + daemon_maxAttr + 4) (put_le32 (attribute_rv found)) resp)"

definition serve_getAttrib :: "nat \<Rightarrow> byte list \<Rightarrow> Server \<Rightarrow> (bool \<times> Server) option" where
  "serve_getAttrib c body s = do {
     handle \<leftarrow> le32_at 0 body;
     attrID \<leftarrow> le32_at 4 body;
     (case card_attribute handle attrID s of (found, s) \<Rightarrow>
        Some (conn_write c (attribute_reply handle attrID found) s)) }"

definition close_card :: "u32 \<Rightarrow> u32 \<Rightarrow> Server \<Rightarrow> Server" where
  "close_card handle disposition s =
     (let s = (case sv_cards s handle of
          Some name \<Rightarrow>
            if disposition = daemon_resetCard
            then let r = (case map_of (sv_readers s) name of Some r \<Rightarrow> r | None \<Rightarrow> zero_reader)
                 in put_reader name (r\<lparr>fr_StuckUID := False, fr_resetLag := True\<rparr>) s
            else s
        | None \<Rightarrow> s)
      in s\<lparr>sv_cards := (sv_cards s)(handle := None)\<rparr>)"

definition serve_disconnect :: "nat \<Rightarrow> byte list \<Rightarrow> Server \<Rightarrow> (bool \<times> Server) option" where
  "serve_disconnect c body s = do {
     handle \<leftarrow> le32_at 0 body;
     disposition \<leftarrow> le32_at 4 body;
     Some (conn_write c body (close_card handle disposition s)) }"

section \<open>The serving loop\<close>

definition serve_establish :: "nat \<Rightarrow> byte list \<Rightarrow> Server \<Rightarrow> (bool \<times> Server) option" where
  "serve_establish c body s = do {
     scope \<leftarrow> go_slice 0 4 body;
     let resp = copy_at 4 (put_le32 1) (copy_at 0 scope (replicate 12 0));
     Some (conn_write c resp s) }"

definition served :: "byte list \<Rightarrow> (bool \<times> Server) option \<Rightarrow> outcome" where
  "served rest r = (case r of None \<Rightarrow> Panics | Some (ok, s) \<Rightarrow> Served ok s rest)"

definition dispatch :: "nat \<Rightarrow> u32 \<Rightarrow> byte list \<Rightarrow> byte list \<Rightarrow> Server \<Rightarrow> outcome" where
  "dispatch c command body rest s =
     (if command = daemon_establish then
        if length body \<noteq> 12 then Served False s rest else served rest (serve_establish c body s)
      else if command = daemon_release then
        if length body \<noteq> 8 then Served False s rest else Served False (snd (conn_write c body s)) rest
      else if command = daemon_getReadersState then served rest (Some (writeStates c s))
      else if command = daemon_wait then
        if sv_OfferedMinor s < 4
        then if length body \<noteq> 8 then Served False s rest else Served True (register c s) rest
        else served rest (Some (registerAndDump c s))
      else if command = daemon_stopWaiting then
        if sv_OfferedMinor s < 4 \<and> length body \<noteq> 8 then Served False s rest
        else (case unregister c s of (waiting, s) \<Rightarrow>
                if waiting then served rest (Some (conn_write c (daemon_encodeWait 0 0) s))
                else Served True s rest)
      else if command = daemon_connect then
        if length body \<noteq> 152 then Served False s rest else served rest (serve_connect c body s)
      else if command = daemon_transmit then
        if length body \<noteq> 32 then Served False s rest else serve_transmit c body rest s
      else if command = daemon_getAttrib then
        if length body \<noteq> 8 + daemon_maxAttr + 8 then Served False s rest
        else served rest (serve_getAttrib c body s)
      else if command = daemon_disconnect then
        if length body \<noteq> 12 then Served False s rest else served rest (serve_disconnect c body s)
      else Served False s rest)"

text \<open>One round of \<open>negotiate\<close>.\<close>

definition negotiate :: "nat \<Rightarrow> u32 \<Rightarrow> byte list \<Rightarrow> byte list \<Rightarrow> Server \<Rightarrow> outcome" where
  "negotiate c command body rest s =
     (if command \<noteq> daemon_version \<or> length body \<noteq> 12 then Served False s rest
      else case daemon_decodeVersion body of
        None \<Rightarrow> Panics
      | Some (major, minor, rv) \<Rightarrow>
          if major = 4 \<and> minor = sv_OfferedMinor s \<or> sv_OfferedMinor s = 5 \<and> minor = 4
          then (case conn_write c (daemon_encodeVersion 4 (sv_OfferedMinor s) 0) s of (ok, s) \<Rightarrow>
                  Served ok (set_link c (\<lambda>l. l\<lparr>ln_phase := Serving\<rparr>) s) rest)
          else (case conn_write c (daemon_encodeVersion 4 (sv_OfferedMinor s) daemon_errServiceStopped) s of
                  (ok, s) \<Rightarrow> Served ok s rest))"

text \<open>The end of a connection: the deferred calls of \<open>serve\<close> and of \<open>acceptLoop\<close>.\<close>

definition hang_up :: "nat \<Rightarrow> Server \<Rightarrow> Server" where
  "hang_up c s =
     (set_link c (\<lambda>l. l\<lparr>ln_in := [], ln_phase := Gone\<rparr>) s)
       \<lparr>sv_waiters := sv_waiters s - {c}, sv_conns := sv_conns s - {c}\<rparr>"

datatype stepped = Blocked | Crashed | Stepped Server

definition serve_step :: "nat \<Rightarrow> Server \<Rightarrow> stepped" where
  "serve_step c s =
     (let l = sv_links s c in
      if ln_phase l = Gone then Blocked
      else case readMessage (ln_in l) of
        Short \<Rightarrow> Blocked
      | Oversized \<Rightarrow> Stepped (hang_up c s)
      | Message command body rest \<Rightarrow>
          (case (if ln_phase l = Negotiating then negotiate c command body rest s
                 else dispatch c command body rest s) of
             Waits \<Rightarrow> Blocked
           | Panics \<Rightarrow> Crashed
           | Served goes_on s rest \<Rightarrow>
               Stepped (if goes_on then set_link c (\<lambda>l. l\<lparr>ln_in := rest\<rparr>) s else hang_up c s)))"

lemma readMessage_shorter:
  "readMessage stream = Message command body rest \<Longrightarrow> length rest < length stream"
proof -
  assume m: "readMessage stream = Message command body rest"
  then have "le32_at 4 stream \<noteq> None" by (auto simp: readMessage_def split: option.splits)
  then have "8 \<le> length stream" by (metis add_2_eq_Suc' le32_at_out_of_range not_le numeral_Bit0 numeral_code(1))
  with m show ?thesis by (auto simp: readMessage_def Let_def split: option.splits if_splits)
qed

lemma served_rest: "served rest r = Served ok s rest' \<Longrightarrow> rest' = rest"
  by (auto simp: served_def split: option.splits prod.splits)

lemma serve_transmit_rest: "serve_transmit c body rest s = Served ok s' rest' \<Longrightarrow> length rest' \<le> length rest"
  by (auto simp: serve_transmit_def Let_def split: option.splits prod.splits if_splits)

lemma dispatch_rest: "dispatch c command body rest s = Served ok s' rest' \<Longrightarrow> length rest' \<le> length rest"
  unfolding dispatch_def by (auto dest: served_rest serve_transmit_rest split: if_splits prod.splits)

lemma negotiate_rest: "negotiate c command body rest s = Served ok s' rest' \<Longrightarrow> rest' = rest"
  unfolding negotiate_def by (auto split: if_splits prod.splits option.splits)

definition backlog :: "nat \<Rightarrow> Server \<Rightarrow> nat" where
  "backlog c s = (if ln_phase (sv_links s c) = Gone then 0 else Suc (length (ln_in (sv_links s c))))"

lemma serve_step_progress:
  assumes "serve_step c s = Stepped s'"
  shows "backlog c s' < backlog c s"
proof -
  from assms have alive: "ln_phase (sv_links s c) \<noteq> Gone" by (auto simp: serve_step_def)
  show ?thesis
  proof (cases "readMessage (ln_in (sv_links s c))")
    case (Message command body rest)
    let ?o = "if ln_phase (sv_links s c) = Negotiating then negotiate c command body rest s
      else dispatch c command body rest s"
    from assms alive Message obtain goes_on s1 rest' where o: "?o = Served goes_on s1 rest'"
      and s': "s' = (if goes_on then set_link c (\<lambda>l. l\<lparr>ln_in := rest'\<rparr>) s1 else hang_up c s1)"
      by (auto simp: serve_step_def Let_def split: outcome.splits if_splits)
    from o have "length rest' \<le> length rest"
      by (auto dest: negotiate_rest dispatch_rest split: if_splits)
    with readMessage_shorter [OF Message] alive s' show ?thesis
      by (auto simp: backlog_def hang_up_def)
  qed (use assms alive in \<open>auto simp: serve_step_def backlog_def hang_up_def\<close>)
qed

function serve :: "nat \<Rightarrow> Server \<Rightarrow> Server option" where
  "serve c s = (case serve_step c s of Blocked \<Rightarrow> Some s | Crashed \<Rightarrow> None | Stepped s' \<Rightarrow> serve c s')"
  by pat_completeness auto
termination
  by (relation "measure (\<lambda>(c, s). backlog c s)") (auto dest: serve_step_progress)

declare serve.simps [simp del]

text \<open>A new client, the end of the daemon, and a client that writes or leaves. \<open>acceptLoop\<close> looks at the context
  first and enters the connection under the lock afterwards: \<open>accept_register\<close> is the second half.\<close>

definition accept_register :: "nat \<Rightarrow> Server \<Rightarrow> Server" where
  "accept_register c s = (set_link c (\<lambda>_. \<lparr>ln_in = [], ln_out = [], ln_phase = Negotiating\<rparr>) s)
     \<lparr>sv_conns := insert c (sv_conns s)\<rparr>"

definition accept :: "nat \<Rightarrow> Server \<Rightarrow> Server" where
  "accept c s = (if sv_closed s then set_link c (\<lambda>_. no_link) s else accept_register c s)"

definition daemon_Close :: "Server \<Rightarrow> Server" where
  "daemon_Close s = s\<lparr>sv_closed := True, sv_waiters := sv_waiters s - sv_conns s, sv_conns := {},
     sv_links := (\<lambda>c. if c \<in> sv_conns s then sv_links (hang_up c s) c else sv_links s c)\<rparr>"

definition client_sends :: "nat \<Rightarrow> byte list \<Rightarrow> Server \<Rightarrow> Server option" where
  "client_sends c b s = serve c (set_link c (\<lambda>l. l\<lparr>ln_in := ln_in l @ b\<rparr>) s)"

section \<open>No panic\<close>

text \<open>The handlers index the bodies only after the length check of \<open>dispatch\<close>.\<close>

lemma field_total: "off + 4 \<le> length b \<Longrightarrow> \<exists>w. le32_at off b = Some w"
  by (rule le32_at_in_range)

lemma slice_total: "lo \<le> hi \<Longrightarrow> hi \<le> length b \<Longrightarrow> go_slice lo hi b = Some (take (hi - lo) (drop lo b))"
  by (simp add: go_slice_def)

lemma le32_total: "off + 4 \<le> length b \<Longrightarrow> le32_at off b \<noteq> None"
  using le32_at_in_range by fastforce

lemma served_panics: "served rest r = Panics \<longleftrightarrow> r = None"
  by (simp add: served_def split: option.split prod.split)

lemma daemon_never_panics_step: "dispatch c command body rest s \<noteq> Panics"
proof -
  have "length body = 152 \<Longrightarrow> serve_connect c body s \<noteq> None"
    by (auto simp: serve_connect_def daemon_connect_reply_def slice_total Let_def split: prod.splits)
  moreover have "length body = 32 \<Longrightarrow> serve_transmit c body rest s \<noteq> Panics"
    using le32_total [of 0 body] le32_total [of 4 body] le32_total [of 12 body]
    by (auto simp: serve_transmit_def Let_def split: prod.splits option.splits)
  moreover have "length body = 280 \<Longrightarrow> serve_getAttrib c body s \<noteq> None"
    using le32_total [of 0 body] le32_total [of 4 body] by (auto simp: serve_getAttrib_def split: prod.splits)
  moreover have "length body = 12 \<Longrightarrow> serve_disconnect c body s \<noteq> None"
    using le32_total [of 0 body] le32_total [of 4 body] by (auto simp: serve_disconnect_def split: prod.splits)
  moreover have "length body = 12 \<Longrightarrow> serve_establish c body s \<noteq> None"
    by (auto simp: serve_establish_def slice_total Let_def)
  ultimately show ?thesis
    by (simp add: dispatch_def served_panics unregister_def daemon_maxAttr_def)
qed

lemma negotiate_no_panic: "negotiate c command body rest s \<noteq> Panics"
  using le32_total [of 0 body] le32_total [of 4 body] le32_total [of 8 body]
  by (auto simp: negotiate_def daemon_decodeVersion_def split: option.splits prod.splits)

text \<open>C32. Whatever bytes a client sends, the daemon does not panic, and its serving loop comes to rest.\<close>

theorem daemon_never_panics: "\<exists>s'. client_sends c b s = Some s'"
proof -
  have "\<exists>s'. serve c s = Some s'" for s
  proof (induction c s rule: serve.induct)
    case (1 c s)
    show ?case
    proof (cases "serve_step c s")
      case Crashed
      then show ?thesis
        using negotiate_no_panic daemon_never_panics_step
        by (auto simp: serve_step_def Let_def split: reading.splits outcome.splits if_splits)
    qed (use 1 in \<open>auto simp: serve.simps [of c s]\<close>)
  qed
  then show ?thesis by (simp add: client_sends_def)
qed

end
