(* ===== verification/Daemon.thy ===== *)
theory Daemon
  imports Fake
begin

text \<open>
  The daemon as a state machine: the steps that clients and tests can take, in any order and on any
  number of connections, the reachable states, and what holds in all of them. The invariant is proved
  per operation and by rule induction over the steps.
\<close>

section \<open>Steps\<close>

inductive daemon_step :: "Server \<Rightarrow> Server \<Rightarrow> bool" where
  Accepts: "ln_phase (sv_links s c) = Gone \<Longrightarrow> daemon_step s (accept c s)"
| Sends: "client_sends c b s = Some s' \<Longrightarrow> daemon_step s s'"
| Takes: "daemon_step s (set_link c (\<lambda>l. l\<lparr>ln_out := drop n (ln_out l)\<rparr>) s)"
| Leaves: "daemon_step s (hang_up c s)"
| Inserts: "daemon_step s (InsertCard reader atr uid s)"
| Removes: "daemon_step s (RemoveCard reader s)"
| Serial: "daemon_step s (SetSerial reader serial s)"
| Channel: "daemon_step s (SetChannelID reader ident s)"
| Configures: "Reader_of reader s = (r, s') \<Longrightarrow> daemon_step s (put_reader reader r' s')"
| Offers: "daemon_step s (s\<lparr>sv_OfferedMinor := minor\<rparr>)"
| Closes: "daemon_step s (daemon_Close s)"

inductive daemon_reachable :: "string \<Rightarrow> Server \<Rightarrow> bool" for path where
  Start: "daemon_reachable path (New path)"
| Step: "daemon_reachable path s \<Longrightarrow> daemon_step s s' \<Longrightarrow> daemon_reachable path s'"

section \<open>The invariant\<close>

text \<open>A card belongs to a reader that exists; the connections of the daemon are the ones that are not gone;
  only a connection past its negotiation waits for changes; a closed daemon has none.\<close>

definition daemon_inv :: "Server \<Rightarrow> bool" where
  "daemon_inv s \<longleftrightarrow>
     (\<forall>handle name. sv_cards s handle = Some name \<longrightarrow> name \<in> fst ` set (sv_readers s))
     \<and> distinct (map fst (sv_readers s))
     \<and> sv_conns s = {c. ln_phase (sv_links s c) \<noteq> Gone}
     \<and> sv_waiters s \<subseteq> {c. ln_phase (sv_links s c) = Serving}
     \<and> (sv_closed s \<longrightarrow> sv_conns s = {})"

text \<open>What the invariant sees of a server: steps that keep the readers and cards, or the links, keep their half.\<close>

definition cards_ok :: "Server \<Rightarrow> bool" where
  "cards_ok s \<longleftrightarrow> (\<forall>handle name. sv_cards s handle = Some name \<longrightarrow> name \<in> fst ` set (sv_readers s))
     \<and> distinct (map fst (sv_readers s))"

definition links_ok :: "Server \<Rightarrow> bool" where
  "links_ok s \<longleftrightarrow> sv_conns s = {c. ln_phase (sv_links s c) \<noteq> Gone}
     \<and> sv_waiters s \<subseteq> {c. ln_phase (sv_links s c) = Serving} \<and> (sv_closed s \<longrightarrow> sv_conns s = {})"

lemma daemon_inv_halves: "daemon_inv s \<longleftrightarrow> cards_ok s \<and> links_ok s"
  by (auto simp: daemon_inv_def cards_ok_def links_ok_def)

text \<open>The half of the links depends on the phases only.\<close>

definition same_links :: "Server \<Rightarrow> Server \<Rightarrow> bool" where
  "same_links s s' \<longleftrightarrow> sv_conns s' = sv_conns s \<and> sv_closed s' = sv_closed s
     \<and> (\<forall>c. ln_phase (sv_links s' c) = ln_phase (sv_links s c))"

lemma same_links_refl [simp]: "same_links s s"
  by (simp add: same_links_def)

lemma same_links_trans: "same_links a b \<Longrightarrow> same_links b c \<Longrightarrow> same_links a c"
  by (simp add: same_links_def)

lemma links_okI: "links_ok s \<Longrightarrow> same_links s s' \<Longrightarrow> sv_waiters s' \<subseteq> sv_waiters s \<Longrightarrow> links_ok s'"
  by (auto simp: links_ok_def same_links_def)

lemma cards_ok_put: "cards_ok s \<Longrightarrow> cards_ok (put_reader name r s)"
  by (auto simp: cards_ok_def dom_update distinct_update)

section \<open>What one request does\<close>

text \<open>While a connection is served, no link changes its phase, only that connection may begin to wait, the
  cards keep naming readers, and no reader counts an event.\<close>

definition counters :: "Server \<Rightarrow> string \<Rightarrow> u32" where
  "counters s name = (case map_of (sv_readers s) name of Some r \<Rightarrow> fr_EventCounter r | None \<Rightarrow> 0)"

definition settles :: "nat \<Rightarrow> Server \<Rightarrow> Server \<Rightarrow> bool" where
  "settles c s s' \<longleftrightarrow> same_links s s' \<and> sv_waiters s' \<subseteq> insert c (sv_waiters s) \<and> (cards_ok s \<longrightarrow> cards_ok s')
     \<and> counters s' = counters s"

lemma settles_refl [simp]: "settles c s s"
  by (auto simp: settles_def)

lemma counters_cong: "sv_readers s' = sv_readers s \<Longrightarrow> counters s' = counters s"
  by (simp add: counters_def fun_eq_iff)

lemma counters_put: "fr_EventCounter r = counters s name \<Longrightarrow> counters (put_reader name r s) = counters s"
  by (auto simp: counters_def fun_eq_iff update_conv')

lemma counters_kept [simp]:
  "counters (s\<lparr>sv_waiters := ws\<rparr>) = counters s" "counters (s\<lparr>sv_cards := cs\<rparr>) = counters s"
  "counters (s\<lparr>sv_links := ls\<rparr>) = counters s" "counters (s\<lparr>sv_handles := h\<rparr>) = counters s"
  "counters (s\<lparr>sv_OfferedMinor := m\<rparr>) = counters s" "counters (s\<lparr>sv_waiters := ws, sv_links := ls\<rparr>) = counters s"
  "counters (s\<lparr>sv_handles := h, sv_cards := cs\<rparr>) = counters s"
  by (simp_all add: counters_def fun_eq_iff)

lemma activate_counter: "activate r = (here, r') \<Longrightarrow> fr_EventCounter r' = fr_EventCounter r"
  by (auto simp: activate_def Let_def split: if_splits prod.splits)

lemma settles_trans [trans]: "settles c a b \<Longrightarrow> settles c b d \<Longrightarrow> settles c a d"
proof -
  assume ab: "settles c a b" and bd: "settles c b d"
  have "same_links a d" by (rule same_links_trans [where b = b]) (use ab bd in \<open>simp_all add: settles_def\<close>)
  moreover have "sv_waiters d \<subseteq> insert c (sv_waiters a)" using ab bd unfolding settles_def by blast
  ultimately show ?thesis using ab bd by (simp add: settles_def)
qed

lemma settles_inv:
  assumes "settles c s s'" "daemon_inv s" "ln_phase (sv_links s c) = Serving"
  shows "daemon_inv s'"
proof -
  from assms(1) have same: "same_links s s'" and waits: "sv_waiters s' \<subseteq> insert c (sv_waiters s)"
    and cards: "cards_ok s \<longrightarrow> cards_ok s'" by (simp_all add: settles_def)
  have phases: "ln_phase (sv_links s' d) = ln_phase (sv_links s d)" for d
    using same by (simp add: same_links_def)
  have "sv_waiters s' \<subseteq> {d. ln_phase (sv_links s d) = Serving}"
    using waits assms(2,3) by (auto simp: daemon_inv_def)
  moreover have "sv_conns s' = {d. ln_phase (sv_links s d) \<noteq> Gone}" "sv_closed s' \<longrightarrow> sv_conns s' = {}"
    using same assms(2) unfolding daemon_inv_def same_links_def by metis+
  ultimately have "links_ok s'" unfolding links_ok_def phases by blast
  with cards assms(2) show ?thesis by (simp add: daemon_inv_halves)
qed

lemma settles_write: "conn_write d b s = (ok, s') \<Longrightarrow> settles c s s'"
  by (auto simp: conn_write_def settles_def same_links_def cards_ok_def split: if_splits)

lemma settles_put: "fr_EventCounter r = counters s name \<Longrightarrow> settles c s (put_reader name r s)"
  by (simp add: settles_def same_links_def cards_ok_put subset_insertI counters_put)

text \<open>The reader an operation finds, or the zero reader, holds the counter of its name.\<close>

lemma counter_found [simp]:
  "fr_EventCounter (case map_of (sv_readers s) name of Some r \<Rightarrow> r | None \<Rightarrow> zero_reader) = counters s name"
  by (simp add: counters_def zero_reader_def split: option.split)

lemma settles_open_card: "open_card name s = (r, s') \<Longrightarrow> settles c s s'"
proof -
  assume open_eq: "open_card name s = (r, s')"
  show ?thesis
  proof (cases "map_of (sv_readers s) name")
    case (Some rd)
    obtain here rd' where act: "activate rd = (here, rd')" by force
    let ?t = "put_reader name rd' s"
    have s': "s' = (if here then ?t\<lparr>sv_handles := sv_handles ?t + 1, sv_cards := (sv_cards ?t)(sv_handles ?t + 1 \<mapsto> name)\<rparr>
        else ?t)"
      using open_eq Some act by (auto simp: open_card_def Let_def split: if_splits)
    have "name \<in> fst ` set (sv_readers ?t)" by (simp add: dom_update)
    then have "settles c ?t s'"
      by (cases here) (simp_all add: s' settles_def same_links_def cards_ok_def subset_insertI)
    moreover have "settles c s ?t" by (rule settles_put) (simp add: activate_counter [OF act] counters_def Some)
    ultimately show ?thesis by (rule settles_trans [rotated])
  qed (use open_eq in \<open>simp add: open_card_def\<close>)
qed

lemma settles_ask_card: "ask_card handle s = (r, s') \<Longrightarrow> settles c s s'"
  by (auto simp: ask_card_def Let_def settles_put counters_def zero_reader_def simp del: update.simps split: option.splits if_splits)

lemma settles_card_attribute: "card_attribute handle attr s = (r, s') \<Longrightarrow> settles c s s'"
  by (auto simp: card_attribute_def Let_def settles_put counters_def zero_reader_def simp del: update.simps split: option.splits if_splits)

lemma settles_forget: "settles c s (s\<lparr>sv_cards := (sv_cards s)(handle := None)\<rparr>)"
  by (simp add: settles_def same_links_def cards_ok_def subset_insertI)

lemma settles_close_card: "settles c s (close_card handle disposition s)"
  unfolding close_card_def Let_def
  by (rule settles_trans [OF _ settles_forget]) (simp add: settles_put split: option.split)

lemma settles_wait: "settles c s (s\<lparr>sv_waiters := insert c (sv_waiters s)\<rparr>)"
  by (simp add: settles_def same_links_def cards_ok_def)

lemma settles_unregister: "unregister d s = (b, s') \<Longrightarrow> settles c s s'"
  by (auto simp: unregister_def settles_def same_links_def cards_ok_def)

lemma settles_serve_connect: "serve_connect c body s = Some (ok, s') \<Longrightarrow> settles c s s'"
  unfolding serve_connect_def
  by (auto split: prod.splits bind_splits dest!: settles_write [where c = c] settles_open_card [where c = c]
      elim: settles_trans)

lemma settles_serve_getAttrib: "serve_getAttrib c body s = Some (ok, s') \<Longrightarrow> settles c s s'"
  unfolding serve_getAttrib_def
  by (auto split: prod.splits bind_splits dest!: settles_write [where c = c] settles_card_attribute [where c = c]
      elim: settles_trans)

lemma settles_serve_disconnect: "serve_disconnect c body s = Some (ok, s') \<Longrightarrow> settles c s s'"
  unfolding serve_disconnect_def
  by (auto split: bind_splits dest!: settles_write [where c = c] intro: settles_trans [OF settles_close_card])

lemma settles_serve_establish: "serve_establish c body s = Some (ok, s') \<Longrightarrow> settles c s s'"
  unfolding serve_establish_def Let_def by (auto split: bind_splits dest!: settles_write [where c = c])

lemma settles_serve_transmit: "serve_transmit c body rest s = Served ok s' rest' \<Longrightarrow> settles c s s'"
  unfolding serve_transmit_def Let_def
  by (auto split: option.splits prod.splits if_splits dest!: settles_write [where c = c] settles_ask_card [where c = c]
      elim: settles_trans)

lemma served_settles:
  assumes "served rest r = Served ok s' rest'" "\<And>ok t. r = Some (ok, t) \<Longrightarrow> settles c s t"
  shows "settles c s s'"
  using assms by (auto simp: served_def split: option.splits prod.splits)

lemmas settles_handlers = settles_serve_connect settles_serve_getAttrib settles_serve_disconnect
  settles_serve_establish

lemma settles_dispatch:
  assumes "dispatch c command body rest s = Served ok s' rest'"
  shows "settles c s s'"
proof -
  have reply: "settles c s t" if "conn_write c b s = (ok', t)" for b t ok'
    using that by (rule settles_write)
  have released: "settles c s (snd (conn_write c b s))" for b
    using settles_write [of c b s _ "snd (conn_write c b s)"] by (metis prod.collapse)
  have waits: "settles c s t" if "registerAndDump c s = (ok', t)" for t ok'
    using that settles_trans [OF settles_wait settles_write] by (auto simp: registerAndDump_def Let_def)
  have stops: "settles c s t" if "unregister c s = (b, u)" "conn_write c x u = (ok', t)" for t ok' b u x
    using settles_trans [OF settles_unregister settles_write] that by blast
  show ?thesis
    using assms unfolding dispatch_def register_def writeStates_def
    by (auto split: if_splits prod.splits elim!: served_settles settles_serve_transmit
        intro: settles_handlers waits stops reply released settles_wait settles_unregister)
qed

section \<open>Each step keeps the invariant\<close>

lemma settles_step_inv: "(\<And>c. settles c s s') \<Longrightarrow> daemon_inv s \<Longrightarrow> sv_waiters s' \<subseteq> sv_waiters s \<Longrightarrow> daemon_inv s'"
  unfolding daemon_inv_halves by (meson links_okI settles_def)

lemma put_reader_inv: "daemon_inv s \<Longrightarrow> daemon_inv (put_reader name r s)"
  unfolding daemon_inv_halves by (auto simp: cards_ok_put links_ok_def)

lemma wakeWaiters_inv: "daemon_inv s \<Longrightarrow> daemon_inv (wakeWaiters s)"
proof (rule settles_step_inv)
  show "settles c s (wakeWaiters s)" for c
    by (auto simp: settles_def same_links_def wakeWaiters_def Let_def conn_write_def cards_ok_def)
qed (simp_all add: wakeWaiters_def Let_def)

lemma InsertCard_inv: "daemon_inv s \<Longrightarrow> daemon_inv (InsertCard reader atr uid s)"
  unfolding InsertCard_def Let_def by (intro wakeWaiters_inv put_reader_inv)

lemma RemoveCard_inv: "daemon_inv s \<Longrightarrow> daemon_inv (RemoveCard reader s)"
  unfolding RemoveCard_def by (rule wakeWaiters_inv) (simp add: put_reader_inv split: option.split)

lemma SetSerial_inv: "daemon_inv s \<Longrightarrow> daemon_inv (SetSerial reader serial s)"
  by (simp add: SetSerial_def put_reader_inv split: option.split)

lemma SetChannelID_inv: "daemon_inv s \<Longrightarrow> daemon_inv (SetChannelID reader ident s)"
  by (simp add: SetChannelID_def put_reader_inv split: option.split)

lemma Reader_of_inv: "Reader_of reader s = (r, s') \<Longrightarrow> daemon_inv s \<Longrightarrow> daemon_inv s'"
  by (auto simp: Reader_of_def put_reader_inv split: option.splits)

lemma hang_up_inv: "daemon_inv s \<Longrightarrow> daemon_inv (hang_up c s)"
  by (auto simp: daemon_inv_def hang_up_def)

lemma accept_inv: "daemon_inv s \<Longrightarrow> ln_phase (sv_links s c) = Gone \<Longrightarrow> daemon_inv (accept c s)"
  by (auto simp: daemon_inv_def accept_def accept_register_def no_link_def)

lemma Close_inv: "daemon_inv s \<Longrightarrow> daemon_inv (daemon_Close s)"
  by (auto simp: daemon_inv_def daemon_Close_def hang_up_def)

lemma set_link_inv:
  assumes "\<And>l. ln_phase (f l) = ln_phase l" "daemon_inv s"
  shows "daemon_inv (set_link c f s)"
proof (rule settles_step_inv [OF _ assms(2)])
  show "settles d s (set_link c f s)" for d
    using assms(1) by (simp add: settles_def same_links_def cards_ok_def subset_insertI)
qed simp

lemma negotiate_inv:
  assumes "negotiate c command body rest s = Served ok s' rest'" "daemon_inv s"
    "ln_phase (sv_links s c) = Negotiating"
  shows "daemon_inv s'"
proof -
  have "conn_write c b s = (True, set_link c (\<lambda>l. l\<lparr>ln_out := ln_out l @ b\<rparr>) s)" for b
    using assms(3) by (simp add: conn_write_def)
  moreover have "daemon_inv (set_link c (\<lambda>l. l\<lparr>ln_out := ln_out l @ b, ln_phase := Serving\<rparr>) s)" for b
    using assms(2,3) by (auto simp: daemon_inv_def)
  moreover have "daemon_inv (set_link c (\<lambda>l. l\<lparr>ln_out := ln_out l @ b\<rparr>) s)" for b
    by (rule set_link_inv) (simp_all add: assms(2))
  ultimately show ?thesis
    using assms(1,2) by (auto simp: negotiate_def split: if_splits option.splits)
qed

lemma request_inv:
  assumes "(if ln_phase (sv_links s c) = Negotiating then negotiate c command body rest s
      else dispatch c command body rest s) = Served goes_on t rest'"
    and "ln_phase (sv_links s c) \<noteq> Gone" "daemon_inv s"
  shows "daemon_inv t"
proof (cases "ln_phase (sv_links s c)")
  case Negotiating
  then show ?thesis using assms(1,3) by (auto intro: negotiate_inv)
next
  case Serving
  then show ?thesis using assms(1,3) by (auto intro: settles_inv [OF settles_dispatch])
qed (use assms(2) in simp)

lemma serve_step_inv:
  assumes "serve_step c s = Stepped s'" "daemon_inv s"
  shows "daemon_inv s'"
proof (cases "readMessage (ln_in (sv_links s c))")
  case (Message command body rest)
  from assms(1) have alive: "ln_phase (sv_links s c) \<noteq> Gone" by (auto simp: serve_step_def)
  let ?o = "if ln_phase (sv_links s c) = Negotiating then negotiate c command body rest s
      else dispatch c command body rest s"
  from assms(1) alive Message obtain goes_on t rest' where o: "?o = Served goes_on t rest'"
    and s': "s' = (if goes_on then set_link c (\<lambda>l. l\<lparr>ln_in := rest'\<rparr>) t else hang_up c t)"
    by (auto simp: serve_step_def Let_def split: outcome.splits if_splits)
  from request_inv [OF o alive assms(2)] s' show ?thesis by (simp add: hang_up_inv set_link_inv)
qed (use assms hang_up_inv [OF assms(2)] in \<open>auto simp: serve_step_def Let_def split: if_splits\<close>)

lemma serve_inv: "serve c s = Some s' \<Longrightarrow> daemon_inv s \<Longrightarrow> daemon_inv s'"
proof (induction c s rule: serve.induct)
  case (1 c s)
  then show ?case
    by (cases "serve_step c s") (auto simp: serve.simps [of c s] intro: serve_step_inv)
qed

lemma client_sends_inv: "client_sends c b s = Some s' \<Longrightarrow> daemon_inv s \<Longrightarrow> daemon_inv s'"
  unfolding client_sends_def by (erule serve_inv) (simp add: set_link_inv)

lemma daemon_step_inv: "daemon_step s s' \<Longrightarrow> daemon_inv s \<Longrightarrow> daemon_inv s'"
proof (induction rule: daemon_step.induct)
  case (Offers s minor)
  show ?case
    by (rule settles_step_inv [OF _ Offers]) (simp_all add: settles_def same_links_def cards_ok_def subset_insertI)
qed (auto intro: accept_inv client_sends_inv set_link_inv hang_up_inv InsertCard_inv RemoveCard_inv SetSerial_inv
    SetChannelID_inv put_reader_inv Reader_of_inv Close_inv)

text \<open>The machine takes the two halves of accepting in one step, so it has no daemon that closes between
  them. In the code one can: the connection entered then is open and served in a daemon whose \<open>Close\<close>
  has closed the others, and waits for its handler.\<close>

lemma late_registration:
  "let s' = accept_register c (daemon_Close s) in
     sv_closed s' \<and> sv_conns s' = {c} \<and> ln_phase (sv_links s' c) = Negotiating"
  by (simp add: Let_def accept_register_def daemon_Close_def)

lemma daemon_reachable_inv: "daemon_reachable path s \<Longrightarrow> daemon_inv s"
proof (induction rule: daemon_reachable.induct)
  case Start
  show ?case by (simp add: daemon_inv_def New_def no_link_def)
qed (rule daemon_step_inv)

section \<open>What holds in every reachable state\<close>


text \<open>A client that negotiates and waits, at a daemon of the older protocol with one card.\<close>

definition sample_frames :: "byte list" where
  "sample_frames = put_le32 12 @ put_le32 daemon_version @ daemon_encodeVersion 4 3 0
     @ put_le32 8 @ put_le32 daemon_wait @ daemon_encodeWait 1000 0"

definition sample_old :: Server where
  "sample_old = (New ''/run'')\<lparr>sv_OfferedMinor := 3\<rparr>"

definition sample_daemon :: Server where
  "sample_daemon = accept 0 (InsertCard ''R'' [0x3B, 0] [1, 2] sample_old)"

lemma sample_waits:
  "map_option (\<lambda>s. (0 \<in> sv_waiters s, ln_phase (sv_links s 0))) (client_sends 0 sample_frames sample_daemon)
     = Some (True, Serving)"
  by code_simp


end
