(* ===== verification/Wakeups.thy ===== *)
theory Wakeups
  imports Daemon
begin

text \<open>
  The daemon's notifications under concurrency. \<open>InsertCard\<close> and \<open>RemoveCard\<close> change the reader in one
  critical section and wake the waiters in another, so that a client can register between the two. The
  machine of this theory interleaves the single critical sections, of any number of such calls, with the
  single messages of the clients, and shows that no wake-up is lost. It also orders the phases of a
  connection: no step but a new connection takes one back.
\<close>

section \<open>Critical sections\<close>

definition insert_locked :: "string \<Rightarrow> byte list \<Rightarrow> byte list \<Rightarrow> Server \<Rightarrow> Server" where
  "insert_locked reader atr uid s =
     (let r = (case map_of (sv_readers s) reader of Some r \<Rightarrow> r | None \<Rightarrow> zero_reader)
      in put_reader reader (r\<lparr>fr_ATR := atr, fr_UID := uid, fr_Present := True,
           fr_EventCounter := fr_EventCounter r + 1, fr_resetLag := False\<rparr>) s)"

definition remove_locked :: "string \<Rightarrow> Server \<Rightarrow> Server" where
  "remove_locked reader s =
     (case map_of (sv_readers s) reader of
        Some r \<Rightarrow> put_reader reader (r\<lparr>fr_Present := False, fr_EventCounter := fr_EventCounter r + 1\<rparr>) s
      | None \<Rightarrow> s)"

lemma whole_calls:
  "InsertCard reader atr uid s = wakeWaiters (insert_locked reader atr uid s)"
  "RemoveCard reader s = wakeWaiters (remove_locked reader s)"
  by (simp_all add: InsertCard_def insert_locked_def RemoveCard_def remove_locked_def Let_def)

section \<open>The interleaving\<close>

text \<open>A state is the server, the number of calls between their two sections, and for each connection the
  event counters of the readers when it began to wait.\<close>

definition note_waits :: "Server \<Rightarrow> Server \<Rightarrow> (nat \<Rightarrow> string \<Rightarrow> u32) \<Rightarrow> nat \<Rightarrow> string \<Rightarrow> u32" where
  "note_waits s s' seen c = (if c \<in> sv_waiters s' \<and> c \<notin> sv_waiters s then counters s' else seen c)"

type_synonym race = "Server \<times> nat \<times> (nat \<Rightarrow> string \<Rightarrow> u32)"

inductive race_step :: "race \<Rightarrow> race \<Rightarrow> bool" where
  Serves: "serve_step c s = Stepped s' \<Longrightarrow> race_step (s, n, seen) (s', n, note_waits s s' seen)"
| Writes: "race_step (s, n, seen) (set_link c (\<lambda>l. l\<lparr>ln_in := ln_in l @ b\<rparr>) s, n, seen)"
| Reads: "race_step (s, n, seen) (set_link c (\<lambda>l. l\<lparr>ln_out := drop k (ln_out l)\<rparr>) s, n, seen)"
| Joins: "ln_phase (sv_links s c) = Gone \<Longrightarrow> race_step (s, n, seen) (accept c s, n, seen)"
| Parts: "race_step (s, n, seen) (hang_up c s, n, seen)"
| Inserting: "race_step (s, n, seen) (insert_locked reader atr uid s, Suc n, seen)"
| Removing: "race_step (s, n, seen) (remove_locked reader s, Suc n, seen)"
| Waking: "race_step (s, Suc n, seen) (wakeWaiters s, n, seen)"
| Naming: "race_step (s, n, seen) (SetSerial reader serial s, n, seen)"
| Placing: "race_step (s, n, seen) (SetChannelID reader ident s, n, seen)"
| Tuning: "Reader_of reader s = (r, s') \<Longrightarrow> fr_EventCounter r' = fr_EventCounter r \<Longrightarrow>
    race_step (s, n, seen) (put_reader reader r' s', n, seen)"
| Offering: "race_step (s, n, seen) (s\<lparr>sv_OfferedMinor := minor\<rparr>, n, seen)"
| Closing: "race_step (s, n, seen) (daemon_Close s, n, seen)"

inductive race_reachable :: "string \<Rightarrow> race \<Rightarrow> bool" for path where
  Init: "race_reachable path (New path, 0, \<lambda>_ _. 0)"
| Next: "race_reachable path a \<Longrightarrow> race_step a b \<Longrightarrow> race_reachable path b"

lemmas race_step_cases = race_step.cases [split_format (complete)]

section \<open>What one step does\<close>

text \<open>Serving a message changes no counter, and only the connection served may begin to wait.\<close>

lemma negotiate_keeps:
  assumes "negotiate c command body rest s = Served ok s' rest'"
  shows "counters s' = counters s \<and> sv_waiters s' = sv_waiters s"
  using assms by (auto simp: negotiate_def conn_write_def counters_def split: if_splits option.splits)

lemma serve_step_calm:
  assumes "serve_step c s = Stepped s'"
  shows "counters s' = counters s \<and> sv_waiters s' \<subseteq> insert c (sv_waiters s)"
proof (cases "readMessage (ln_in (sv_links s c))")
  case (Message command body rest)
  from assms have alive: "ln_phase (sv_links s c) \<noteq> Gone" by (auto simp: serve_step_def)
  let ?o = "if ln_phase (sv_links s c) = Negotiating then negotiate c command body rest s
      else dispatch c command body rest s"
  from assms alive Message obtain goes_on t rest' where o: "?o = Served goes_on t rest'"
    and s': "s' = (if goes_on then set_link c (\<lambda>l. l\<lparr>ln_in := rest'\<rparr>) t else hang_up c t)"
    by (auto simp: serve_step_def Let_def split: outcome.splits if_splits)
  have "counters t = counters s \<and> sv_waiters t \<subseteq> insert c (sv_waiters s)"
    using o negotiate_keeps settles_dispatch unfolding settles_def by (auto split: if_splits)
  moreover have "counters (hang_up c t) = counters t" by (simp add: hang_up_def counters_def fun_eq_iff)
  ultimately show ?thesis by (auto simp: s' hang_up_def)
qed (use assms in \<open>auto simp: serve_step_def Let_def hang_up_def counters_def fun_eq_iff split: if_splits\<close>)

text \<open>Each critical section that notifies nobody leaves the counters alone.\<close>

lemma quiet_counters:
  "counters (set_link c f s) = counters s" "counters (accept c s) = counters s" "counters (hang_up c s) = counters s"
  "counters (wakeWaiters s) = counters s" "counters (SetSerial reader serial s) = counters s"
  "counters (SetChannelID reader ident s) = counters s" "counters (daemon_Close s) = counters s"
  by (auto simp: counters_def fun_eq_iff accept_def accept_register_def hang_up_def wakeWaiters_def Let_def SetSerial_def SetChannelID_def
      daemon_Close_def update_conv' zero_reader_def split: option.split)

lemma tuned_counters:
  assumes "Reader_of reader s = (r, s')" "fr_EventCounter r' = fr_EventCounter r"
  shows "counters (put_reader reader r' s') = counters s"
  using assms by (auto simp: Reader_of_def counters_def fun_eq_iff update_conv' zero_reader_def split: option.splits)

section \<open>The invariant\<close>

text \<open>While no call is between its sections, whoever waits has seen every event.\<close>

definition race_inv :: "race \<Rightarrow> bool" where
  "race_inv = (\<lambda>(s, n, seen). daemon_inv s \<and> (n = 0 \<longrightarrow> (\<forall>c \<in> sv_waiters s. seen c = counters s)))"

lemma race_inv_step: "race_step a b \<Longrightarrow> race_inv a \<Longrightarrow> race_inv b"
proof (induction rule: race_step.induct)
  case (Serves c s s' n seen)
  then have "daemon_inv s'" by (auto simp: race_inv_def intro: serve_step_inv)
  with Serves serve_step_calm [OF Serves(1)] show ?case by (auto simp: race_inv_def note_waits_def)
next
  case (Inserting s n seen reader atr uid)
  then show ?case by (auto simp: race_inv_def insert_locked_def Let_def intro: put_reader_inv)
next
  case (Removing s n seen reader)
  then show ?case by (auto simp: race_inv_def remove_locked_def intro: put_reader_inv split: option.split)
next
  case (Waking s n seen)
  then show ?case by (auto simp: race_inv_def wakeWaiters_inv) (auto simp: wakeWaiters_def Let_def)
next
  case (Tuning reader s r s' r' n seen)
  have "sv_waiters s' = sv_waiters s" using Tuning(1) by (auto simp: Reader_of_def split: option.splits)
  then show ?case using Tuning tuned_counters [OF Tuning(1,2)]
    by (auto simp: race_inv_def intro: put_reader_inv Reader_of_inv)
next
  case (Offering s n seen minor)
  then have "daemon_step s (s\<lparr>sv_OfferedMinor := minor\<rparr>)" by (intro Offers)
  then show ?case using Offering by (auto simp: race_inv_def daemon_step_inv)
qed (auto simp: race_inv_def quiet_counters set_link_inv hang_up_inv accept_inv SetSerial_inv SetChannelID_inv Close_inv,
    auto simp: hang_up_def accept_def accept_register_def SetSerial_def SetChannelID_def daemon_Close_def split: option.splits if_splits)

lemma race_reachable_inv: "race_reachable path a \<Longrightarrow> race_inv a"
proof (induction rule: race_reachable.induct)
  case Init
  have "daemon_inv (New path)" by (rule daemon_reachable_inv [OF Start])
  then show ?case by (simp add: race_inv_def New_def)
qed (rule race_inv_step)

section \<open>No lost wake-up\<close>

lemma woken_output:
  assumes "sv_waiters s \<subseteq> {c. ln_phase (sv_links s c) = Serving}"
  shows "ln_out (sv_links (wakeWaiters s) c)
    = ln_out (sv_links s c) @ (if c \<in> sv_waiters s then daemon_encodeWait 0 0 else [])"
  using assms by (auto simp: wakeWaiters_def Let_def conn_write_def)

text \<open>C25. No wake-up is lost, however the two critical sections of \<open>InsertCard\<close> and \<open>RemoveCard\<close> interleave
  with each other and with the messages of the clients. While no such call is half way, a connection on
  the waiter list has missed no event since it was put there; and the second section of a call writes the
  eight bytes of the change signal to every connection on the list, live as it is, and to no other.\<close>

theorem no_lost_wakeup:
  assumes "race_reachable path (s, n, seen)"
  shows "(n = 0 \<and> c \<in> sv_waiters s \<longrightarrow> seen c = counters s)
    \<and> ln_out (sv_links (wakeWaiters s) c) = ln_out (sv_links s c) @ (if c \<in> sv_waiters s then daemon_encodeWait 0 0 else [])
    \<and> sv_waiters (wakeWaiters s) = {}"
proof -
  have inv: "daemon_inv s" "n = 0 \<longrightarrow> (\<forall>c \<in> sv_waiters s. seen c = counters s)"
    using race_reachable_inv [OF assms] by (simp_all add: race_inv_def)
  from inv(1) have "sv_waiters s \<subseteq> {c. ln_phase (sv_links s c) = Serving}"
    unfolding daemon_inv_def by - (elim conjE, assumption)+
  from woken_output [OF this] inv(2) show ?thesis by (simp add: wakeWaiters_def Let_def)
qed

section \<open>Phases only advance\<close>

fun phase_rank :: "phase \<Rightarrow> nat" where
  "phase_rank Negotiating = 0"
| "phase_rank Serving = 1"
| "phase_rank Gone = 2"

lemma phase_rank_inject [simp]: "phase_rank p = phase_rank q \<longleftrightarrow> p = q"
  by (cases p; cases q) simp_all

instantiation phase :: linorder
begin

definition less_eq_phase :: "phase \<Rightarrow> phase \<Rightarrow> bool" where
  "p \<le> q \<longleftrightarrow> phase_rank p \<le> phase_rank q"

definition less_phase :: "phase \<Rightarrow> phase \<Rightarrow> bool" where
  "p < q \<longleftrightarrow> phase_rank p < phase_rank q"

instance
  by standard (auto simp: less_eq_phase_def less_phase_def dest: antisym)

end

lemma Gone_greatest [simp]: "p \<le> Gone"
  by (cases p) (simp_all add: less_eq_phase_def)

lemma Negotiating_least [simp]: "Negotiating \<le> p"
  by (simp add: less_eq_phase_def)

definition advances :: "Server \<Rightarrow> Server \<Rightarrow> bool" where
  "advances s s' \<longleftrightarrow> (\<forall>c. ln_phase (sv_links s c) \<le> ln_phase (sv_links s' c))"

lemma advances_trans [trans]: "advances a b \<Longrightarrow> advances b d \<Longrightarrow> advances a d"
  unfolding advances_def by (blast intro: order_trans)

lemma advances_same: "same_links s s' \<Longrightarrow> advances s s'"
  by (simp add: advances_def same_links_def)

lemma hang_up_advances: "advances s (hang_up c s)"
  by (simp add: advances_def hang_up_def)

lemma negotiate_advances:
  assumes "negotiate c command body rest s = Served ok s' rest'" "ln_phase (sv_links s c) = Negotiating"
  shows "advances s s'"
  using assms by (auto simp: negotiate_def conn_write_def advances_def split: if_splits option.splits)

lemma serve_step_advances:
  assumes "serve_step c s = Stepped s'"
  shows "advances s s'"
proof (cases "readMessage (ln_in (sv_links s c))")
  case (Message command body rest)
  from assms have alive: "ln_phase (sv_links s c) \<noteq> Gone" by (auto simp: serve_step_def)
  let ?o = "if ln_phase (sv_links s c) = Negotiating then negotiate c command body rest s
      else dispatch c command body rest s"
  from assms alive Message obtain goes_on t rest' where o: "?o = Served goes_on t rest'"
    and s': "s' = (if goes_on then set_link c (\<lambda>l. l\<lparr>ln_in := rest'\<rparr>) t else hang_up c t)"
    by (auto simp: serve_step_def Let_def split: outcome.splits if_splits)
  have "advances s t"
    using o negotiate_advances settles_dispatch unfolding settles_def by (auto split: if_splits intro: advances_same)
  also have "advances t s'" by (auto simp: s' hang_up_advances intro: advances_same simp: same_links_def)
  finally show ?thesis .
qed (use assms hang_up_advances in \<open>auto simp: serve_step_def Let_def split: if_splits\<close>)

lemma Tuning_links: "Reader_of reader s = (r, s') \<Longrightarrow> sv_links s' = sv_links s"
  by (auto simp: Reader_of_def split: option.splits)

lemma phases_advance:
  assumes "race_step (s, n, seen) (s', n', seen')" "\<And>c. s' \<noteq> accept c s"
  shows "advances s s'"
  using assms(1)
proof (cases rule: race_step_cases)
  case (Serves c)
  then show ?thesis by (simp add: serve_step_advances)
next
  case (Parts c)
  then show ?thesis by (simp add: hang_up_advances)
next
  case (Tuning reader r t r')
  then show ?thesis by (simp add: advances_def Tuning_links)
qed (use assms(2) in \<open>auto simp: advances_def insert_locked_def remove_locked_def Let_def wakeWaiters_def conn_write_def
    SetSerial_def SetChannelID_def daemon_Close_def hang_up_def split: option.split\<close>)

text \<open>A client of the older protocol that waits while a card is half inserted.\<close>

definition race_sent :: Server where
  "race_sent = set_link 0 (\<lambda>l. l\<lparr>ln_in := ln_in l @ sample_frames\<rparr>)
     (insert_locked ''R'' [0x3B, 0] [1, 2] (accept 0 sample_old))"

definition stepped_server :: "stepped \<Rightarrow> Server" where
  "stepped_server x = (case x of Stepped s \<Rightarrow> s | _ \<Rightarrow> New [])"

definition race_served :: Server where
  "race_served = stepped_server (serve_step 0 race_sent)"

definition race_waiting :: Server where
  "race_waiting = stepped_server (serve_step 0 race_served)"

lemma stepped_serverI: "(case x of Stepped s \<Rightarrow> True | _ \<Rightarrow> False) \<Longrightarrow> x = Stepped (stepped_server x)"
  by (simp add: stepped_server_def split: stepped.splits)

lemma race_served: "serve_step 0 race_sent = Stepped race_served"
  unfolding race_served_def by (rule stepped_serverI) code_simp

lemma race_waiting: "serve_step 0 race_served = Stepped race_waiting"
  unfolding race_waiting_def by (rule stepped_serverI) code_simp

lemma race_run: "\<exists>seen. race_reachable ''/run'' (race_waiting, 1, seen)"
proof -
  have "race_reachable ''/run'' (sample_old, 0, \<lambda>_ _. 0)"
    unfolding sample_old_def by (rule Next [OF Init Offering])
  then have "race_reachable ''/run'' (accept 0 sample_old, 0, \<lambda>_ _. 0)"
    by (rule Next) (rule Joins, simp add: New_def no_link_def sample_old_def)
  from Next [OF this Inserting] have "race_reachable ''/run'' (race_sent, 1, \<lambda>_ _. 0)"
    unfolding race_sent_def One_nat_def by (rule Next [OF _ Writes])
  from Next [OF Next [OF this Serves [OF race_served]] Serves [OF race_waiting]] show ?thesis by blast
qed

theorem no_lost_wakeup_witness:
  "0 \<in> sv_waiters race_waiting
   \<and> ln_out (sv_links (wakeWaiters race_waiting) 0) = ln_out (sv_links race_waiting 0) @ daemon_encodeWait 0 0"
proof -
  obtain seen where "race_reachable ''/run'' (race_waiting, 1, seen)" using race_run by blast
  moreover have "0 \<in> sv_waiters race_waiting" by code_simp
  ultimately show ?thesis using no_lost_wakeup by simp
qed

end
