(* ===== verification/Agreement.thy ===== *)
theory Agreement
  imports Fake Uid
begin

text \<open>
  The client of \<open>pcsc/ipc.go\<close> talking to the daemon of \<open>internal/pcscfake/pcscfake.go\<close>. The two
  implement the protocol with codecs of their own; here the client's connection is a connection of
  that daemon, and the theorems say that the two agree: every card operation of the client, through
  its frames and both codecs, is the locked section of the daemon's handler, called directly.

  A \<open>lab\<close> is the daemon with a script of card events. An event happens when the client waits for
  bytes that are not there; when the script is over, the deadline of the read fires.
\<close>

section \<open>The connection\<close>

datatype card_action = Inserts string "byte list" "byte list" | Removes string

fun act :: "card_action \<Rightarrow> Server \<Rightarrow> Server" where
  "act (Inserts reader atr uid) s = InsertCard reader atr uid s"
| "act (Removes reader) s = RemoveCard reader s"

record lab =
  lb_server :: Server
  lb_script :: "card_action list"

fun lab_read :: "nat \<Rightarrow> nat \<Rightarrow> Server \<Rightarrow> card_action list \<Rightarrow> (net_error + byte list) \<times> Server \<times> card_action list" where
  "lab_read c n s script =
     (let out = ln_out (sv_links s c); drained = set_link c (\<lambda>l. l\<lparr>ln_out := []\<rparr>) s in
      if n \<le> length out then (Inr (take n out), set_link c (\<lambda>l. l\<lparr>ln_out := drop n out\<rparr>) s, script)
      else if ln_phase (sv_links s c) = Gone then (Inl NetEOF, drained, script)
      else case script of
        [] \<Rightarrow> (Inl NetTimeout, drained, [])
      | a # script \<Rightarrow> lab_read c n (act a s) script)"

declare lab_read.simps [simp del]

definition lab_net :: "nat \<Rightarrow> lab net" where
  "lab_net c = \<lparr>
     n_dial = (\<lambda>path w. if path = sv_path (lb_server w) \<and> \<not> sv_closed (lb_server w)
       then (None, w\<lparr>lb_server := accept c (lb_server w)\<rparr>) else (Some NetFailure, w)),
     n_deadline = (\<lambda>_ w. (None, w)),
     n_write = (\<lambda>b w. if ln_phase (sv_links (lb_server w) c) = Gone then (Some NetFailure, w)
       else case client_sends c b (lb_server w) of
         None \<Rightarrow> (Some NetFailure, w) | Some s \<Rightarrow> (None, w\<lparr>lb_server := s\<rparr>)),
     n_read = (\<lambda>n w. case lab_read c n (lb_server w) (lb_script w) of
       (r, s, script) \<Rightarrow> (r, \<lparr>lb_server = s, lb_script = script\<rparr>)),
     n_close = (\<lambda>w. (None, w\<lparr>lb_server := hang_up c (lb_server w)\<rparr>))\<rparr>"

lemma lab_reads_exact: "reads_exact (lab_net c)"
proof -
  have "lab_read c n s script = (Inr b, s', script') \<Longrightarrow> length b = n" for n s script b s' script'
    by (induction c n s script rule: lab_read.induct)
      (subst (asm) (2) lab_read.simps, auto simp: Let_def split: if_splits list.splits)
  then show ?thesis by (fastforce simp: reads_exact_def lab_net_def split: prod.splits)
qed

lemma lab_ops:
  "n_dial (lab_net c) path w = (if path = sv_path (lb_server w) \<and> \<not> sv_closed (lb_server w)
     then (None, w\<lparr>lb_server := accept c (lb_server w)\<rparr>) else (Some NetFailure, w))"
  "setDeadline (lab_net c) d w = (None, w)"
  "writeMessage (lab_net c) command body w = n_write (lab_net c) (message command body) w"
  "n_write (lab_net c) b w = (if ln_phase (sv_links (lb_server w) c) = Gone then (Some NetFailure, w)
     else case client_sends c b (lb_server w) of None \<Rightarrow> (Some NetFailure, w) | Some s \<Rightarrow> (None, w\<lparr>lb_server := s\<rparr>))"
  "readRaw (lab_net c) n w = (case lab_read c n (lb_server w) (lb_script w) of
     (r, s, script) \<Rightarrow> (r, \<lparr>lb_server = s, lb_script = script\<rparr>))"
  "n_close (lab_net c) w = (None, w\<lparr>lb_server := hang_up c (lb_server w)\<rparr>)"
  by (simp_all add: lab_net_def setDeadline_def writeMessage_def readRaw_def)

lemma lab_same [simp]: "\<lparr>lb_server = lb_server w, lb_script = lb_script w\<rparr> = w"
  by (cases w) simp

definition idle :: "nat \<Rightarrow> Server \<Rightarrow> bool" where
  "idle c s \<longleftrightarrow> sv_links s c = \<lparr>ln_in = [], ln_out = [], ln_phase = Serving\<rparr>"

text \<open>The connection holds \<open>b\<close> unread and \<open>out\<close> unsent.\<close>

abbreviation busy :: "nat \<Rightarrow> byte list \<Rightarrow> byte list \<Rightarrow> Server \<Rightarrow> Server" where
  "busy c b out s \<equiv> s\<lparr>sv_links := (sv_links s)(c := \<lparr>ln_in = b, ln_out = out, ln_phase = Serving\<rparr>)\<rparr>"

lemma idle_busy: "idle c s \<Longrightarrow> busy c [] [] s = s"
  by (cases s) (simp add: idle_def fun_upd_idem)

section \<open>Frames\<close>

lemma readMessage_message:
  assumes "length body \<le> 1048576"
  shows "readMessage (message command body @ rest) = Message command body rest"
proof -
  have "(word_of_nat (length body) :: u32) \<le> 1048576"
    using assms by (simp add: word_le_nat_alt unat_of_nat take_bit_nat_eq_self)
  moreover have "unat (word_of_nat (length body) :: u32) = length body"
    using assms by (simp add: unat_of_nat take_bit_nat_eq_self)
  ultimately show ?thesis
    by (simp add: readMessage_def message_def wire_simps not_less)
qed

lemma readMessage_Nil: "readMessage [] = Short"
  by (simp add: readMessage_def le32_at_def go_slice_def)

lemma serve_idle: "ln_in (sv_links s c) = [] \<Longrightarrow> serve c s = Some s"
  by (simp add: serve.simps [of c s] serve_step_def Let_def readMessage_Nil)

lemma serve_request:
  assumes "length body \<le> 1048576" "dispatch c command body rest (busy c (message command body @ rest) [] s) = Served True s' rest'"
  shows "serve c (busy c (message command body @ rest) [] s) = serve c (set_link c (\<lambda>l. l\<lparr>ln_in := rest'\<rparr>) s')"
  by (subst serve.simps) (simp add: serve_step_def readMessage_message assms)

lemmas serve_request_alone = serve_request [where rest = "[]", simplified]

lemma client_sends_idle: "idle c s \<Longrightarrow> client_sends c b s = serve c (busy c b [] s)"
  by (simp add: client_sends_def idle_def)

lemma lab_read_ready:
  "n = length out \<Longrightarrow> lab_read c n (busy c [] (out @ later) s) script = (Inr out, busy c [] later s, script)"
  by (subst lab_read.simps) simp

section \<open>Locked sections\<close>

text \<open>
  What the handlers do under the server lock never touches the streams of the connections. That is
  the contract the exchange rests on: a request is answered by the locked section run on the state
  before the request, whatever the streams hold.
\<close>

locale locked_section =
  fixes sec :: "Server \<Rightarrow> 'a \<times> Server"
  assumes frame: "sec (s\<lparr>sv_links := L\<rparr>) = (fst (sec s), (snd (sec s))\<lparr>sv_links := L\<rparr>)"
begin

lemma keeps_links: "sv_links (snd (sec s)) = sv_links s"
proof -
  have "s\<lparr>sv_links := sv_links s\<rparr> = s" by (cases s) simp
  with frame [where s = s and L = "sv_links s"] have "snd (sec s) = (snd (sec s))\<lparr>sv_links := sv_links s\<rparr>" by (metis snd_conv)
  from arg_cong [OF this, of sv_links] show ?thesis by simp
qed

lemma keeps_idle: "idle c s \<Longrightarrow> idle c (snd (sec s))"
  by (simp add: idle_def keeps_links)

lemma sends_answer:
  assumes "idle c s" "length body \<le> 1048576"
    and "\<And>s. dispatch c command body rest s = (case sec s of (found, s) \<Rightarrow>
           served rest (Some (conn_write c (reply found) s)))"
  shows "serve c (busy c (message command body @ rest) [] s)
    = serve c (busy c rest (reply (fst (sec s))) (snd (sec s)))"
proof -
  let ?s = "busy c (message command body @ rest) [] s"
  have "sec ?s = (fst (sec s), busy c (message command body @ rest) [] (snd (sec s)))"
    by (simp add: frame keeps_links)
  then have "dispatch c command body rest ?s = Served True
      (busy c (message command body @ rest) (reply (fst (sec s))) (snd (sec s))) rest"
    by (simp add: assms(3) served_def conn_write_def)
  from serve_request [OF assms(2) this] show ?thesis by simp
qed

lemma answers:
  assumes "idle c (lb_server w)" "length body \<le> 1048576"
    and "\<And>s. dispatch c command body [] s = (case sec s of (found, s) \<Rightarrow>
           served [] (Some (conn_write c (reply found) s)))"
    and "length (reply (fst (sec (lb_server w)))) = n"
  shows "exchange (lab_net c) command body n w =
    (Inr (reply (fst (sec (lb_server w)))), w\<lparr>lb_server := snd (sec (lb_server w))\<rparr>)"
proof -
  let ?s = "lb_server w"
  have "client_sends c (message command body) ?s = Some (busy c [] (reply (fst (sec ?s))) (snd (sec ?s)))"
    using sends_answer [OF assms(1,2), of command "[]" reply, OF assms(3)] assms(1)
    by (simp add: client_sends_idle serve_idle)
  moreover have "ln_phase (sv_links ?s c) \<noteq> Gone" using assms(1) by (simp add: idle_def)
  moreover have "busy c [] [] (snd (sec ?s)) = snd (sec ?s)" by (rule idle_busy) (rule keeps_idle [OF assms(1)])
  ultimately show ?thesis
    using lab_read_ready [where n = n and out = "reply (fst (sec ?s))" and later = "[]"] assms(4)
    by (simp add: exchange_def lab_ops)
qed

end

lemmas section_defs = open_card_def ask_card_def card_attribute_def close_card_def unregister_def

interpretation opened: locked_section "open_card name" for name
  by unfold_locales (auto simp: open_card_def Let_def split: option.split prod.split)

interpretation asking: locked_section "ask_card handle" for handle
  by unfold_locales (auto simp: ask_card_def Let_def split: option.split)

interpretation attribute: locked_section "card_attribute handle attr" for handle attr
  by unfold_locales (auto simp: card_attribute_def Let_def split: option.split)

interpretation closing: locked_section "\<lambda>s. ((), close_card handle disposition s)" for handle disposition
  by unfold_locales (auto simp: close_card_def Let_def split: option.split)

interpretation dumping: locked_section "\<lambda>s. (encodeStatesLocked s, s)"
  by unfold_locales (auto simp: encodeStatesLocked_def)

interpretation nothing: locked_section "\<lambda>s. ((), s)"
  by unfold_locales simp

definition registered :: "nat \<Rightarrow> Server \<Rightarrow> Server" where
  "registered c s = s\<lparr>sv_waiters := insert c (sv_waiters s)\<rparr>"

definition unregistered :: "nat \<Rightarrow> Server \<Rightarrow> Server" where
  "unregistered c s = s\<lparr>sv_waiters := sv_waiters s - {c}\<rparr>"

interpretation registering: locked_section "\<lambda>s. (encodeStatesLocked s, registered c s)" for c
  by unfold_locales (auto simp: encodeStatesLocked_def registered_def)

section \<open>The two codecs\<close>

lemma codes_agree:
  "cmdVersion = daemon_version" "cmdEstablishContext = daemon_establish" "cmdReleaseContext = daemon_release"
  "cmdConnect = daemon_connect" "cmdDisconnect = daemon_disconnect" "cmdTransmit = daemon_transmit"
  "cmdGetAttrib = daemon_getAttrib" "cmdGetReadersState = daemon_getReadersState"
  "cmdWaitReaderStateChange = daemon_wait" "cmdStopWaitingReaderStateChange = daemon_stopWaiting"
  by (simp_all add: cmd_defs daemon_cmds)

lemma version_agrees: "daemon_encodeVersion major minor rv = encodeVersion \<lparr>v_major = major, v_minor = minor, v_rv = rv\<rparr>"
  by (simp add: daemon_encodeVersion_def encodeVersion_def Let_def wire_simps)

lemma wait_codec_agrees: "daemon_encodeWait ms rv = encodeWait \<lparr>w_timeoutMS = ms, w_rv = rv\<rparr>"
  by (simp add: daemon_encodeWait_def encodeWait_def Let_def wire_simps)

lemma transmit_head_agrees: "transmit_head handle pci n m rv = encodeTransmit \<lparr>t_card = handle, t_sendPciProto = pci,
    t_sendPciLen = 8, t_sendLength = n, t_recvPciProto = pci, t_recvPciLen = 8, t_recvLength = m, t_rv = rv\<rparr>"
  by (simp add: transmit_head_def encodeTransmit_def Let_def wire_simps)

lemma copy_behind_word: "length src = 4 \<Longrightarrow> copy_at 4 src (replicate 8 0) = put_le32 0 @ src"
  by (simp add: copy_at_def put_le32_def numeral_eq_Suc)

lemma connect_reply_agrees:
  assumes "length (c_reader m) \<le> 128"
  shows "daemon_connect_reply (encodeConnect m) known isPresent handle = Some (encodeConnect (m\<lparr>c_card := handle,
      c_activeProtocol := (if isPresent then daemon_protocolT1 else 0), c_rv := connect_rv known isPresent\<rparr>))"
proof -
  let ?name = "bytes_of (c_reader m) @ replicate (128 - length (c_reader m)) 0"
  have l: "encodeConnect m = (put_le32 (c_context m) @ ?name) @ (put_le32 (c_shareMode m) @
      put_le32 (c_preferredProtocols m)) @ packLE [c_card m, c_activeProtocol m, c_rv m]"
    using assms by (simp add: encodeConnect_layout wire_simps)
  have head: "go_slice 0 132 (encodeConnect m) = Some (put_le32 (c_context m) @ ?name)"
    using assms by (simp add: l go_slice_def)
  have modes: "go_slice 132 140 (encodeConnect m) = Some (put_le32 (c_shareMode m) @ put_le32 (c_preferredProtocols m))"
    using assms by (simp add: l go_slice_def)
  have zeros: "replicate (148 - length (c_reader m)) (0 :: byte)
      = replicate (128 - length (c_reader m)) 0 @ replicate 20 0"
    using assms by (simp add: replicate_add [symmetric])
  have "length (put_le32 (c_context m) @ ?name) = 132" using assms by simp
  then have start: "copy_at 0 (put_le32 (c_context m) @ ?name) (replicate 152 0) = (put_le32 (c_context m) @ ?name) @ replicate 20 0"
    by (simp only: copy_at_zeros) simp
  show ?thesis
    unfolding daemon_connect_reply_def head modes Let_def Option.bind.bind_lunit start
    using assms by (simp add: encodeConnect_layout wire_simps copy_behind_word)
qed

lemma attribute_reply_agrees:
  "length (case v of Some v \<Rightarrow> v | None \<Rightarrow> []) \<le> 264 \<Longrightarrow> attribute_reply handle attr (known, v) = encodeGetset \<lparr>g_card = handle, g_attrID = attr,
     g_attr = (case v of Some v \<Rightarrow> v | None \<Rightarrow> []), g_attrLen = word_of_nat (length (case v of Some v \<Rightarrow> v | None \<Rightarrow> [])),
     g_rv = attribute_rv (known, v)\<rparr>"
  by (simp add: attribute_reply_def encodeGetset_def Let_def daemon_maxAttr_def maxAttrSize_def)

section \<open>The operations agree\<close>

lemma name_bytes: "CHR 0x00 \<notin> set reader \<Longrightarrow> 0 \<notin> set (bytes_of reader)"
  by (auto simp: bytes_of_def zero_byte_char)

lemma daemon_reads_name:
  assumes "length (c_reader m) \<le> 128" "CHR 0x00 \<notin> set (c_reader m)"
  shows "\<exists>b. go_slice 4 132 (encodeConnect m) = Some b \<and> daemon_cString b = c_reader m"
proof -
  let ?b = "bytes_of (c_reader m) @ replicate (128 - length (c_reader m)) 0"
  have "go_slice 4 132 (encodeConnect m) = Some ?b"
    using assms(1) by (simp add: encodeConnect_layout go_slice_def)
  moreover have "takeWhile (\<lambda>x. x \<noteq> 0) ?b = bytes_of (c_reader m)"
    using name_bytes [OF assms(2)] by (cases "128 - length (c_reader m)") (auto simp: takeWhile_append takeWhile_eq_all_conv)
  ultimately show ?thesis by (auto simp: daemon_cString_def)
qed

lemma connect_agrees:
  assumes "idle c (lb_server w)" "length reader < 128" "CHR 0x00 \<notin> set reader"
  shows "connect (lab_net c) cl reader preferred w =
    (case open_card reader (lb_server w) of ((known, isPresent, handle), s) \<Rightarrow>
       (if known \<and> isPresent then Inr \<lparr>ca_handle = handle, ca_protocol = ProtocolT1\<rparr>
        else Inl (Code (connect_rv known isPresent)), w\<lparr>lb_server := s\<rparr>))"
proof -
  define m where "m = \<lparr>c_context = cl_context cl, c_reader = reader, c_shareMode = ShareShared,
    c_preferredProtocols = preferred, c_card = 0, c_activeProtocol = 0, c_rv = 0\<rparr>"
  have m: "c_reader m = reader" "length (c_reader m) \<le> 128" "CHR 0x00 \<notin> set (c_reader m)"
    using assms by (simp_all add: m_def)
  define reply where "reply = (\<lambda>(known, isPresent, handle). encodeConnect (m\<lparr>c_card := handle,
      c_activeProtocol := (if isPresent then daemon_protocolT1 else 0), c_rv := connect_rv known isPresent\<rparr>))"
  have len: "length (encodeConnect m) = 152" "length (reply found) = 152" for found
    using m by (simp_all add: reply_def length_encodeConnect split: prod.split)
  have dsp: "dispatch c cmdConnect (encodeConnect m) [] s = (case open_card reader s of (found, s) \<Rightarrow>
      served [] (Some (conn_write c (reply found) s)))" for s
    using daemon_reads_name [OF m(2,3)] connect_reply_agrees [OF m(2)] len(1) m(1)
    by (auto simp: dispatch_def codes_agree daemon_cmds serve_connect_def reply_def split: prod.split)
  obtain known isPresent handle s where o: "open_card reader (lb_server w) = ((known, isPresent, handle), s)"
    by (metis surj_pair)
  then have present: "isPresent \<Longrightarrow> known" by (auto simp: open_card_def Let_def split: option.splits prod.splits if_splits)
  have "exchange (lab_net c) cmdConnect (encodeConnect m) 152 w = (Inr (reply (known, isPresent, handle)), w\<lparr>lb_server := s\<rparr>)"
    using opened.answers [OF assms(1) _ dsp len(2)] len(1) o by simp
  moreover have "decodeConnect (reply (known, isPresent, handle)) = Some (m\<lparr>c_card := handle,
      c_activeProtocol := (if isPresent then daemon_protocolT1 else 0), c_rv := connect_rv known isPresent\<rparr>)"
    unfolding reply_def prod.case by (rule decode_encode_Connect) (use m name_bytes in simp_all)
  ultimately show ?thesis using assms(2) present
    by (auto simp: connect_def m_def [symmetric] maxReaderName_def decoded_def o connect_rv_def daemon_errs
        daemon_protocolT1_def ProtocolT1_def)
qed

lemma disconnect_agrees:
  assumes "idle c (lb_server w)"
  shows "disconnect (lab_net c) crd disposition w =
    (None, w\<lparr>lb_server := close_card (ca_handle crd) disposition (lb_server w)\<rparr>)"
proof -
  let ?m = "\<lparr>d_card = ca_handle crd, d_disposition = disposition, d_rv = 0\<rparr>"
  have dsp: "dispatch c cmdDisconnect (encodeDisconnect ?m) [] s = (case ((), close_card (ca_handle crd) disposition s) of
      (found, s) \<Rightarrow> served [] (Some (conn_write c (encodeDisconnect ?m) s)))" for s
    by (simp add: dispatch_def codes_agree daemon_cmds serve_disconnect_def disconnect_codec.enc_size)
      (simp add: encodeDisconnect_def wire_simps)
  show ?thesis
    using closing.answers [OF assms _ dsp disconnect_codec.enc_size]
    by (simp add: disconnect_def disconnect_codec.enc_size decoded_def disconnect_codec.dec_enc)
qed

lemma getAttrib_agrees:
  assumes "idle c (lb_server w)"
    and "\<And>v. snd (fst (card_attribute (ca_handle crd) attr (lb_server w))) = Some v \<Longrightarrow> length v \<le> 264"
  shows "getAttrib (lab_net c) crd attr w =
    (case card_attribute (ca_handle crd) attr (lb_server w) of ((known, v), s) \<Rightarrow>
       (case v of None \<Rightarrow> Inl (Code (attribute_rv (known, v))) | Some v \<Rightarrow> Inr v, w\<lparr>lb_server := s\<rparr>))"
proof -
  let ?handle = "ca_handle crd"
  define m where "m = \<lparr>g_card = ?handle, g_attrID = attr, g_attr = [], g_attrLen = word_of_nat maxAttrSize, g_rv = 0\<rparr>"
  obtain known v s where o: "card_attribute ?handle attr (lb_server w) = ((known, v), s)" by (metis surj_pair)
  define val where "val = (case v of Some v \<Rightarrow> v | None \<Rightarrow> [])"
  have short: "length val \<le> 264" using assms(2) o by (simp add: val_def split: option.split)
  have known: "v \<noteq> None \<Longrightarrow> known" using o
    by (auto simp: card_attribute_def Let_def split: option.splits if_splits)
  have len: "length (encodeGetset m) = 280" by (simp add: m_def length_encodeGetset)
  have fields: "le32_at 0 (encodeGetset m) = Some ?handle" "le32_at 4 (encodeGetset m) = Some attr"
    by (simp_all add: m_def encodeGetset_layout wire_simps)
  have dsp: "dispatch c cmdGetAttrib (encodeGetset m) [] s = (case card_attribute ?handle attr s of (found, s) \<Rightarrow>
      served [] (Some (conn_write c (attribute_reply ?handle attr found) s)))" for s
    using len by (simp add: dispatch_def codes_agree daemon_cmds serve_getAttrib_def fields daemon_maxAttr_def split: prod.split)
  have reply: "attribute_reply ?handle attr (known, v) = encodeGetset \<lparr>g_card = ?handle, g_attrID = attr,
      g_attr = val, g_attrLen = word_of_nat (length val), g_rv = attribute_rv (known, v)\<rparr>"
    using attribute_reply_agrees [of v] short by (simp add: val_def)
  have "decodeGetset (attribute_reply ?handle attr (known, v)) = Some \<lparr>g_card = ?handle, g_attrID = attr,
      g_attr = val, g_attrLen = word_of_nat (length val), g_rv = attribute_rv (known, v)\<rparr>"
    unfolding reply by (rule decode_encode_Getset) (use short in \<open>simp_all add: unat_of_nat take_bit_nat_eq_self\<close>)
  moreover have "exchange (lab_net c) cmdGetAttrib (encodeGetset m) 280 w =
      (Inr (attribute_reply ?handle attr (known, v)), w\<lparr>lb_server := s\<rparr>)"
    using attribute.answers [OF assms(1) _ dsp] len short by (simp add: o reply length_encodeGetset)
  moreover have "getAttrib (lab_net c) crd attr w = (case exchange (lab_net c) cmdGetAttrib (encodeGetset m) 280 w of
      (Inl e, w) \<Rightarrow> (Inl e, w) | (Inr body, w) \<Rightarrow> (decoded decodeGetset g_rv (\<lambda>resp. Inr (g_attr resp)) body, w))"
    by (simp add: getAttrib_def m_def maxAttrSize_def)
  ultimately show ?thesis using known
    by (auto simp: decoded_def o val_def attribute_rv_def daemon_errs split: option.splits)
qed

text \<open>A transmit takes two writes, the request and the card command behind it, and two reads.\<close>

lemma serve_transmit_waits:
  assumes "idle c s" "apdu \<noteq> []" "t_sendLength req = word_of_nat (length apdu)" "length apdu < 2 ^ 32"
  shows "client_sends c (message cmdTransmit (encodeTransmit req)) s
    = Some (busy c (message cmdTransmit (encodeTransmit req)) [] s)"
proof -
  have n: "0 < unat (t_sendLength req)"
    using assms by (simp add: unat_of_nat take_bit_nat_eq_self)
  have fields: "le32_at 0 (encodeTransmit req) = Some (t_card req)" "le32_at 4 (encodeTransmit req) = Some (t_sendPciProto req)"
    "le32_at 12 (encodeTransmit req) = Some (t_sendLength req)"
    by (simp_all add: encodeTransmit_def wire_simps)
  have "dispatch c cmdTransmit (encodeTransmit req) [] s = Waits" for s
    using n by (simp add: dispatch_def codes_agree daemon_cmds serve_transmit_def fields transmit_codec.enc_size)
  then show ?thesis
    using readMessage_message [of "encodeTransmit req" cmdTransmit "[]"]
    by (simp add: client_sends_idle [OF assms(1)] serve.simps serve_step_def transmit_codec.enc_size)
qed

lemma transmit_agrees:
  assumes "idle c (lb_server w)" "apdu \<noteq> []" "length apdu < 2 ^ 32"
    and "length (snd (card_answer apdu (fst (ask_card (ca_handle crd) (lb_server w))))) \<le> 264"
  shows "transmit (lab_net c) crd apdu maxResp w =
    (case ask_card (ca_handle crd) (lb_server w) of (found, s) \<Rightarrow>
       (case card_answer apdu found of (rv, resp) \<Rightarrow> if rv \<noteq> 0 then Inl (Code rv) else Inr resp, w\<lparr>lb_server := s\<rparr>))"
proof -
  let ?handle = "ca_handle crd" and ?pci = "ca_protocol crd" and ?n = "word_of_nat (length apdu) :: u32"
  define maxr where "maxr = (if maxResp \<le> 0 \<or> int maxBufferSize < maxResp then int maxBufferSize else maxResp)"
  define req where "req = \<lparr>t_card = ?handle, t_sendPciProto = ?pci, t_sendPciLen = 8, t_sendLength = ?n,
    t_recvPciProto = ?pci, t_recvPciLen = 8, t_recvLength = word_of_int maxr, t_rv = 0\<rparr>"
  obtain found s where a: "ask_card ?handle (lb_server w) = (found, s)" by (metis surj_pair)
  obtain rv resp where ans: "card_answer apdu found = (rv, resp)" by (metis surj_pair)
  have idle: "idle c s" using asking.keeps_idle [OF assms(1), of ?handle] by (simp add: a)
  have resp: "length resp \<le> 264" "rv \<noteq> 0 \<Longrightarrow> resp = []"
    using assms(4) ans by (auto simp: a card_answer_def split: prod.splits if_splits)
  let ?head = "transmit_head ?handle ?pci ?n (word_of_nat (length resp)) rv"
  have head: "decodeTransmit ?head = Some \<lparr>t_card = ?handle, t_sendPciProto = ?pci, t_sendPciLen = 8, t_sendLength = ?n,
      t_recvPciProto = ?pci, t_recvPciLen = 8, t_recvLength = word_of_nat (length resp), t_rv = rv\<rparr>" "length ?head = 32"
    by (simp_all add: transmit_head_agrees transmit_codec.dec_enc transmit_codec.enc_size)
  have n: "unat ?n = length apdu" using assms(3) by (simp add: unat_of_nat take_bit_nat_eq_self)
  have fields: "le32_at 0 (encodeTransmit req) = Some ?handle" "le32_at 4 (encodeTransmit req) = Some ?pci"
    "le32_at 12 (encodeTransmit req) = Some ?n"
    by (simp_all add: encodeTransmit_def req_def wire_simps)
  let ?msg = "message cmdTransmit (encodeTransmit req)"
  have "ask_card ?handle (busy c (?msg @ apdu) [] (lb_server w)) = (found, busy c (?msg @ apdu) [] s)"
    using asking.frame [of ?handle] asking.keeps_links [of ?handle "lb_server w"] by (simp add: a)
  then have "dispatch c cmdTransmit (encodeTransmit req) apdu (busy c (?msg @ apdu) [] (lb_server w))
      = Served True (busy c (?msg @ apdu) (?head @ resp) s) []"
    by (auto simp: dispatch_def codes_agree daemon_cmds serve_transmit_def fields transmit_codec.enc_size n ans conn_write_def Let_def)
  from serve_request [OF _ this]
  have two: "serve c (busy c (?msg @ apdu) [] (lb_server w)) = Some (busy c [] (?head @ resp) s)"
    by (simp add: transmit_codec.enc_size serve_idle)
  have one: "client_sends c ?msg (lb_server w) = Some (busy c ?msg [] (lb_server w))"
    by (rule serve_transmit_waits) (use assms in \<open>simp_all add: req_def\<close>)
  have small: "\<not> (264 :: u32) < word_of_nat (length resp)" "unat (word_of_nat (length resp) :: u32) = length resp"
    using resp(1) by (simp_all add: not_less word_le_nat_alt unat_of_nat take_bit_nat_eq_self)
  note rd = lab_read_ready [where n = 32 and out = ?head and later = resp and c = c and s = s]
    lab_read_ready [where n = "length resp" and out = resp and later = "[]" and c = c and s = s]
  show ?thesis
    unfolding transmit_def Let_def maxr_def [symmetric] req_def [symmetric]
    using assms(1,2) two one rd idle_busy [OF idle] head resp(2) small
    by (simp add: lab_ops client_sends_def idle_def a ans maxBufferSize_def)
qed

section \<open>Dialing\<close>

text \<open>A connection in the negotiation.\<close>

abbreviation greeted :: "nat \<Rightarrow> byte list \<Rightarrow> byte list \<Rightarrow> phase \<Rightarrow> Server \<Rightarrow> Server" where
  "greeted c b out ph s \<equiv> s\<lparr>sv_links := (sv_links s)(c := \<lparr>ln_in = b, ln_out = out, ln_phase = ph\<rparr>)\<rparr>"

definition accepts :: "u32 \<Rightarrow> u32 \<Rightarrow> u32 \<Rightarrow> bool" where
  "accepts offered major minor \<longleftrightarrow> major = 4 \<and> minor = offered \<or> offered = 5 \<and> minor = 4"

lemma negotiate_once:
  assumes "sv_links s c = \<lparr>ln_in = [], ln_out = [], ln_phase = Negotiating\<rparr>"
  shows "client_sends c (message cmdVersion (encodeVersion \<lparr>v_major = major, v_minor = minor, v_rv = 0\<rparr>)) s =
    Some (greeted c [] (encodeVersion \<lparr>v_major = 4, v_minor = sv_OfferedMinor s,
        v_rv = (if accepts (sv_OfferedMinor s) major minor then 0 else daemon_errServiceStopped)\<rparr>)
      (if accepts (sv_OfferedMinor s) major minor then Serving else Negotiating) s)"
proof -
  let ?m = "\<lparr>v_major = major, v_minor = minor, v_rv = 0\<rparr>"
  have d: "daemon_decodeVersion (encodeVersion ?m) = Some (major, minor, 0)"
    by (simp add: daemon_decodeVersion_def encodeVersion_def wire_simps)
  have "serve_step c (greeted c (message cmdVersion (encodeVersion ?m)) [] Negotiating s) =
     Stepped (greeted c [] (encodeVersion \<lparr>v_major = 4, v_minor = sv_OfferedMinor s,
        v_rv = (if accepts (sv_OfferedMinor s) major minor then 0 else daemon_errServiceStopped)\<rparr>)
      (if accepts (sv_OfferedMinor s) major minor then Serving else Negotiating) s)"
    using readMessage_message [of "encodeVersion ?m" cmdVersion "[]"]
    by (simp add: serve_step_def version_codec.enc_size negotiate_def codes_agree d conn_write_def version_agrees accepts_def Let_def)
  moreover have "client_sends c (message cmdVersion (encodeVersion ?m)) s
      = serve c (greeted c (message cmdVersion (encodeVersion ?m)) [] Negotiating s)"
    by (simp add: client_sends_def assms)
  ultimately show ?thesis by (simp add: serve.simps [of c "greeted c _ _ Negotiating s"] serve_idle)
qed

lemma lab_read_greeted:
  "n = length out \<Longrightarrow> lab_read c n (greeted c [] out ph s) script = (Inr out, greeted c [] [] ph s, script)"
  by (subst lab_read.simps) simp

lemma negotiation_agrees:
  assumes "sv_links (lb_server w) c = \<lparr>ln_in = [], ln_out = [], ln_phase = Negotiating\<rparr>"
    and "2 \<le> sv_OfferedMinor (lb_server w)"
  shows "handshake (lab_net c) w =
    (Inr (4, sv_OfferedMinor (lb_server w)), w\<lparr>lb_server := busy c [] [] (lb_server w)\<rparr>)"
proof -
  let ?s = "lb_server w" and ?n = "sv_OfferedMinor (lb_server w)"
  have same: "greeted c [] [] Negotiating ?s = ?s" using assms(1) by (cases ?s) (simp add: fun_upd_idem)
  have try1: "handshake_from (Suc n) (lab_net c) major minor w =
      (if accepts ?n major minor then (Inr (4, ?n), w\<lparr>lb_server := busy c [] [] ?s\<rparr>)
       else handshake_from n (lab_net c) 4 ?n w)" for n major minor
    using negotiate_once [OF assms(1), of major minor] assms same
      lab_read_greeted [where n = 12 and c = c and s = ?s and script = "lb_script w" and ph = Negotiating]
      lab_read_greeted [where n = 12 and c = c and s = ?s and script = "lb_script w" and ph = Serving]
    by (cases "accepts ?n major minor")
      (simp_all add: lab_ops version_codec.enc_size version_codec.dec_enc protocolVersionMajor_def
        protocolVersionMinorBackward_def daemon_errs err_defs)
  show ?thesis
    using assms(2)
    by (simp add: handshake_def numeral_2_eq_2 try1 protocolVersionMajor_def protocolVersionMinor_def
        del: handshake_from.simps)
      (simp add: accepts_def)
qed

lemma establish_agrees:
  assumes "idle c (lb_server w)"
  shows "establish (lab_net c) w = (Inr 1, w)"
proof -
  let ?m = "\<lparr>e_scope = ScopeUser, e_context = 0, e_rv = 0\<rparr>"
  let ?r = "\<lparr>e_scope = ScopeUser, e_context = 1, e_rv = 0\<rparr>"
  have scope: "go_slice 0 4 (encodeEstablish ?m) = Some (put_le32 ScopeUser)"
    by (simp add: encodeEstablish_def wire_simps go_slice_def)
  have reply: "copy_at 4 (put_le32 1) (copy_at 0 (put_le32 ScopeUser) (replicate 12 0)) = encodeEstablish ?r"
    by (simp add: encodeEstablish_def wire_simps copy_at_def) (simp add: put_le32_def numeral_eq_Suc)
  have dsp: "dispatch c cmdEstablishContext (encodeEstablish ?m) [] s = (case ((), s) of
      (found, s) \<Rightarrow> served [] (Some (conn_write c (encodeEstablish ?r) s)))" for s
    by (simp add: dispatch_def codes_agree daemon_cmds serve_establish_def establish_codec.enc_size scope reply Let_def)
  show ?thesis
    using nothing.answers [OF assms _ dsp establish_codec.enc_size]
    by (simp add: establish_def establish_codec.enc_size decoded_def establish_codec.dec_enc)
qed

text \<open>C18. Dialing the daemon's socket gives a client of the newest protocol version both sides speak, whatever
  minor version from 2 on the daemon offers, on a connection with no byte left in either direction; the
  daemon has a new connection and is otherwise unchanged.\<close>

theorem dial_agrees:
  assumes "sv_path (lb_server w) \<noteq> []" "\<not> sv_closed (lb_server w)" "2 \<le> sv_OfferedMinor (lb_server w)"
  shows "\<exists>s. dialIPC (lab_net c) env (sv_path (lb_server w)) w =
      (Inr \<lparr>cl_context = 1, cl_major = 4, cl_minor = sv_OfferedMinor (lb_server w)\<rparr>, w\<lparr>lb_server := s\<rparr>)
    \<and> idle c s \<and> s = (lb_server w)\<lparr>sv_conns := sv_conns s, sv_links := sv_links s\<rparr>"
proof -
  let ?s = "accept c (lb_server w)"
  have s: "sv_links ?s c = \<lparr>ln_in = [], ln_out = [], ln_phase = Negotiating\<rparr>" "sv_OfferedMinor ?s = sv_OfferedMinor (lb_server w)"
    using assms(2) by (simp_all add: accept_def accept_register_def)
  have "handshake (lab_net c) (w\<lparr>lb_server := ?s\<rparr>) = (Inr (4, sv_OfferedMinor ?s), w\<lparr>lb_server := busy c [] [] ?s\<rparr>)"
    using negotiation_agrees [of "w\<lparr>lb_server := ?s\<rparr>" c] s assms(3) by simp
  moreover have "establish (lab_net c) (w\<lparr>lb_server := busy c [] [] ?s\<rparr>) = (Inr 1, w\<lparr>lb_server := busy c [] [] ?s\<rparr>)"
    by (rule establish_agrees) (simp add: idle_def)
  ultimately have "dialIPC (lab_net c) env (sv_path (lb_server w)) w =
      (Inr \<lparr>cl_context = 1, cl_major = 4, cl_minor = sv_OfferedMinor (lb_server w)\<rparr>,
       w\<lparr>lb_server := busy c [] [] ?s\<rparr>)"
    using assms by (simp add: dialIPC_def socketCandidates_def lab_ops s)
  then show ?thesis by (auto simp: idle_def accept_def accept_register_def)
qed

section \<open>Waiting\<close>

lemma length_copy_into: "off \<le> length buf \<Longrightarrow> length (copy_at off src buf) = length buf"
  by (auto simp: copy_at_def min_def)

lemma length_encodeReaderStateInto:
  "off + 184 \<le> length buf \<Longrightarrow> length (encodeReaderStateInto off name r buf) = length buf"
  by (simp add: encodeReaderStateInto_def Let_def length_copy_into)

lemma length_states: "length (encodeStatesLocked s) = 2944"
proof -
  have "length (fold (\<lambda>(i, name) buf. case map_of (sv_readers s) name of
             Some r \<Rightarrow> encodeReaderStateInto (i * daemon_stateSize) name r buf | None \<Rightarrow> buf)
       (enumerate k names) buf) = 2944"
    if "k + length names \<le> 16" "length buf = 2944" for k names buf
    using that
  proof (induction names arbitrary: k buf)
    case (Cons name names)
    then show ?case
      by (auto simp: daemon_sizes length_encodeReaderStateInto split: option.split)
  qed simp
  then show ?thesis by (simp add: encodeStatesLocked_def daemon_sizes)
qed

text \<open>Every card event changes the readers and then wakes the waiting connections.\<close>

definition changed :: "card_action \<Rightarrow> Server \<Rightarrow> (string \<times> Reader) list" where
  "changed a s = sv_readers (act a s)"

lemma act_wakes: "act a s = wakeWaiters (s\<lparr>sv_readers := changed a s\<rparr>)"
  by (cases a; cases s) (auto simp: changed_def InsertCard_def RemoveCard_def wakeWaiters_def Let_def conn_write_def
      split: option.split)

lemma changed_waiters: "changed a (s\<lparr>sv_waiters := ws\<rparr>) = changed a s"
  by (cases a) (auto simp: changed_def InsertCard_def RemoveCard_def wakeWaiters_def Let_def split: option.split)

lemma wakeWaiters_links:
  "sv_links (wakeWaiters s) c = (if c \<in> sv_waiters s \<and> ln_phase (sv_links s c) \<noteq> Gone
     then (sv_links s c)\<lparr>ln_out := ln_out (sv_links s c) @ daemon_encodeWait 0 0\<rparr> else sv_links s c)"
  by (simp add: wakeWaiters_def Let_def conn_write_def)

lemma wakeWaiters_state: "wakeWaiters s = s\<lparr>sv_waiters := {}, sv_links := sv_links (wakeWaiters s)\<rparr>"
  by (simp add: wakeWaiters_def Let_def)

lemma act_signals:
  assumes "idle c s"
  shows "act a (registered c s) = busy c [] (encodeWait \<lparr>w_timeoutMS = 0, w_rv = 0\<rparr>) (act a (unregistered c s))"
proof -
  let ?on = "s\<lparr>sv_waiters := insert c (sv_waiters s), sv_readers := changed a s\<rparr>"
  let ?off = "s\<lparr>sv_waiters := sv_waiters s - {c}, sv_readers := changed a s\<rparr>"
  obtain Lon Loff where on: "wakeWaiters ?on = ?on\<lparr>sv_waiters := {}, sv_links := Lon\<rparr>" "sv_links (wakeWaiters ?on) = Lon"
    and off: "wakeWaiters ?off = ?off\<lparr>sv_waiters := {}, sv_links := Loff\<rparr>" "sv_links (wakeWaiters ?off) = Loff"
    using wakeWaiters_state by blast
  have "sv_links (wakeWaiters ?on) = (sv_links (wakeWaiters ?off))
      (c := \<lparr>ln_in = [], ln_out = encodeWait \<lparr>w_timeoutMS = 0, w_rv = 0\<rparr>, ln_phase = Serving\<rparr>)"
    using assms by (auto simp: fun_eq_iff wakeWaiters_links idle_def wait_codec_agrees)
  then have "Lon = Loff(c := \<lparr>ln_in = [], ln_out = encodeWait \<lparr>w_timeoutMS = 0, w_rv = 0\<rparr>, ln_phase = Serving\<rparr>)"
    by (simp only: on(2) off(2))
  then have "wakeWaiters ?on = busy c [] (encodeWait \<lparr>w_timeoutMS = 0, w_rv = 0\<rparr>) (wakeWaiters ?off)"
    by (simp add: on(1) off(1))
  then show ?thesis
    by (simp add: act_wakes [of a] registered_def unregistered_def changed_waiters)
qed

lemma act_idle: "idle c s \<Longrightarrow> idle c (act a (unregistered c s))"
  by (simp add: act_wakes [of a] wakeWaiters_def Let_def unregistered_def idle_def)

lemma wait_signal:
  assumes "idle c s"
  shows "lab_read c 8 (registered c s) script =
    (case script of
       [] \<Rightarrow> (Inl NetTimeout, registered c s, [])
     | a # script \<Rightarrow> (Inr (encodeWait \<lparr>w_timeoutMS = 0, w_rv = 0\<rparr>), act a (unregistered c s), script))"
proof (cases script)
  case Nil
  then show ?thesis using assms
    by (subst lab_read.simps) (simp add: idle_def registered_def fun_upd_idem_iff)
next
  case (Cons a as)
  have "lab_read c 8 (registered c s) (a # as) = lab_read c 8 (act a (registered c s)) as"
    using assms by (subst lab_read.simps) (simp add: idle_def registered_def)
  also have "\<dots> = (Inr (encodeWait \<lparr>w_timeoutMS = 0, w_rv = 0\<rparr>), act a (unregistered c s), as)"
    using lab_read_ready [where n = 8 and out = "encodeWait \<lparr>w_timeoutMS = 0, w_rv = 0\<rparr>" and later = "[]"
        and c = c and s = "act a (unregistered c s)" and script = as] idle_busy [OF act_idle [OF assms]]
    by (simp add: act_signals [OF assms] wait_codec.enc_size)
  finally show ?thesis by (simp add: Cons)
qed

text \<open>The withdrawal of a registration is answered, and leaves no byte on the connection.\<close>

lemma stop_waiting_agrees:
  assumes "idle c (lb_server w)" "sv_OfferedMinor (lb_server w) < 4 \<longrightarrow> length body = 8" "length body \<le> 8"
  shows "stop_waiting (lab_net c) body (w\<lparr>lb_server := registered c (lb_server w)\<rparr>) =
    (Some ErrTimeout, w\<lparr>lb_server := unregistered c (lb_server w)\<rparr>)"
proof -
  let ?s = "lb_server w" and ?answer = "encodeWait \<lparr>w_timeoutMS = 0, w_rv = 0\<rparr>"
  let ?msg = "message cmdStopWaitingReaderStateChange body"
  have idle: "idle c (registered c ?s)" using assms(1) by (simp add: registered_def idle_def)
  have "dispatch c cmdStopWaitingReaderStateChange body [] (busy c ?msg [] (registered c ?s))
      = Served True (busy c ?msg ?answer (unregistered c ?s)) []"
    using assms(2) by (simp add: dispatch_def codes_agree daemon_cmds unregister_def registered_def unregistered_def
        served_def conn_write_def wait_codec_agrees)
  from serve_request_alone [OF _ this] assms(3)
  have "client_sends c ?msg (registered c ?s) = Some (busy c [] ?answer (unregistered c ?s))"
    by (simp add: client_sends_idle [OF idle] serve_idle)
  moreover have "idle c (unregistered c ?s)" using assms(1) by (simp add: unregistered_def idle_def)
  ultimately show ?thesis
    using idle lab_read_ready [where n = 8 and out = ?answer and later = "[]" and c = c and s = "unregistered c ?s"]
    by (simp add: stop_waiting_def lab_ops idle_busy wait_codec.enc_size wait_result_def wait_codec.dec_enc)
      (simp add: idle_def)
qed

lemma states_waiters: "encodeStatesLocked (s\<lparr>sv_waiters := ws\<rparr>) = encodeStatesLocked s"
  by (simp add: encodeStatesLocked_def)

lemma states_links: "encodeStatesLocked (s\<lparr>sv_links := L\<rparr>) = encodeStatesLocked s"
  by (simp add: encodeStatesLocked_def)

lemma script_over: "lb_script w = [] \<Longrightarrow> \<lparr>lb_server = s, lb_script = []\<rparr> = w\<lparr>lb_server := s\<rparr>"
  by (cases w) simp

lemma unregistered_again: "c \<notin> sv_waiters s \<Longrightarrow> unregistered c s = s"
  by (cases s) (simp add: unregistered_def)

lemma waitChangeNew_agrees:
  assumes "idle c (lb_server w)" "c \<notin> sv_waiters (lb_server w)" "4 \<le> sv_OfferedMinor (lb_server w)"
  shows "waitChangeNew (lab_net c) timeout w =
    (case lb_script w of
       [] \<Rightarrow> (Some ErrTimeout, w)
     | a # script \<Rightarrow> (None, \<lparr>lb_server = act a (lb_server w), lb_script = script\<rparr>))"
proof -
  let ?s = "lb_server w" and ?dump = "encodeStatesLocked (lb_server w)"
  have idle: "idle c (registered c ?s)" using assms(1) by (simp add: registered_def idle_def)
  have dsp: "dispatch c cmdWaitReaderStateChange [] [] s = (case (encodeStatesLocked s, registered c s) of
      (found, s) \<Rightarrow> served [] (Some (conn_write c found s)))" if "4 \<le> sv_OfferedMinor s" for s
    using leD [OF that] by (simp add: dispatch_def codes_agree daemon_cmds registerAndDump_def registered_def Let_def
        states_waiters)
  let ?msg = "message cmdWaitReaderStateChange []"
  have "dispatch c cmdWaitReaderStateChange [] [] (busy c ?msg [] ?s) = Served True (busy c ?msg ?dump (registered c ?s)) []"
    using assms(3) by (simp add: dsp served_def conn_write_def states_links registered_def)
  from serve_request_alone [OF _ this]
  have "client_sends c ?msg ?s = Some (busy c [] ?dump (registered c ?s))"
    by (simp add: client_sends_idle [OF assms(1)] serve_idle)
  then show ?thesis
    using assms(1,2) idle_busy [OF idle] wait_signal [OF assms(1)] stop_waiting_agrees [OF assms(1), of "[]"] assms(3)
      lab_read_ready [where n = 2944 and out = ?dump and later = "[]" and c = c and s = "registered c ?s"]
    by (cases "lb_script w")
      (simp_all add: waitChangeNew_def lab_ops length_states maxReaders_def readerStateWireSz_def unregistered_again
        wait_result_def wait_codec.dec_enc isNetTimeout_def idle_def script_over)
qed

lemma waitChangeOld_agrees:
  assumes "idle c (lb_server w)" "c \<notin> sv_waiters (lb_server w)" "sv_OfferedMinor (lb_server w) < 4"
  shows "waitChangeOld (lab_net c) timeout w =
    (case lb_script w of
       [] \<Rightarrow> (Some ErrTimeout, w)
     | a # script \<Rightarrow> (None, \<lparr>lb_server = act a (lb_server w), lb_script = script\<rparr>))"
proof -
  let ?s = "lb_server w"
  define req where "req = encodeWait \<lparr>w_timeoutMS = (let ms = (word_of_int (timeout sdiv 1000000) :: u32) in
    if ms = 0 then 1 else ms), w_rv = 0\<rparr>"
  have req: "length req = 8" by (simp add: req_def wait_codec.enc_size)
  have idle: "idle c (registered c ?s)" using assms(1) by (simp add: registered_def idle_def)
  let ?msg = "message cmdWaitReaderStateChange req"
  have "dispatch c cmdWaitReaderStateChange req [] (busy c ?msg [] ?s) = Served True (busy c ?msg [] (registered c ?s)) []"
    using assms(3) req by (simp add: dispatch_def codes_agree daemon_cmds register_def registered_def)
  from serve_request_alone [OF _ this] req
  have "client_sends c ?msg ?s = Some (busy c [] [] (registered c ?s))"
    by (simp add: client_sends_idle [OF assms(1)] serve_idle)
  then show ?thesis
    using assms(1,2) idle_busy [OF idle] wait_signal [OF assms(1)] stop_waiting_agrees [OF assms(1), of req] req
    by (cases "lb_script w")
      (simp_all add: waitChangeOld_def Let_def lab_ops unregistered_again req_def [unfolded Let_def, symmetric]
        wait_result_def wait_codec.dec_enc isNetTimeout_def idle_def script_over)
qed

text \<open>C24. With either protocol, a wait ends with the first card event, or with a timeout when none comes;
  the daemon and the connection are then as if the client had not waited: no registration is left, no
  byte is unread.\<close>

theorem wait_agrees:
  assumes "idle c (lb_server w)" "c \<notin> sv_waiters (lb_server w)" "cl_minor cl = sv_OfferedMinor (lb_server w)"
  shows "waitChange (lab_net c) cl timeout w =
    (case lb_script w of
       [] \<Rightarrow> (Some ErrTimeout, w)
     | a # script \<Rightarrow> (None, \<lparr>lb_server = act a (lb_server w), lb_script = script\<rparr>))"
  using waitChangeNew_agrees [OF assms(1,2)] waitChangeOld_agrees [OF assms(1,2)] assms(3)
  by (simp add: waitChange_def not_le)

section \<open>The reader states\<close>

text \<open>What one reader looks like to the client.\<close>

definition reader_view :: "string \<Rightarrow> Reader \<Rightarrow> reader_state" where
  "reader_view name r = \<lparr>rs_reader = name, rs_eventCounter = fr_EventCounter r,
     rs_state = (if fr_Present r then statePresentBits else stateAbsent),
     rs_atr = take 33 (fr_ATR r), rs_protocol = (if fr_Present r then ProtocolT1 else 0)\<rparr>"

definition entry :: "string \<Rightarrow> Reader \<Rightarrow> byte list" where
  "entry name r = (bytes_of name @ replicate (128 - length name) 0) @
     put_le32 (fr_EventCounter r) @ put_le32 (if fr_Present r then statePresentBits else stateAbsent) @ put_le32 0 @
     (take 33 (fr_ATR r) @ replicate (36 - length (take 33 (fr_ATR r))) 0) @
     put_le32 (word_of_nat (length (take 33 (fr_ATR r)))) @ put_le32 (if fr_Present r then ProtocolT1 else 0)"

lemma length_entry: "length name \<le> 128 \<Longrightarrow> length (entry name r) = 184"
  by (simp add: entry_def)

lemma put_zero: "put_le32 0 = replicate 4 0"
  by (simp add: put_le32_def numeral_eq_Suc)

lemma zeros_split: "m \<le> n \<Longrightarrow> replicate n (0 :: byte) = replicate m 0 @ replicate (n - m) 0"
  by (simp add: replicate_add [symmetric])

lemma encode_entry:
  assumes "length name \<le> 128" "off = length pre"
  shows "encodeReaderStateInto off name r (pre @ replicate (184 + k) 0) = pre @ entry name r @ replicate k 0"
proof -
  define atr st pr where fields: "atr = take 33 (fr_ATR r)" "st = (if fr_Present r then statePresentBits else stateAbsent)"
    "pr = (if fr_Present r then ProtocolT1 else 0)"
  have enc: "take (min (length (fr_ATR r)) daemon_maxATR) (fr_ATR r) = atr" "daemon_protocolT1 = ProtocolT1"
    by (simp_all add: fields daemon_maxATR_def min_def daemon_protocolT1_def ProtocolT1_def)
  have len: "length atr \<le> 33" by (simp add: fields)
  have z1: "replicate (184 + k - length name) (0 :: byte) = replicate (128 - length name) 0 @ replicate (56 + k) 0"
    using assms(1) by (simp add: replicate_add [symmetric])
  have z2: "replicate (48 + k) (0 :: byte) = put_le32 0 @ replicate (44 + k) 0"
    unfolding put_zero replicate_add [symmetric] by simp
  have z3: "replicate (44 + k - length atr) (0 :: byte) = replicate (36 - length atr) 0 @ replicate (8 + k) 0"
    using len by (simp add: replicate_add [symmetric])
  show ?thesis
    unfolding encodeReaderStateInto_def enc Let_def entry_def fields [symmetric]
    using assms len by (simp add: wire_simps z1 z2 z3)
qed

lemma decode_entry:
  assumes "length name \<le> 128" "CHR 0x00 \<notin> set name"
  shows "decodeReaderState (entry name r @ rest) = Some (reader_view name r)"
proof -
  define atr st pr where fields: "atr = take 33 (fr_ATR r)" "st = (if fr_Present r then statePresentBits else stateAbsent)"
    "pr = (if fr_Present r then ProtocolT1 else 0)"
  define nm where "nm = bytes_of name @ replicate (128 - length name) 0"
  have nm: "length nm = 128" "cString nm = name"
    using assms name_bytes [of name] by (simp_all add: nm_def cString_padded)
  have len: "length atr \<le> 33" by (simp add: fields)
  then have n: "unat (word_of_nat (length atr) :: u32) = length atr" by (simp add: unat_of_nat take_bit_nat_eq_self)
  show ?thesis
    unfolding entry_def fields [symmetric] reader_view_def nm_def [symmetric]
    using nm len n by (simp add: decodeReaderState_def wire_simps maxATRSize_def)
qed

definition reader_in :: "Server \<Rightarrow> string \<Rightarrow> Reader" where
  "reader_in s name = the (map_of (sv_readers s) name)"

text \<open>The readers that fit in the array, in the order of their names.\<close>

definition listed :: "Server \<Rightarrow> string list" where
  "listed s = take 16 (sort (map fst (sv_readers s)))"

lemma encode_entries:
  assumes "\<forall>name \<in> set names. length name \<le> 128 \<and> map_of (sv_readers s) name \<noteq> None" "length pre = k * 184"
  shows "fold (\<lambda>(i, name) buf. case map_of (sv_readers s) name of
             Some r \<Rightarrow> encodeReaderStateInto (i * daemon_stateSize) name r buf | None \<Rightarrow> buf)
       (enumerate k names) (pre @ replicate (184 * length names + m) 0)
    = pre @ concat (map (\<lambda>name. entry name (reader_in s name)) names) @ replicate m 0"
  using assms
proof (induction names arbitrary: k pre)
  case (Cons name names)
  then obtain r where r: "map_of (sv_readers s) name = Some r" and name: "length name \<le> 128" by auto
  have "encodeReaderStateInto (k * 184) name r (pre @ replicate (184 + (184 * length names + m)) 0)
      = (pre @ entry name r) @ replicate (184 * length names + m) 0"
    using encode_entry [OF name, of "k * 184" pre r] Cons.prems(2) by simp
  moreover have "length (pre @ entry name r) = Suc k * 184" using Cons.prems(2) length_entry [OF name] by simp
  ultimately show ?case
    using Cons.IH [of "pre @ entry name r" "Suc k"] Cons.prems r
    by (simp add: daemon_sizes reader_in_def add.assoc)
qed simp

lemma drop_entries:
  "\<forall>e \<in> set es. length e = 184 \<Longrightarrow> i < length es \<Longrightarrow> \<exists>rest. drop (i * 184) (concat es @ zs) = es ! i @ rest"
proof (induction es arbitrary: i)
  case (Cons e es)
  then show ?case by (cases i) auto
qed simp

lemma decode_zeros: "184 \<le> n \<Longrightarrow> \<exists>st. decodeReaderState (replicate n 0) = Some st \<and> rs_reader st = []"
proof -
  assume n: "184 \<le> n"
  then have "takeWhile (\<lambda>x. x \<noteq> 0) (take 128 (replicate n (0 :: byte))) = []" by (simp add: takeWhile_eq_Nil_iff)
  with decodeReaderState_total [of "replicate n 0"] n show ?thesis
    by (auto simp: cString_def string_of_def)
qed

lemma those_map_Some: "those (map Some xs) = Some xs"
  by (induction xs) simp_all

definition wire_names :: "Server \<Rightarrow> bool" where
  "wire_names s \<longleftrightarrow> (\<forall>name \<in> set (map fst (sv_readers s)). name \<noteq> [] \<and> length name \<le> 128 \<and> CHR 0x00 \<notin> set name)"

lemma decode_states_agrees:
  assumes "wire_names s"
  shows "decode_states (encodeStatesLocked s) = Some (map (\<lambda>name. reader_view name (reader_in s name)) (listed s))"
proof -
  let ?n = "length (listed s)"
  let ?es = "map (\<lambda>name. entry name (reader_in s name)) (listed s)"
  have n: "?n \<le> 16" by (simp add: listed_def)
  have names: "\<forall>name \<in> set (listed s). name \<noteq> [] \<and> length name \<le> 128 \<and> CHR 0x00 \<notin> set name \<and> map_of (sv_readers s) name \<noteq> None"
  proof
    fix name assume "name \<in> set (listed s)"
    then have "name \<in> set (map fst (sv_readers s))" unfolding listed_def by (metis in_set_takeD set_sort)
    with assms show "name \<noteq> [] \<and> length name \<le> 128 \<and> CHR 0x00 \<notin> set name \<and> map_of (sv_readers s) name \<noteq> None"
      by (auto simp: wire_names_def map_of_eq_None_iff)
  qed
  have "16 * 184 = 184 * ?n + 184 * (16 - ?n)" using n by simp
  then have raw: "encodeStatesLocked s = concat ?es @ replicate (184 * (16 - ?n)) 0"
    using encode_entries [of "listed s" s "[]" 0 "184 * (16 - ?n)"] names
    by (simp add: encodeStatesLocked_def daemon_sizes listed_def [symmetric])
  have es: "\<forall>e \<in> set ?es. length e = 184" using names length_entry by auto
  then have total: "length (concat ?es) = 184 * ?n"
    by (simp add: length_concat comp_def sum_list_triv cong: map_cong)
  have used: "decodeReaderState (drop (i * 184) (encodeStatesLocked s)) = Some (reader_view (listed s ! i) (reader_in s (listed s ! i)))"
    if "i < ?n" for i
  proof -
    have "listed s ! i \<in> set (listed s)" using that by simp
    with names have "length (listed s ! i) \<le> 128" "CHR 0x00 \<notin> set (listed s ! i)" by blast+
    then show ?thesis
      using drop_entries [OF es, of i "replicate (184 * (16 - ?n)) 0"] that by (auto simp: raw decode_entry)
  qed
  have "decodeReaderState (drop (i * 184) (encodeStatesLocked s)) = Some (the (decodeReaderState (replicate ((16 - i) * 184) 0)))
      \<and> rs_reader (the (decodeReaderState (replicate ((16 - i) * 184) 0))) = []" if "?n \<le> i" "i < 16" for i
  proof -
    have "drop (i * 184) (encodeStatesLocked s) = replicate ((16 - i) * 184) 0"
      using that by (simp add: raw total algebra_simps diff_mult_distrib2)
    moreover have "184 \<le> (16 - i) * 184" using that by simp
    ultimately show ?thesis using decode_zeros by fastforce
  qed
  note unused = this
  define views where "views = map (\<lambda>name. reader_view name (reader_in s name)) (listed s)
    @ map (\<lambda>i. the (decodeReaderState (replicate ((16 - i) * 184) 0))) [?n..<16]"
  have "map (\<lambda>i. decodeReaderState (drop (i * 184) (encodeStatesLocked s))) [0..<16] = map Some views"
    by (rule nth_equalityI) (use n used unused in \<open>auto simp: views_def nth_append\<close>)
  then have "decode_states (encodeStatesLocked s) = Some (filter (\<lambda>entry. rs_reader entry \<noteq> []) views)"
    by (simp add: decode_states_def readerStateWireSz_def maxReaders_def those_map_Some)
  also have "filter (\<lambda>entry. rs_reader entry \<noteq> []) views = map (\<lambda>name. reader_view name (reader_in s name)) (listed s)"
    unfolding views_def filter_append using names unused
    by (auto simp: reader_view_def filter_id_conv intro!: filter_False)
  finally show ?thesis .
qed

section \<open>Properties\<close>

text \<open>C7. Every card operation of the client, through its request, the daemon's parser, the daemon's answer
  and the client's decoder, is the locked section of the daemon's handler called directly: connecting,
  transmitting, asking for an attribute and disconnecting.\<close>

theorem calls_agree:
  assumes "idle c (lb_server w)"
    and "length reader < 128" and "CHR 0x00 \<notin> set reader"
    and "apdu \<noteq> []" and "length apdu < 2 ^ 32"
    and "length (snd (card_answer apdu (fst (ask_card (ca_handle crd) (lb_server w))))) \<le> 264"
    and "\<forall>v. snd (fst (card_attribute (ca_handle crd) attr (lb_server w))) = Some v \<longrightarrow> length v \<le> 264"
  shows "connect (lab_net c) cl reader preferred w =
      (case open_card reader (lb_server w) of ((known, isPresent, handle), s) \<Rightarrow>
         (if known \<and> isPresent then Inr \<lparr>ca_handle = handle, ca_protocol = ProtocolT1\<rparr>
          else Inl (Code (connect_rv known isPresent)), w\<lparr>lb_server := s\<rparr>))
    \<and> transmit (lab_net c) crd apdu maxResp w =
      (case ask_card (ca_handle crd) (lb_server w) of (found, s) \<Rightarrow>
         (case card_answer apdu found of (rv, resp) \<Rightarrow> if rv \<noteq> 0 then Inl (Code rv) else Inr resp, w\<lparr>lb_server := s\<rparr>))
    \<and> getAttrib (lab_net c) crd attr w =
      (case card_attribute (ca_handle crd) attr (lb_server w) of ((known, v), s) \<Rightarrow>
         (case v of None \<Rightarrow> Inl (Code (attribute_rv (known, v))) | Some v \<Rightarrow> Inr v, w\<lparr>lb_server := s\<rparr>))
    \<and> disconnect (lab_net c) crd disposition w =
      (None, w\<lparr>lb_server := close_card (ca_handle crd) disposition (lb_server w)\<rparr>)"
  using connect_agrees [OF assms(1-3)] transmit_agrees [OF assms(1,4-6)] getAttrib_agrees [OF assms(1)]
    disconnect_agrees [OF assms(1)] assms(7)
  by blast

text \<open>The client sees the readers of the daemon, the first sixteen in the order of their names, with their
  names, counters, states and answers to reset; asking changes nothing.\<close>

theorem readers_seen:
  assumes "idle c (lb_server w)" "wire_names (lb_server w)"
  shows "states (lab_net c) w =
    (Inr (map (\<lambda>name. reader_view name (reader_in (lb_server w) name)) (listed (lb_server w))), w)"
proof -
  have dsp: "dispatch c cmdGetReadersState [] [] s = (case (encodeStatesLocked s, s) of
      (found, s) \<Rightarrow> served [] (Some (conn_write c found s)))" for s
    by (simp add: dispatch_def codes_agree daemon_cmds writeStates_def)
  have "exchange (lab_net c) cmdGetReadersState [] 2944 w = (Inr (encodeStatesLocked (lb_server w)), w)"
    using dumping.answers [OF assms(1) _ dsp] length_states by simp
  then show ?thesis
    using decode_states_agrees [OF assms(2)]
    by (auto simp: exchange_def states_def maxReaders_def readerStateWireSz_def lab_ops split: option.splits sum.splits prod.splits if_splits)
qed

section \<open>Witnesses\<close>

definition lab_uid :: "byte list" where "lab_uid = [0x04, 0xA1, 0xB2, 0xC3]"
definition lab_atr :: "byte list" where "lab_atr = [0x3B, 0x00]"

definition lab_server :: Server where
  "lab_server = (New ''/run/s'')\<lparr>sv_readers := [(''R'', zero_reader\<lparr>fr_ATR := lab_atr, fr_UID := lab_uid,
      fr_Serial := ''S1'', fr_Present := True, fr_EventCounter := 1\<rparr>)],
     sv_cards := [7 \<mapsto> ''R''], sv_handles := 7, sv_conns := {0},
     sv_links := (\<lambda>_. no_link)(0 := \<lparr>ln_in = [], ln_out = [], ln_phase = Serving\<rparr>)\<rparr>"

definition sample_lab :: "card_action list \<Rightarrow> lab" where
  "sample_lab script = \<lparr>lb_server = lab_server, lb_script = script\<rparr>"

lemmas lab_eval = sample_lab_def lab_server_def lab_uid_def lab_atr_def New_def zero_reader_def idle_def wire_names_def
  section_defs activate_def

lemma lab_idle: "idle 0 (lb_server (sample_lab script))"
  by (simp add: lab_eval)

theorem calls_agree_witness:
  "fst (connect (lab_net 0) \<lparr>cl_context = 1, cl_major = 4, cl_minor = 4\<rparr> ''R'' 3 (sample_lab []))
     = Inr \<lparr>ca_handle = 8, ca_protocol = ProtocolT1\<rparr>
   \<and> fst (transmit (lab_net 0) \<lparr>ca_handle = 7, ca_protocol = 2\<rparr> uidAPDU 64 (sample_lab [])) = Inr (lab_uid @ [0x90, 0x00])"
proof -
  obtain s1 s2 s3 where o: "open_card ''R'' lab_server = ((True, True, 8), s1)"
    and a: "ask_card 7 lab_server = ((True, False, False, lab_uid), s2)"
    and v: "card_attribute 7 daemon_serialAttr lab_server = ((True, Some (bytes_of ''S1'')), s3)"
    by (simp add: lab_eval)
  have probe: "card_answer uidAPDU (True, False, False, lab_uid) = (0, lab_uid @ [0x90, 0x00])"
    by (simp add: lab_uid_def card_answer_def uidAPDU_def isUIDProbe_def uidProbeA_def uidProbeB_def)
  have small: "uidAPDU \<noteq> []" "length uidAPDU < 2 ^ 32" "length (lab_uid @ [0x90, 0x00]) \<le> 264"
    "length (bytes_of ''S1'') \<le> 264"
    by (simp_all add: uidAPDU_def lab_uid_def)
  note agree = calls_agree [where c = 0 and w = "sample_lab []" and reader = "''R''" and apdu = uidAPDU
      and crd = "\<lparr>ca_handle = 7, ca_protocol = 2\<rparr>" and attr = daemon_serialAttr and preferred = 3 and maxResp = 64
      and cl = "\<lparr>cl_context = 1, cl_major = 4, cl_minor = 4\<rparr>" and disposition = 0, OF lab_idle _ _ small(1,2)]
  have "lb_server (sample_lab []) = lab_server" by (simp add: sample_lab_def)
  with agree small(3,4) show ?thesis by (simp add: o a v probe)
qed

theorem readers_seen_witness:
  "fst (states (lab_net 0) (sample_lab [])) = Inr [\<lparr>rs_reader = ''R'', rs_eventCounter = 1, rs_state = statePresentBits,
     rs_atr = lab_atr, rs_protocol = ProtocolT1\<rparr>]"
  by (subst readers_seen [OF lab_idle]) (simp_all add: lab_eval listed_def reader_view_def reader_in_def)

theorem wait_agrees_witness:
  "fst (waitChange (lab_net 0) \<lparr>cl_context = 1, cl_major = 4, cl_minor = 4\<rparr> 5000 (sample_lab [])) = Some ErrTimeout
   \<and> fst (waitChange (lab_net 0) \<lparr>cl_context = 1, cl_major = 4, cl_minor = 4\<rparr> 5000 (sample_lab [Removes ''R''])) = None"
  using wait_agrees [OF lab_idle, of "[]" "\<lparr>cl_context = 1, cl_major = 4, cl_minor = 4\<rparr>" 5000]
    wait_agrees [OF lab_idle, of "[Removes ''R'']" "\<lparr>cl_context = 1, cl_major = 4, cl_minor = 4\<rparr>" 5000]
  by (simp add: lab_eval)

theorem dial_agrees_witness:
  "\<exists>s. dialIPC (lab_net 1) [] ''/run/s'' (sample_lab []) =
      (Inr \<lparr>cl_context = 1, cl_major = 4, cl_minor = 4\<rparr>, \<lparr>lb_server = s, lb_script = []\<rparr>) \<and> idle 1 s"
  using dial_agrees [of "sample_lab []" 1 "[]"] by (auto simp: sample_lab_def lab_server_def New_def)

end
