(* ===== verification/Recovery.thy ===== *)
theory Recovery
  imports Agreement
begin

text \<open>
  The composition of \<open>uid.go\<close>, the client of \<open>pcsc/ipc.go\<close> and the daemon: how reading a UID
  recovers from the failures the daemon can show. The card operations are those of theory
  \<open>Agreement\<close>; the lemmas follow one reader of the daemon through the exchanges, the retries on a
  connection, the card reset and the reconnects after it.
\<close>

section \<open>A card held by the client\<close>

abbreviation lab_api :: "nat \<Rightarrow> ipcClient \<Rightarrow> lab card_api" where
  "lab_api c cl \<equiv> client_api (lab_net c) (\<lambda>_ w. w) cl"

text \<open>The reader \<open>name\<close> is in state \<open>r\<close>, and the connection is ready for a request.\<close>

definition reader_is :: "nat \<Rightarrow> string \<Rightarrow> Reader \<Rightarrow> lab \<Rightarrow> bool" where
  "reader_is c name r w \<longleftrightarrow> idle c (lb_server w) \<and> map_of (sv_readers (lb_server w)) name = Some r"

definition holds :: "nat \<Rightarrow> string \<Rightarrow> Reader \<Rightarrow> u32 \<Rightarrow> lab \<Rightarrow> bool" where
  "holds c name r handle w \<longleftrightarrow> reader_is c name r w \<and> sv_cards (lb_server w) handle = Some name"

lemma api_ops:
  "a_connect (lab_api c cl) = connect (lab_net c) cl" "a_transmit (lab_api c cl) = transmit (lab_net c)"
  "a_disconnect (lab_api c cl) = disconnect (lab_net c)" "a_sleep (lab_api c cl) = (\<lambda>_ w. w)"
  by (simp_all add: client_api_def)

text \<open>The failures a reader has in store, as numbers.\<close>

lemma budget_step: "Suc n < 2 ^ 63 \<Longrightarrow> (0 :: i64) <s word_of_nat (Suc n) \<and> word_of_nat (Suc n) - 1 = (word_of_nat n :: i64)"
  by (simp add: word_sless_alt signed_of_nat signed_take_bit_int_eq_self del: of_nat_Suc) simp

lemma budget_over: "\<not> (0 :: i64) <s word_of_nat 0"
  by simp

section \<open>One exchange\<close>

definition asked :: "Reader \<Rightarrow> Reader" where
  "asked r = (if 0 <s fr_FailUIDProbes r then r\<lparr>fr_FailUIDProbes := fr_FailUIDProbes r - 1\<rparr>
     else if fr_StuckUID r then r\<lparr>fr_UIDProbes := fr_UIDProbes r + 1\<rparr> else r)"

definition exchange_result :: "Reader \<Rightarrow> byte list \<times> bool \<times> bool" where
  "exchange_result r = (if 0 <s fr_FailUIDProbes r then ([], False, False)
     else if fr_StuckUID r then ([], False, True) else (fr_UID r, True, False))"

definition good_uid :: "byte list \<Rightarrow> bool" where
  "good_uid uid \<longleftrightarrow> uid \<noteq> [] \<and> length uid \<le> 262 \<and> \<not> isRandomUID uid"

lemma uidExchange_reads:
  assumes "holds c name r (ca_handle crd) w" "good_uid (fr_UID r)"
  shows "\<exists>w'. uidExchange (lab_api c cl) crd w = (exchange_result r, w') \<and> holds c name (asked r) (ca_handle crd) w'"
proof -
  have idle: "idle c (lb_server w)" and r: "map_of (sv_readers (lb_server w)) name = Some r"
    and h: "sv_cards (lb_server w) (ca_handle crd) = Some name"
    using assms(1) by (simp_all add: holds_def reader_is_def)
  obtain found s where a: "ask_card (ca_handle crd) (lb_server w) = (found, s)" by (metis surj_pair)
  have probe: "isUIDProbe uidAPDU" by (simp add: uidAPDU_def isUIDProbe_def uidProbeA_def uidProbeB_def)
  have found: "found = (True, 0 <s fr_FailUIDProbes r, \<not> 0 <s fr_FailUIDProbes r \<and> fr_StuckUID r,
      if 0 <s fr_FailUIDProbes r \<or> fr_StuckUID r then [] else fr_UID r)"
    and after: "map_of (sv_readers s) name = Some (asked r)" "sv_cards s = sv_cards (lb_server w)"
    using a r h by (auto simp: ask_card_def asked_def Let_def update_conv' split: if_splits)
  have "length (snd (card_answer uidAPDU found)) \<le> 264"
    using assms(2) by (auto simp: found card_answer_def good_uid_def)
  moreover have "uidAPDU \<noteq> []" "length uidAPDU < 2 ^ 32" by (simp_all add: uidAPDU_def)
  ultimately have "transmit (lab_net c) crd uidAPDU 64 w =
      (case card_answer uidAPDU found of (rv, resp) \<Rightarrow> if rv \<noteq> 0 then Inl (Code rv) else Inr resp, w\<lparr>lb_server := s\<rparr>)"
    using transmit_agrees [OF idle, of uidAPDU crd 64] by (simp add: a)
  moreover have "classify (case card_answer uidAPDU found of (rv, resp) \<Rightarrow> if rv \<noteq> 0 then Inl (Code rv) else Inr resp)
      = exchange_result r"
    using assms(2) probe by (auto simp: found card_answer_def exchange_result_def classify_def good_uid_def daemon_errs
        Let_def nth_append wedgedSW1_def wedgedSW2_def)
  moreover have "idle c s" using asking.keeps_idle [OF idle, of "ca_handle crd"] by (simp add: a)
  ultimately show ?thesis
    using after h by (auto simp: uidExchange_def api_ops holds_def reader_is_def)
qed

section \<open>The exchanges on one connection\<close>

definition same_reader :: "Reader \<Rightarrow> Reader \<Rightarrow> bool" where
  "same_reader r r' \<longleftrightarrow> fr_UID r' = fr_UID r \<and> fr_Present r' = fr_Present r \<and> fr_FailConnects r' = fr_FailConnects r
     \<and> fr_FailResetReconnects r' = fr_FailResetReconnects r \<and> fr_resetLag r' = fr_resetLag r \<and> fr_StuckUID r' = fr_StuckUID r"

lemma same_asked: "same_reader r (asked r)"
  by (simp add: same_reader_def asked_def)

lemma same_trans: "same_reader r r' \<Longrightarrow> same_reader r' r'' \<Longrightarrow> same_reader r r''"
  by (simp add: same_reader_def)

lemma transmit_attempts:
  assumes "holds c name r (ca_handle crd) w" "good_uid (fr_UID r)" "fr_FailUIDProbes r = word_of_nat n" "n < 2 ^ 63"
    and "attempt \<le> 3"
  shows "\<exists>w' r'. transmitUID_from attempt (lab_api c cl) crd w =
      ((if n \<le> 3 - attempt \<and> \<not> fr_StuckUID r then (fr_UID r, True) else ([], False)), w')
    \<and> holds c name r' (ca_handle crd) w' \<and> same_reader r r' \<and> fr_FailUIDProbes r' = word_of_nat (n - (4 - attempt))"
  using assms
proof (induction "3 - attempt" arbitrary: attempt n r w)
  case 0
  then have last_try: "attempt = 3" by simp
  obtain w' where "uidExchange (lab_api c cl) crd w = (exchange_result r, w')" "holds c name (asked r) (ca_handle crd) w'"
    using uidExchange_reads [OF 0(2,3)] by blast
  then show ?case
    using 0(4,5) budget_step [of "n - 1"] same_asked [of r]
    by (cases n) (auto simp: transmitUID_from.simps [of 3] last_try exchange_result_def uidReadAttempts_def asked_def
        split: if_splits)
next
  case (Suc k)
  obtain w' where x: "uidExchange (lab_api c cl) crd w = (exchange_result r, w')" "holds c name (asked r) (ca_handle crd) w'"
    using uidExchange_reads [OF Suc(3,4)] by blast
  have att: "attempt < 3" "k = 3 - Suc attempt" using Suc(2) by simp_all
  show ?case
  proof (cases n)
    case 0
    then have no: "\<not> 0 <s fr_FailUIDProbes r" using Suc(5) by simp
    show ?thesis
      by (rule exI [of _ w'], rule exI [of _ "asked r"])
        (use x same_asked [of r] Suc(5) in \<open>simp add: transmitUID_from.simps [of attempt] exchange_result_def asked_def no 0
            split: if_splits\<close>)
  next
    case (Suc m)
    have yes: "0 <s fr_FailUIDProbes r" "fr_FailUIDProbes (asked r) = word_of_nat m"
      using budget_step [of m] Suc.prems(3,4) Suc by (simp_all add: asked_def)
    have uid: "fr_UID (asked r) = fr_UID r" "fr_StuckUID (asked r) = fr_StuckUID r"
      using same_asked [of r] by (simp_all add: same_reader_def)
    have step: "transmitUID_from attempt (lab_api c cl) crd w = transmitUID_from (Suc attempt) (lab_api c cl) crd w'"
      using att(1) by (simp add: transmitUID_from.simps [of attempt] x exchange_result_def yes uidReadAttempts_def api_ops)
    obtain w'' r'' where "transmitUID_from (Suc attempt) (lab_api c cl) crd w' =
        ((if m \<le> 3 - Suc attempt \<and> \<not> fr_StuckUID r then (fr_UID r, True) else ([], False)), w'')"
      "holds c name r'' (ca_handle crd) w''" "same_reader (asked r) r''"
      "fr_FailUIDProbes r'' = word_of_nat (m - (4 - Suc attempt))"
      using Suc.hyps(1) [OF att(2) x(2), unfolded uid, OF Suc.prems(2) yes(2)] Suc.prems(4,5) Suc att(1) by auto
    moreover have "m \<le> 3 - Suc attempt \<longleftrightarrow> n \<le> 3 - attempt" "m - (4 - Suc attempt) = n - (4 - attempt)"
      using Suc att(1) by auto
    ultimately show ?thesis using same_trans [OF same_asked] by (auto simp: step)
  qed
qed

section \<open>Connecting and resetting\<close>

definition wire_name :: "string \<Rightarrow> bool" where
  "wire_name name \<longleftrightarrow> length name < 128 \<and> CHR 0x00 \<notin> set name"

lemma connectCard_tries:
  assumes "reader_is c name r w" "wire_name name" "activate r = (p, r')"
  shows "\<exists>res w'. connectCard (lab_api c cl) name w = (res, w') \<and>
    (if p then \<exists>crd. res = Inr crd \<and> ca_protocol crd = ProtocolT1 \<and> holds c name r' (ca_handle crd) w'
     else (\<exists>e. res = Inl e) \<and> reader_is c name r' w')"
proof -
  have idle: "idle c (lb_server w)" and r: "map_of (sv_readers (lb_server w)) name = Some r"
    using assms(1) by (simp_all add: reader_is_def)
  obtain known isPresent handle s where o: "open_card name (lb_server w) = ((known, isPresent, handle), s)"
    by (metis surj_pair)
  have known: "known" "isPresent = p" and after: "map_of (sv_readers s) name = Some r'"
    "p \<Longrightarrow> sv_cards s handle = Some name"
    using o r assms(3) by (auto simp: open_card_def Let_def update_conv' split: if_splits)
  have "idle c s" using opened.keeps_idle [OF idle, of name] by (simp add: o)
  then show ?thesis
    using connect_agrees [OF idle, of name cl ProtocolAny] assms(2) known after
    by (auto simp: connectCard_def api_ops o wire_name_def ErrProtoMismatch_def connect_rv_def daemon_errs err_defs
        holds_def reader_is_def)
qed

lemma reset_card:
  assumes "holds c name r (ca_handle crd) w"
  shows "reader_is c name (r\<lparr>fr_StuckUID := False, fr_resetLag := True\<rparr>)
    (snd (a_disconnect (lab_api c cl) crd ResetCard w))"
proof -
  have idle: "idle c (lb_server w)" using assms by (simp add: holds_def reader_is_def)
  show ?thesis
    using assms closing.keeps_idle [OF idle, of "ca_handle crd" ResetCard]
    by (auto simp: api_ops disconnect_agrees [OF idle] holds_def reader_is_def close_card_def ResetCard_def
        daemon_resetCard_def Let_def update_conv')
qed

text \<open>After a reset the reader comes back within the reconnects the code allows.\<close>

lemma reopen_recovers:
  assumes "reader_is c name r w" "wire_name name" "fr_Present r" "\<not> 0 <s fr_FailConnects r" "fr_resetLag r"
    and "fr_FailResetReconnects r = word_of_nat m" "m + attempt \<le> 8"
  shows "\<exists>crd w'. reopen_from attempt (lab_api c cl) name w = (Inr crd, w') \<and> ca_protocol crd = ProtocolT1
    \<and> holds c name (r\<lparr>fr_FailResetReconnects := 0, fr_resetLag := False\<rparr>) (ca_handle crd) w'"
  using assms
proof (induction m arbitrary: attempt r w)
  case 0
  then have "activate r = (True, r\<lparr>fr_FailResetReconnects := 0, fr_resetLag := False\<rparr>)"
    by (cases r) (simp add: activate_def)
  from connectCard_tries [OF 0(1,2) this, of cl] show ?case
    by (auto simp: reopen_from.simps [of attempt])
next
  case (Suc m)
  let ?r = "r\<lparr>fr_FailResetReconnects := word_of_nat m\<rparr>"
  have "activate r = (False, ?r)"
    using Suc.prems(3-7) budget_step [of m] by (simp add: activate_def)
  from connectCard_tries [OF Suc.prems(1,2) this, of cl] obtain e w' where
    x: "connectCard (lab_api c cl) name w = (Inl e, w')" "reader_is c name ?r w'" by auto
  have "reopen_from attempt (lab_api c cl) name w = reopen_from (attempt + 1) (lab_api c cl) name w'"
    using Suc.prems(7) by (simp add: reopen_from.simps [of attempt] x resetReopenAttempts_def api_ops)
  moreover obtain crd w'' where "reopen_from (attempt + 1) (lab_api c cl) name w' = (Inr crd, w'')"
    "ca_protocol crd = ProtocolT1"
    "holds c name (?r\<lparr>fr_FailResetReconnects := 0, fr_resetLag := False\<rparr>) (ca_handle crd) w''"
    using Suc.IH [OF x(2) Suc.prems(2), of "attempt + 1"] Suc.prems(3-7) by auto
  ultimately show ?case by (cases r) auto
qed

lemma openCard_recovers:
  assumes "reader_is c name r w" "wire_name name" "fr_Present r" "\<not> fr_resetLag r"
    and "fr_FailConnects r = word_of_nat k" "k + attempt \<le> 3"
  shows "\<exists>crd w'. openCard_from attempt (lab_api c cl) name w = (Inr crd, w') \<and> ca_protocol crd = ProtocolT1
    \<and> holds c name (r\<lparr>fr_FailConnects := 0\<rparr>) (ca_handle crd) w'"
  using assms
proof (induction k arbitrary: attempt r w)
  case 0
  then have "activate r = (True, r\<lparr>fr_FailConnects := 0\<rparr>)"
    by (cases r) (simp add: activate_def)
  from connectCard_tries [OF 0(1,2) this, of cl] show ?case
    by (auto simp: openCard_from.simps [of attempt])
next
  case (Suc k)
  let ?r = "r\<lparr>fr_FailConnects := word_of_nat k\<rparr>"
  have "activate r = (False, ?r)"
    using Suc.prems(3-6) budget_step [of k] by (simp add: activate_def)
  from connectCard_tries [OF Suc.prems(1,2) this, of cl] obtain e w' where
    x: "connectCard (lab_api c cl) name w = (Inl e, w')" "reader_is c name ?r w'" by auto
  have "openCard_from attempt (lab_api c cl) name w = openCard_from (attempt + 1) (lab_api c cl) name w'"
    using Suc.prems(6) by (simp add: openCard_from.simps [of attempt] x uidReadAttempts_def api_ops)
  moreover obtain crd w'' where "openCard_from (attempt + 1) (lab_api c cl) name w' = (Inr crd, w'')"
    "ca_protocol crd = ProtocolT1" "holds c name (?r\<lparr>fr_FailConnects := 0\<rparr>) (ca_handle crd) w''"
    using Suc.IH [OF x(2) Suc.prems(2), of "attempt + 1"] Suc.prems(3-6) by auto
  ultimately show ?case by (cases r) auto
qed

section \<open>Insisting\<close>

lemma insist_recovers:
  assumes "holds c name r (ca_handle crd) w" "wire_name name" "good_uid (fr_UID r)" "fr_Present r"
    and "\<not> 0 <s fr_FailConnects r" "fr_FailUIDProbes r = word_of_nat n" "fr_FailResetReconnects r = word_of_nat m" "m \<le> 7"
    and "round \<le> 3" "n < 3 * (4 - round)" "fr_StuckUID r \<longrightarrow> round \<le> 2" "ca_protocol crd = ProtocolT1"
  shows "\<exists>crd' w'. insist_from round (lab_api c cl) crd name w = ((fr_UID r, ProtocolT1, Some crd'), w')"
  using assms
proof (induction "3 - round" arbitrary: round n m r crd w)
  case 0
  then have "round = 3" "n \<le> 3 - 1" "\<not> fr_StuckUID r" by auto
  then show ?case
    using transmit_attempts [OF 0(2,4,7), of 1 cl] 0
    by (auto simp: insist_from.simps [of 3] transmitUID_def)
next
  case (Suc k)
  have round: "round \<le> 2" "k = 3 - Suc round" using Suc.hyps(2) by auto
  obtain w1 r1 where t: "transmitUID_from 1 (lab_api c cl) crd w =
      ((if n \<le> 2 \<and> \<not> fr_StuckUID r then (fr_UID r, True) else ([], False)), w1)"
    "holds c name r1 (ca_handle crd) w1" "same_reader r r1" "fr_FailUIDProbes r1 = word_of_nat (n - 3)"
  proof -
    have "n < 2 ^ 63" using Suc.prems(10) by simp
    from transmit_attempts [OF Suc.prems(1,3,6) this, of 1 cl] that show thesis by auto
  qed
  show ?case
  proof (cases "n \<le> 2 \<and> \<not> fr_StuckUID r")
    case True
    then show ?thesis
      using Suc.prems(12) by (auto simp: insist_from.simps [of round] transmitUID_def t(1) [unfolded One_nat_def])
  next
    case False
    let ?w = "snd (a_disconnect (lab_api c cl) crd ResetCard w1)"
    let ?r = "r1\<lparr>fr_StuckUID := False, fr_resetLag := True\<rparr>"
    have "reader_is c name ?r ?w" by (rule reset_card [OF t(2)])
    then obtain crd' w2 where re: "reopenCardAfterReset (lab_api c cl) name ?w = (Inr crd', w2)" "ca_protocol crd' = ProtocolT1"
      "holds c name (?r\<lparr>fr_FailResetReconnects := 0, fr_resetLag := False\<rparr>) (ca_handle crd') w2"
      using reopen_recovers [of c name ?r ?w m 1 cl] Suc.prems(2,4,5,7,8) t(3)
      by (auto simp: reopenCardAfterReset_def api_ops same_reader_def)
    have "insist_from round (lab_api c cl) crd name w = insist_from (Suc round) (lab_api c cl) crd' name w2"
      using False round(1) by (auto simp: insist_from.simps [of round] transmitUID_def t(1) [unfolded One_nat_def] uidReadRounds_def re(1))
    moreover have "\<exists>crd'' w'. insist_from (Suc round) (lab_api c cl) crd' name w2 = ((fr_UID r, ProtocolT1, Some crd''), w')"
      using Suc.hyps(1) [OF round(2) re(3) Suc.prems(2), of "n - 3" 0] Suc.prems round t(3,4) re(2)
      by (auto simp: same_reader_def)
    ultimately show ?thesis by simp
  qed
qed

section \<open>Properties\<close>

text \<open>C12. Reading the UID of a card recovers from every combination of the daemon's failures within the
  code's budgets: up to two refused connects, up to eight dropped exchanges, a wedged card, and up to
  seven refused reconnects after the reset; the UID is the card's.\<close>

theorem uid_recovered:
  assumes "reader_is c name r w" "wire_name name" "fr_Present r" "\<not> fr_resetLag r" "good_uid (fr_UID r)"
    and "fr_FailConnects r = word_of_nat k" "k \<le> 2"
    and "fr_FailUIDProbes r = word_of_nat n" "n \<le> 8"
    and "fr_FailResetReconnects r = word_of_nat m" "m \<le> 7"
  shows "\<exists>crd w1 crd' w2. openCard (lab_api c cl) name w = (Inr crd, w1)
    \<and> insistUID (lab_api c cl) crd name w1 = ((fr_UID r, ProtocolT1, Some crd'), w2)"
proof -
  obtain crd w1 where o: "openCard (lab_api c cl) name w = (Inr crd, w1)" "ca_protocol crd = ProtocolT1"
    "holds c name (r\<lparr>fr_FailConnects := 0\<rparr>) (ca_handle crd) w1"
    using openCard_recovers [OF assms(1-4,6), of 1 cl] assms(7) by (auto simp: openCard_def)
  moreover have "\<exists>crd' w2. insistUID (lab_api c cl) crd name w1 = ((fr_UID r, ProtocolT1, Some crd'), w2)"
    using insist_recovers [OF o(3) assms(2), of n m 1 cl] assms o(2) by (simp add: insistUID_def)
  ultimately show ?thesis by blast
qed

section \<open>Witnesses\<close>

text \<open>A card in trouble: refused, dropped, wedged, and slow to come back.\<close>

definition troubled :: Reader where
  "troubled = zero_reader\<lparr>fr_UID := lab_uid, fr_Present := True, fr_FailConnects := 2, fr_FailUIDProbes := 5,
     fr_StuckUID := True, fr_FailResetReconnects := 7\<rparr>"

definition troubled_lab :: lab where
  "troubled_lab = \<lparr>lb_server = lab_server\<lparr>sv_readers := [(''R'', troubled)]\<rparr>, lb_script = []\<rparr>"

theorem uid_recovered_witness:
  "\<exists>crd w1 crd' w2. openCard (lab_api 0 \<lparr>cl_context = 1, cl_major = 4, cl_minor = 4\<rparr>) ''R'' troubled_lab = (Inr crd, w1)
    \<and> insistUID (lab_api 0 \<lparr>cl_context = 1, cl_major = 4, cl_minor = 4\<rparr>) crd ''R'' w1 = ((lab_uid, ProtocolT1, Some crd'), w2)"
proof -
  have r: "reader_is 0 ''R'' troubled troubled_lab" "fr_UID troubled = lab_uid"
    by (simp_all add: reader_is_def troubled_lab_def lab_server_def idle_def troubled_def)
  show ?thesis
    using uid_recovered [OF r(1), of 2 5 7 "\<lparr>cl_context = 1, cl_major = 4, cl_minor = 4\<rparr>"]
    by (simp add: r(2) wire_name_def) (simp add: troubled_def zero_reader_def good_uid_def lab_uid_def isRandomUID_def)
qed

end
