(* ===== verification/Pipeline.thy ===== *)
theory Pipeline
  imports Recovery Inventory
begin

text \<open>
  From a card on the daemon's reader to the event: \<open>InsertCard\<close> of the daemon, the reader states the
  client decodes, and the probe of the watch loop over the client's connection, with all the failures
  the daemon can be told to show. The card operations of the loop are those of theory \<open>Agreement\<close>; the
  sysfs tree is read beside the connection and does not touch it.
\<close>

section \<open>The driver attributes over the wire\<close>

definition only_counted :: "Reader \<Rightarrow> Reader \<Rightarrow> bool" where
  "only_counted r r' \<longleftrightarrow> (\<exists>n. r' = r\<lparr>fr_AttribProbes := n\<rparr>)"

lemma only_counted_refl: "only_counted r r"
  unfolding only_counted_def by (rule exI [of _ "fr_AttribProbes r"]) simp

lemma only_counted_trans: "only_counted r r' \<Longrightarrow> only_counted r' r'' \<Longrightarrow> only_counted r r''"
  by (auto simp: only_counted_def)

lemma getAttrib_holds:
  assumes "holds c name r (ca_handle crd) w" "length (fr_Serial r) \<le> 264"
  shows "\<exists>res w' r'. getAttrib (lab_net c) crd attr w = (res, w') \<and> holds c name r' (ca_handle crd) w' \<and> only_counted r r'"
proof -
  have idle: "idle c (lb_server w)" and r: "map_of (sv_readers (lb_server w)) name = Some r"
    and h: "sv_cards (lb_server w) (ca_handle crd) = Some name"
    using assms(1) by (simp_all add: holds_def reader_is_def)
  obtain known v s where o: "card_attribute (ca_handle crd) attr (lb_server w) = ((known, v), s)" by (metis surj_pair)
  have small: "length x \<le> 264" if "v = Some x" for x
    using o r h assms(2) that by (auto simp: card_attribute_def Let_def split: if_splits)
  have "\<exists>r'. map_of (sv_readers s) name = Some r' \<and> only_counted r r'" "sv_cards s (ca_handle crd) = Some name"
    using o r h only_counted_refl [of r]
    by (auto simp: card_attribute_def Let_def update_conv' only_counted_def split: if_splits)
  moreover have "idle c s" using attribute.keeps_idle [OF idle, of "ca_handle crd" attr] by (simp add: o)
  ultimately show ?thesis
    using getAttrib_agrees [OF idle, of crd attr] small by (auto simp: o holds_def reader_is_def split: option.splits)
qed

text \<open>Reading the sysfs tree leaves the connection alone.\<close>

definition looks_on :: "lab look \<Rightarrow> bool" where
  "looks_on look \<longleftrightarrow> (\<forall>w. snd (look w) = w)"

lemma read_unit_holds:
  assumes "holds c name r (ca_handle crd) w" "length (fr_Serial r) \<le> 264" "looks_on look"
  shows "\<exists>res w' r'. read_unit (lab_api c cl) look reader root usb crd w = (res, w') \<and> holds c name r' (ca_handle crd) w'
    \<and> only_counted r r'"
proof -
  have api: "a_getAttrib (lab_api c cl) = getAttrib (lab_net c)" by (simp add: client_api_def)
  obtain res1 w1 r1 where one: "getAttrib (lab_net c) crd AttrVendorIFDSerialNo w = (res1, w1)"
    "holds c name r1 (ca_handle crd) w1" "only_counted r r1" using getAttrib_holds [OF assms(1,2)] by blast
  then have "length (fr_Serial r1) \<le> 264" using assms(2) by (auto simp: only_counted_def)
  from getAttrib_holds [OF one(2) this] obtain res2 w2 r2 where two: "getAttrib (lab_net c) crd AttrChannelID w1 = (res2, w2)"
    "holds c name r2 (ca_handle crd) w2" "only_counted r1 r2" by blast
  have "\<exists>serial. readVendorSerial (lab_api c cl) crd w = (serial, w1)"
    by (cases res1) (simp_all add: readVendorSerial_def api one(1) Let_def)
  then obtain serial where s: "readVendorSerial (lab_api c cl) crd w = (serial, w1)" by blast
  have "\<exists>why. readChannelID (lab_api c cl) crd w1 = (why, w2)"
    by (cases res2) (simp_all add: readChannelID_def api two(1) Let_def)
  then obtain bus dev why where i: "readChannelID (lab_api c cl) crd w1 = ((bus, dev, why), w2)" by (metis surj_pair)
  obtain t where v: "look w2 = (t, w2)" using assms(3) by (metis looks_on_def prod.collapse)
  have "\<exists>res. read_unit (lab_api c cl) look reader root usb crd w = (res, w1)
      \<or> read_unit (lab_api c cl) look reader root usb crd w = (res, w2)"
    by (auto simp: read_unit_def s i v split: prod.split)
  with one two only_counted_trans [OF one(3) two(3)] show ?thesis by metis
qed

section \<open>The probe\<close>

text \<open>A reader that shows its card within the budgets of the code.\<close>

definition within_budgets :: "Reader \<Rightarrow> bool" where
  "within_budgets r \<longleftrightarrow> fr_FailConnects r \<in> {0, 1, 2} \<and> unat (fr_FailUIDProbes r) \<le> 8
     \<and> unat (fr_FailResetReconnects r) \<le> 7 \<and> length (fr_Serial r) \<le> 264"

lemma probe_reads_uid:
  assumes "reader_is c name r w" "wire_name name" "fr_Present r" "\<not> fr_resetLag r" "good_uid (fr_UID r)"
    and "within_budgets r" "looks_on look"
  shows "f_uid (fst (probeReaderCard (lab_api c cl) look up name root usb claims remembered w)) = fr_UID r"
proof -
  let ?known = "f_serial remembered \<noteq> [] \<or> f_port remembered \<noteq> []"
  obtain k where k: "fr_FailConnects r = word_of_nat k" "k \<le> 2"
  proof -
    from assms(6) consider "fr_FailConnects r = 0" | "fr_FailConnects r = 1" | "fr_FailConnects r = 2"
      by (auto simp: within_budgets_def)
    then show thesis using that [of 0] that [of 1] that [of 2] by cases auto
  qed
  obtain t where "look w = (t, w)" using assms(7) by (metis looks_on_def prod.collapse)
  then have "snapshot_now look root w = (usbUrbSnapshot t root, w)" by (simp add: snapshot_now_def)
  then have "\<exists>before. (if P then snapshot_now look root w else (None, w)) = (before, w)" for P by simp
  then obtain before where b: "(if usb \<and> \<not> ?known then snapshot_now look root w else (None, w)) = (before, w)" by blast
  obtain crd w1 where o: "openCard (lab_api c cl) name w = (Inr crd, w1)" "ca_protocol crd = ProtocolT1"
    "holds c name (r\<lparr>fr_FailConnects := 0\<rparr>) (ca_handle crd) w1"
    using openCard_recovers [OF assms(1-4) k(1), of 1 cl] k(2) by (auto simp: openCard_def)
  have "\<exists>res w2 r2. (if ?known then ((f_serial remembered, f_port remembered), w1)
        else read_unit (lab_api c cl) look name root usb crd w1) = (res, w2)
      \<and> holds c name r2 (ca_handle crd) w2 \<and> only_counted (r\<lparr>fr_FailConnects := 0\<rparr>) r2"
    using o(3) read_unit_holds [OF o(3) _ assms(7), of cl name root usb] assms(6) only_counted_refl
    by (cases ?known) (auto simp: within_budgets_def)
  then obtain serial port w2 r2 where u: "(if ?known then ((f_serial remembered, f_port remembered), w1)
        else read_unit (lab_api c cl) look name root usb crd w1) = ((serial, port), w2)"
    "holds c name r2 (ca_handle crd) w2" "only_counted (r\<lparr>fr_FailConnects := 0\<rparr>) r2" by (metis surj_pair)
  have r2: "fr_UID r2 = fr_UID r" "fr_Present r2" "\<not> 0 <s fr_FailConnects r2"
    "fr_FailUIDProbes r2 = word_of_nat (unat (fr_FailUIDProbes r))"
    "fr_FailResetReconnects r2 = word_of_nat (unat (fr_FailResetReconnects r))"
    using u(3) assms(3) by (auto simp: only_counted_def)
  obtain crd' w3 where i: "insistUID (lab_api c cl) crd name w2 = ((fr_UID r, ProtocolT1, Some crd'), w3)"
    using insist_recovers [OF u(2) assms(2) _ r2(2,3,4,5), of 1 cl] assms(5,6) o(2)
    by (auto simp: insistUID_def r2(1) within_budgets_def)
  obtain port' w4 where p: "(if usb \<and> \<not> ?known \<and> serial = [] \<and> port = []
      then pin_port (lab_api c cl) look up name root before claims (Some crd') w3 else (port, w3)) = (port', w4)" by force
  show ?thesis unfolding probeReaderCard_def Let_def b prod.case o(1) sum.case u(1) i p by simp
qed

section \<open>Properties\<close>

text \<open>The insertion of a card on the daemon, seen from a connection that is not waiting.\<close>

lemma inserted_reader:
  assumes "idle c s" "c \<notin> sv_waiters s"
  shows "idle c (InsertCard name atr uid s)"
    and "\<exists>r. map_of (sv_readers (InsertCard name atr uid s)) name = Some r \<and> fr_ATR r = atr \<and> fr_UID r = uid
      \<and> fr_Present r \<and> \<not> fr_resetLag r
      \<and> r = (case map_of (sv_readers s) name of Some r \<Rightarrow> r | None \<Rightarrow> zero_reader)
          \<lparr>fr_ATR := atr, fr_UID := uid, fr_Present := True, fr_EventCounter := fr_EventCounter r, fr_resetLag := False\<rparr>"
  using assms by (auto simp: InsertCard_def Let_def wakeWaiters_def idle_def update_conv')

text \<open>A reader the loop has nothing to report of: it is tracked as the snapshot shows it.\<close>

definition settled :: "reader_tracking \<Rightarrow> reader_state \<Rightarrow> bool" where
  "settled tr st \<longleftrightarrow> was_present tr (rs_reader st) = state_present st \<and> (state_present st \<longrightarrow> \<not> counter_moved tr st)"

lemma poll_state_settled: "settled tr st \<Longrightarrow> poll_state api env st tr w = (True, note_state st tr, w)"
  by (auto simp: settled_def poll_state_def)

lemma note_state_apart:
  "q \<noteq> rs_reader st \<Longrightarrow> was_present (note_state st tr) q = was_present tr q"
  "rs_reader st' \<noteq> rs_reader st \<Longrightarrow> counter_moved (note_state st tr) st' = counter_moved tr st'"
  by (simp_all add: was_present_def counter_moved_def note_state_def)

lemma settled_apart: "rs_reader st' \<noteq> rs_reader st \<Longrightarrow> settled (note_state st tr) st' = settled tr st'"
  by (simp add: settled_def note_state_apart)

lemma poll_states_settled:
  "\<forall>st \<in> set sts. settled tr st \<Longrightarrow> distinct (map rs_reader sts) \<Longrightarrow>
   \<exists>tr'. poll_states api env sts tr w = (True, tr', w) \<and> (\<forall>q. was_present tr' q \<longrightarrow> was_present tr q)
     \<and> (\<forall>q. q \<notin> rs_reader ` set sts \<longrightarrow> was_present tr' q = was_present tr q)
     \<and> (\<forall>st. rs_reader st \<notin> rs_reader ` set sts \<longrightarrow> settled tr' st = settled tr st)"
proof (induction sts arbitrary: tr)
  case (Cons st sts)
  have new: "rs_reader st \<notin> rs_reader ` set sts" using Cons.prems(2) by auto
  have kept: "was_present (note_state st tr) q \<longrightarrow> was_present tr q" for q
    using Cons.prems(1) by (auto simp: note_state_def was_present_def settled_def)
  have "\<forall>x \<in> set sts. settled (note_state st tr) x"
  proof
    fix x assume x: "x \<in> set sts"
    then have "rs_reader x \<noteq> rs_reader st" using new by (metis imageI)
    with Cons.prems(1) x show "settled (note_state st tr) x" by (simp add: settled_apart)
  qed
  from Cons.IH [OF this] Cons.prems(2) obtain tr' where tr': "poll_states api env sts (note_state st tr) w = (True, tr', w)"
    "\<forall>q. was_present tr' q \<longrightarrow> was_present (note_state st tr) q"
    "\<forall>q. q \<notin> rs_reader ` set sts \<longrightarrow> was_present tr' q = was_present (note_state st tr) q"
    "\<forall>y. rs_reader y \<notin> rs_reader ` set sts \<longrightarrow> settled tr' y = settled (note_state st tr) y" by auto
  have "poll_state api env st tr w = (True, note_state st tr, w)" using Cons.prems(1) by (intro poll_state_settled) simp
  then show ?case using tr' kept by (intro exI [of _ tr']) (auto simp: note_state_apart settled_apart)
qed simp

lemma poll_states_append:
  "poll_states api env (xs @ ys) tr w =
     (case poll_states api env xs tr w of (ok, tr, w) \<Rightarrow> if \<not> ok then (False, tr, w) else poll_states api env ys tr w)"
  by (induction xs arbitrary: tr w) (auto split: prod.split)

lemma poll_gone_quiet:
  "\<forall>q. was_present tr q \<longrightarrow> seen q \<Longrightarrow> \<exists>tr'. poll_gone api seen qs tr w = (True, tr', w)"
proof (induction qs arbitrary: tr)
  case (Cons q qs)
  have "\<forall>p. was_present (drop_reader q tr) p \<longrightarrow> seen p"
    using Cons.prems by (auto simp: drop_reader_def was_present_def)
  then show ?case using Cons.IH [OF Cons.prems] Cons.IH [of "drop_reader q tr"] Cons.prems by auto
qed simp

lemma poll_gone_keeps_seen:
  "poll_gone api seen qs tr w = (True, tr', w') \<Longrightarrow> seen p \<Longrightarrow> was_present tr p \<Longrightarrow> was_present tr' p"
proof (induction qs arbitrary: tr w)
  case (Cons q qs)
  have "\<not> seen q \<Longrightarrow> was_present (drop_reader q tr) p"
    using Cons.prems(2,3) by (auto simp: drop_reader_def was_present_def)
  with Cons show ?case by (auto split: if_splits prod.splits)
qed simp

text \<open>The reader states of a server, after the insertion: each reader once, and of the others no news.\<close>

abbreviation views :: "Server \<Rightarrow> reader_state list" where
  "views s \<equiv> map (\<lambda>name. reader_view name (reader_in s name)) (listed s)"

lemma views_readers: "map rs_reader (views s) = listed s"
  by (simp add: reader_view_def comp_def)

lemma inserted_views:
  assumes "distinct (map fst (sv_readers s))"
    and "\<forall>q r. q \<noteq> name \<and> map_of (sv_readers s) q = Some r \<longrightarrow> settled tr (reader_view q r)"
  shows "distinct (map rs_reader (views (InsertCard name atr uid s)))"
    and "\<forall>x \<in> set (views (InsertCard name atr uid s)).
      x \<noteq> reader_view name (reader_in (InsertCard name atr uid s) name) \<longrightarrow> settled tr x"
proof -
  let ?s = "InsertCard name atr uid s"
  have "distinct (map fst (sv_readers ?s))"
    using assms(1) by (simp add: InsertCard_def Let_def wakeWaiters_def distinct_update)
  then show "distinct (map rs_reader (views ?s))" unfolding views_readers by (simp add: listed_def)
  show "\<forall>x \<in> set (views ?s). x \<noteq> reader_view name (reader_in ?s name) \<longrightarrow> settled tr x"
  proof (intro ballI impI)
    fix x assume x: "x \<in> set (views ?s)" "x \<noteq> reader_view name (reader_in ?s name)"
    then obtain q where q: "q \<in> set (listed ?s)" "x = reader_view q (reader_in ?s q)" "q \<noteq> name" by auto
    have "q \<in> set (map fst (sv_readers ?s))" using q(1) unfolding listed_def by (metis in_set_takeD set_sort)
    then have "map_of (sv_readers ?s) q \<noteq> None" by (simp add: map_of_eq_None_iff)
    moreover have "map_of (sv_readers ?s) q = map_of (sv_readers s) q"
      using q(3) by (simp add: InsertCard_def Let_def wakeWaiters_def update_conv')
    ultimately have "map_of (sv_readers s) q = Some (reader_in ?s q)" by (auto simp: reader_in_def)
    with q(2,3) show "settled tr x" using assms(2) by auto
  qed
qed

text \<open>A turn over a snapshot in which one reader alone has news, its insertion.\<close>

lemma turn_inserts:
  assumes "wa_states api w = (Inr sts, w)" "st \<in> set sts" "distinct (map rs_reader sts)"
    and "\<forall>x \<in> set sts. x \<noteq> st \<longrightarrow> settled tr x" "\<forall>q. was_present tr q \<longrightarrow> q \<in> rs_reader ` set sts"
    and "wants_insert tr st" "emits_only api"
    and "\<And>claims remembered. f_uid (fst (probeReaderCard (wa_cards api) (wa_look api) (wa_upper api) (rs_reader st)
      (env_sysfsRoot env) (env_useUSBPath env) claims remembered w)) = uid" "uid \<noteq> []"
  shows "\<exists>t tr' w' facts. poll_turn (logged_watch api) env tr (w, log) =
      (t, tr', (w', log @ [Seen sts, Sent (insert_event (env_machine env) st facts)])) \<and> f_uid facts = uid
      \<and> was_present tr' (rs_reader st)"
proof -
  let ?api = "logged_watch api" and ?log = "log @ [Seen sts]"
  from split_list [OF assms(2)] obtain xs ys where sts: "sts = xs @ st # ys" by blast
  have apart: "rs_reader st \<notin> rs_reader ` set xs" "rs_reader st \<notin> rs_reader ` set ys" "distinct (map rs_reader xs)"
    "distinct (map rs_reader ys)" "rs_reader ` set xs \<inter> rs_reader ` set ys = {}"
    using assms(3) by (auto simp: sts)
  have quiet: "\<forall>x \<in> set xs. settled tr x" "\<forall>y \<in> set ys. settled tr y"
    using assms(4) apart(1,2) by (auto simp: sts)
  obtain tr1 where one: "poll_states ?api env xs tr (w, ?log) = (True, tr1, (w, ?log))"
    "\<forall>q. was_present tr1 q \<longrightarrow> was_present tr q" "was_present tr1 (rs_reader st) = was_present tr (rs_reader st)"
    "\<forall>y. rs_reader y \<notin> rs_reader ` set xs \<longrightarrow> settled tr1 y = settled tr y"
    using poll_states_settled [OF quiet(1) apart(3)] apart(1) by metis
  have wants: "state_present st" "\<not> was_present tr1 (rs_reader st) \<or> counter_moved tr1 st"
    using assms(6) one(3,4) apart(1) by (auto simp: wants_insert_def settled_def)
  obtain fresh v where p: "probeReaderCard (wa_cards api) (wa_look api) (wa_upper api) (rs_reader st)
      (env_sysfsRoot env) (env_useUSBPath env) (reg_byPort (tr_units tr1)) (cached (tr_units tr1) (rs_reader st)) w
    = (fresh, v)" by force
  obtain facts units where a: "adopt (tr_units tr1) (rs_reader st) fresh = (facts, units)" by force
  have uid: "f_uid facts = uid" using assms(8) p a adopt_uid(1) by (metis fst_conv)
  let ?tr2 = "note_state st (tr1\<lparr>tr_units := units\<rparr>)" and ?now = "log @ [Seen sts, Sent (insert_event (env_machine env) st facts)]"
  have two: "poll_state ?api env st tr1 (w, ?log) = (True, ?tr2, (v, ?now))"
    using wants uid assms(9)
    by (simp add: poll_state_def poll_insert_def logged_upper logged_probe_same [OF p] a logged_emit [OF assms(7)]
        identify_def Let_def)
  have "settled ?tr2 y" if "y \<in> set ys" for y
  proof -
    have "rs_reader y \<noteq> rs_reader st" "rs_reader y \<notin> rs_reader ` set xs" using that apart(2,5) by (metis imageI, blast)
    moreover have "settled (tr1\<lparr>tr_units := units\<rparr>) y = settled tr1 y"
      by (simp add: settled_def was_present_def counter_moved_def)
    ultimately show ?thesis using one(4) quiet(2) that by (simp add: settled_apart)
  qed
  then obtain tr3 where three: "poll_states ?api env ys ?tr2 (v, ?now) = (True, tr3, (v, ?now))"
    "\<forall>q. was_present tr3 q \<longrightarrow> was_present ?tr2 q" "was_present tr3 (rs_reader st) = was_present ?tr2 (rs_reader st)"
    using poll_states_settled [of ys ?tr2 ?api env "(v, ?now)"] apart(2,4) by metis
  have here: "was_present tr3 (rs_reader st)" using three(3) wants(1) by (simp add: note_state_def was_present_def)
  have "was_present ?tr2 q \<Longrightarrow> q = rs_reader st \<or> was_present tr1 q" for q
    by (auto simp: note_state_def was_present_def split: if_splits)
  then have seen: "\<forall>q. was_present tr3 q \<longrightarrow> q \<in> set (map rs_reader sts)"
    using three(2) one(2) assms(2,5) by force
  have "poll_states ?api env (xs @ st # ys) tr (w, ?log) = (True, tr3, (v, ?now))"
    unfolding poll_states_append by (simp only: one(1) two three(1) poll_states.simps prod.case not_True_eq_False if_False)
  then have all: "poll_states ?api env sts tr (w, ?log) = (True, tr3, (v, ?now))" by (simp only: sts [symmetric])
  obtain tr4 where gone: "poll_gone ?api (\<lambda>q. q \<in> set (map rs_reader sts)) (range_keys ?api (tr_present tr3) (v, ?now))
      tr3 (v, ?now) = (True, tr4, (v, ?now))" using poll_gone_quiet [OF seen, where api = ?api and w = "(v, ?now)"] by blast
  have snap: "poll_snapshot ?api env sts tr (w, ?log) = (True, tr4, (v, ?now))"
    by (simp only: poll_snapshot_def all prod.case gone not_True_eq_False if_False)
  have still: "was_present tr4 (rs_reader st)" using poll_gone_keeps_seen [OF gone _ here] assms(2) by simp
  have states: "wa_states ?api (w, log) = (Inr sts, (w, ?log))" using assms(1) by (simp add: logged_watch_def)
  have "sts \<noteq> []" using assms(2) by auto
  obtain e u where wait: "wa_wait ?api waitTick (v, ?now) = (e, (u, ?now))"
    by (cases "wa_wait api waitTick v") (simp add: logged_watch_def)
  have "\<exists>t. poll_turn ?api env tr (w, log) = (t, tr4, (u, ?now))"
    using \<open>sts \<noteq> []\<close> by (cases e) (auto simp: poll_turn_def states snap wait)
  then show ?thesis using uid still by auto
qed

text \<open>C5. A card put on a reader of the daemon comes out as its event. The client's next reader states show
  the reader with the card's answer to reset, and the next turn of the watch loop, when it last knew the
  reader empty and the other readers as they are, sends exactly one event and no other: the insertion with
  the UID of the card and the btag of that UID and the detected type. It does although the reader may
  refuse two connects, drop eight exchanges, be wedged, and come back from the reset only at the eighth
  reconnect; whatever the identity options, the claims of other readers and the sysfs tree are.\<close>

theorem inserted_card_reported:
  assumes "idle c s" "c \<notin> sv_waiters s" "wire_names (InsertCard name atr uid s)" "distinct (map fst (sv_readers s))"
    and "name \<in> set (listed (InsertCard name atr uid s))" "length name < 128" "length atr \<le> 33" "good_uid uid"
    and "within_budgets (case map_of (sv_readers s) name of Some r \<Rightarrow> r | None \<Rightarrow> zero_reader)"
    and "wa_cards api = lab_api c cl" "wa_states api = states (lab_net c)" "looks_on (wa_look api)" "emits_only api"
    and "w = \<lparr>lb_server = InsertCard name atr uid s, lb_script = script\<rparr>"
    and "\<not> was_present tr name"
    and "\<forall>q r. q \<noteq> name \<and> map_of (sv_readers s) q = Some r \<longrightarrow> settled tr (reader_view q r)"
    and "\<forall>q. was_present tr q \<longrightarrow> q \<in> set (listed (InsertCard name atr uid s))"
  shows "\<exists>sts st. states (lab_net c) w = (Inr sts, w) \<and> st \<in> set sts \<and> rs_reader st = name \<and> rs_atr st = atr
    \<and> state_present st
    \<and> (\<exists>t tr' w' facts. poll_turn (logged_watch api) env tr (w, log) =
          (t, tr', (w', log @ [Seen sts, Sent (insert_event (env_machine env) st facts)]))
        \<and> f_uid facts = uid \<and> card_ID (identify st facts) = Btag (DetectType atr) uid \<and> was_present tr' name)"
proof -
  obtain r where r: "map_of (sv_readers (InsertCard name atr uid s)) name = Some r" "fr_ATR r = atr" "fr_UID r = uid"
    "fr_Present r" "\<not> fr_resetLag r"
    "r = (case map_of (sv_readers s) name of Some r \<Rightarrow> r | None \<Rightarrow> zero_reader)
          \<lparr>fr_ATR := atr, fr_UID := uid, fr_Present := True, fr_EventCounter := fr_EventCounter r, fr_resetLag := False\<rparr>"
    using inserted_reader(2) [OF assms(1,2)] by blast
  have budget: "within_budgets r" using assms(9) by (subst r(6)) (simp add: within_budgets_def)
  let ?st = "reader_view name r" and ?sts = "views (InsertCard name atr uid s)"
  have server: "lb_server w = InsertCard name atr uid s" by (simp add: assms(14))
  have idle: "idle c (lb_server w)" using inserted_reader(1) [OF assms(1,2)] by (simp add: server)
  have held: "reader_is c name r w" using idle r(1) by (simp add: reader_is_def server)
  have wire: "wire_name name"
    using assms(3,6) map_of_SomeD [OF r(1)] by (force simp: wire_name_def wire_names_def)
  have seen: "states (lab_net c) w = (Inr ?sts, w)"
    using readers_seen [OF idle] assms(3) by (simp add: server)
  have held': "reader_in (InsertCard name atr uid s) name = r" by (simp add: reader_in_def r(1))
  then have here: "?st \<in> set ?sts" using assms(5) by force
  have view: "rs_reader ?st = name" "rs_atr ?st = atr" "state_present ?st"
    using r(2,4) assms(7) by (simp_all add: reader_view_def state_present_def statePresentBits_def statePresent_def ReaderPresent_def)
  note dist = inserted_views(1) [OF assms(4,16), of atr uid]
    and others = inserted_views(2) [OF assms(4,16), of atr uid, unfolded held']
  have probed: "f_uid (fst (probeReaderCard (wa_cards api) (wa_look api) (wa_upper api) (rs_reader ?st)
      (env_sysfsRoot env) (env_useUSBPath env) claims remembered w)) = uid" for claims remembered
    using probe_reads_uid [OF held wire r(4,5) _ budget assms(12)] assms(8) by (simp add: assms(10) view(1) r(3))
  have "wants_insert tr ?st" using view assms(15) by (simp add: wants_insert_def)
  moreover have "uid \<noteq> []" using assms(8) by (simp add: good_uid_def)
  moreover have "wa_states api w = (Inr ?sts, w)" using seen by (simp add: assms(11))
  moreover have "\<forall>q. was_present tr q \<longrightarrow> q \<in> rs_reader ` set ?sts"
    using assms(17) views_readers by (simp only: set_map [symmetric])
  ultimately obtain t tr' w' facts where turn: "poll_turn (logged_watch api) env tr (w, log) =
      (t, tr', (w', log @ [Seen ?sts, Sent (insert_event (env_machine env) ?st facts)]))" "f_uid facts = uid"
    "was_present tr' (rs_reader ?st)"
    using turn_inserts [of api w ?sts ?st tr env uid log] here dist others assms(13) probed by blast
  have "card_ID (identify ?st facts) = Btag (DetectType atr) uid"
    using turn(2) \<open>uid \<noteq> []\<close> by (simp add: identify_def view(2) Let_def)
  with turn have "\<exists>t tr' w' facts. poll_turn (logged_watch api) env tr (w, log) =
        (t, tr', (w', log @ [Seen ?sts, Sent (insert_event (env_machine env) ?st facts)]))
      \<and> f_uid facts = uid \<and> card_ID (identify ?st facts) = Btag (DetectType atr) uid \<and> was_present tr' name"
    unfolding view(1) by blast
  then show ?thesis
    by (intro exI [of _ ?sts] exI [of _ ?st] conjI) (rule seen here view)+
qed

section \<open>Witnesses\<close>

text \<open>The loop over a connection of the daemon, with an empty sysfs.\<close>

definition lab_watch :: "nat \<Rightarrow> ipcClient \<Rightarrow> lab watch_api" where
  "lab_watch c cl = \<lparr>
     wa_cards = lab_api c cl, wa_look = (\<lambda>w. (Map.empty, w)), wa_upper = (\<lambda>s. s), wa_states = states (lab_net c),
     wa_wait = waitChange (lab_net c) cl, wa_emit = (\<lambda>e w. (True, w)), wa_pause = (\<lambda>t w. (True, w)),
     wa_done = (\<lambda>w. False), wa_order = (\<lambda>w keys. keys)\<rparr>"

definition lab_client :: ipcClient where
  "lab_client = \<lparr>cl_context = 1, cl_major = 4, cl_minor = 4\<rparr>"

text \<open>The card of a troubled reader is reported, by one event.\<close>

theorem inserted_card_reported_witness:
  "\<exists>sts t tr' w' st facts. poll_turn (logged_watch (lab_watch 0 lab_client)) sample_env newTracking
      (\<lparr>lb_server = InsertCard ''R'' lab_atr lab_uid (lab_server\<lparr>sv_readers := [(''R'', troubled)]\<rparr>), lb_script = []\<rparr>, [])
    = (t, tr', (w', [Seen sts, Sent (insert_event [] st facts)])) \<and> f_uid facts = lab_uid \<and> rs_reader st = ''R''"
proof -
  let ?s = "lab_server\<lparr>sv_readers := [(''R'', troubled)]\<rparr>" and ?api = "lab_watch 0 lab_client"
  have s: "idle 0 ?s" "0 \<notin> sv_waiters ?s" "map_of (sv_readers ?s) ''R'' = Some troubled" "distinct (map fst (sv_readers ?s))"
    by (simp_all add: lab_server_def New_def idle_def)
  have names: "map fst (sv_readers (InsertCard ''R'' lab_atr lab_uid ?s)) = [''R'']"
    by (simp add: InsertCard_def wakeWaiters_def Let_def)
  then have wire: "wire_names (InsertCard ''R'' lab_atr lab_uid ?s)"
    and here: "''R'' \<in> set (listed (InsertCard ''R'' lab_atr lab_uid ?s))"
    by (simp_all add: wire_names_def listed_def)
  have small: "length ''R'' < 128" "length lab_atr \<le> 33" "good_uid lab_uid"
    by (simp_all add: lab_atr_def good_uid_def lab_uid_def isRandomUID_def)
  have budget: "within_budgets (case map_of (sv_readers ?s) ''R'' of Some r \<Rightarrow> r | None \<Rightarrow> zero_reader)"
    by (simp add: s(3)) (simp add: within_budgets_def troubled_def zero_reader_def)
  have api: "wa_cards ?api = lab_api 0 lab_client" "wa_states ?api = states (lab_net 0)" "looks_on (wa_look ?api)"
    "emits_only ?api" by (simp_all add: lab_watch_def looks_on_def emits_only_def)
  have none: "\<not> was_present newTracking q" for q by (simp add: was_present_def newTracking_def)
  have others: "\<forall>q r. q \<noteq> ''R'' \<and> map_of (sv_readers ?s) q = Some r \<longrightarrow> settled newTracking (reader_view q r)" by simp
  have env: "env_machine sample_env = []" by (simp add: sample_env_def)
  from inserted_card_reported [OF s(1,2) wire s(4) here small budget api refl none others, of "[]" sample_env "[]"] none
  show ?thesis unfolding env append_Nil by blast
qed

end
